(* ===== verification/Smysl_Prelude.thy ===== *)
theory Smysl_Prelude
  imports Main "HOL-Library.Word" "HOL-Library.List_Lexorder"
begin

section \<open>Shared types, containers and lemmas\<close>

text \<open>
  What every component theory uses: names for Rust's integer types, the error-or-value result
  (a sum, \<open>Inl\<close> for \<open>Err\<close>), \<open>BTreeSet\<close> as a strictly ascending list and \<open>BTreeMap\<close> as an
  association list with strictly ascending keys, the interface of an ordered map as a locale, and
  the generic lemmas on them. Text is a \<open>string\<close> of UTF-8 bytes (a HOL \<open>char\<close> is one byte), so
  \<open>length\<close> is Rust's \<open>str::len\<close>.
\<close>

type_synonym u8 = "8 word"
type_synonym u16 = "16 word"
type_synonym u32 = "32 word"
type_synonym u64 = "64 word"
type_synonym bytes = "u8 list"

named_theorems set_simps "membership in the ordered containers"
named_theorems ok_intros "operations keep the containers ordered"

subsection \<open>Results\<close>

text \<open>The \<open>?\<close> operator: go on with the value, or return the error.\<close>

definition and_then :: "('e + 'a) \<Rightarrow> ('a \<Rightarrow> 'e + 'b) \<Rightarrow> 'e + 'b" where
  "and_then r f = (case r of Inl e \<Rightarrow> Inl e | Inr a \<Rightarrow> f a)"

lemma and_then_simps [simp]:
  "and_then (Inl e) f = Inl e"
  "and_then (Inr a) f = f a"
  by (simp_all add: and_then_def)

lemma and_then_Inr_iff: "and_then r f = Inr b \<longleftrightarrow> (\<exists>a. r = Inr a \<and> f a = Inr b)"
  by (cases r) auto

lemma and_then_split:
  "P (and_then r f) \<longleftrightarrow> (\<forall>e. r = Inl e \<longrightarrow> P (Inl e)) \<and> (\<forall>a. r = Inr a \<longrightarrow> P (f a))"
  by (cases r) auto

definition ok_or :: "'a option \<Rightarrow> 'e \<Rightarrow> 'e + 'a" where
  "ok_or x e = (case x of None \<Rightarrow> Inl e | Some a \<Rightarrow> Inr a)"

lemma ok_or_simps [simp]: "ok_or None e = Inl e" "ok_or (Some a) e = Inr a"
  by (simp_all add: ok_or_def)

lemma ok_or_Inr_iff [simp]: "ok_or x e = Inr a \<longleftrightarrow> x = Some a"
  by (cases x) simp_all

subsection \<open>\<open>BTreeSet\<close>: strictly ascending lists\<close>

abbreviation ascending :: "'a::linorder list \<Rightarrow> bool" where
  "ascending \<equiv> sorted_wrt (<)"

lemma ascending_distinct: "ascending xs \<Longrightarrow> distinct xs"
  by (induction xs) auto

lemma ascending_sorted: "ascending xs \<Longrightarrow> sorted xs"
  by (induction xs) (auto intro: less_imp_le)

lemma ascending_unique:
  "ascending xs \<Longrightarrow> ascending ys \<Longrightarrow> set xs = set ys \<Longrightarrow> xs = ys"
  by (simp add: ascending_distinct ascending_sorted sorted_distinct_set_unique)

lemma ascending_filter: "ascending xs \<Longrightarrow> ascending (filter P xs)"
  by (induction xs) auto

fun bs_insert :: "'a::linorder \<Rightarrow> 'a list \<Rightarrow> 'a list" where
  "bs_insert x [] = [x]"
| "bs_insert x (y # ys) =
     (if x < y then x # y # ys else if x = y then y # ys else y # bs_insert x ys)"

lemma set_bs_insert [simp, set_simps]: "set (bs_insert x xs) = insert x (set xs)"
  by (induction xs) auto

lemma ascending_bs_insert [simp, ok_intros]: "ascending xs \<Longrightarrow> ascending (bs_insert x xs)"
  by (induction xs) auto

lemma bs_insert_absorb: "ascending xs \<Longrightarrow> x \<in> set xs \<Longrightarrow> bs_insert x xs = xs"
  by (rule ascending_unique) auto

text \<open>\<open>extend\<close> and \<open>collect\<close>.\<close>

definition bs_extend :: "'a::linorder list \<Rightarrow> 'a list \<Rightarrow> 'a list" where
  "bs_extend s xs = fold bs_insert xs s"

definition bs_collect :: "'a::linorder list \<Rightarrow> 'a list" where
  "bs_collect xs = bs_extend [] xs"

lemma set_bs_extend [simp, set_simps]: "set (bs_extend s xs) = set s \<union> set xs"
  unfolding bs_extend_def by (induction xs arbitrary: s) auto

lemma ascending_bs_extend [simp, ok_intros]: "ascending s \<Longrightarrow> ascending (bs_extend s xs)"
  unfolding bs_extend_def by (induction xs arbitrary: s) auto

lemma set_bs_collect [simp, set_simps]: "set (bs_collect xs) = set xs"
  by (simp add: bs_collect_def)

lemma ascending_bs_collect [simp, ok_intros]: "ascending (bs_collect xs)"
  by (simp add: bs_collect_def)

lemma bs_collect_id: "ascending xs \<Longrightarrow> bs_collect xs = xs"
  by (rule ascending_unique) auto

lemma bs_collect_cong: "set xs = set ys \<Longrightarrow> bs_collect xs = bs_collect ys"
  by (rule ascending_unique) auto

text \<open>\<open>sort\<close> then \<open>dedup\<close> on a vector is the same list as collecting into a set.\<close>

definition sort_dedup :: "'a::linorder list \<Rightarrow> 'a list" where
  "sort_dedup xs = remdups_adj (sort xs)"

lemma set_sort_dedup [simp, set_simps]: "set (sort_dedup xs) = set xs"
  by (simp add: sort_dedup_def)

lemma sorted_remdups_adj_ascending: "sorted xs \<Longrightarrow> ascending (remdups_adj xs)"
  by (induction xs rule: remdups_adj.induct) (auto simp: order_le_less)

lemma ascending_sort_dedup [simp, ok_intros]: "ascending (sort_dedup xs)"
  by (simp add: sort_dedup_def sorted_remdups_adj_ascending)

lemma sort_dedup_eq_collect: "sort_dedup xs = bs_collect xs"
  by (rule ascending_unique) auto

subsection \<open>\<open>BTreeMap\<close>: association lists with strictly ascending keys\<close>

type_synonym ('k, 'v) bmap = "('k \<times> 'v) list"

definition bm_ok :: "('k::linorder, 'v) bmap \<Rightarrow> bool" where
  "bm_ok m \<longleftrightarrow> ascending (map fst m)"

abbreviation bm_get :: "('k, 'v) bmap \<Rightarrow> 'k \<Rightarrow> 'v option" where
  "bm_get \<equiv> map_of"

abbreviation bm_keys :: "('k, 'v) bmap \<Rightarrow> 'k list" where
  "bm_keys \<equiv> map fst"

abbreviation bm_values :: "('k, 'v) bmap \<Rightarrow> 'v list" where
  "bm_values \<equiv> map snd"

definition bm_contains :: "('k, 'v) bmap \<Rightarrow> 'k \<Rightarrow> bool" where
  "bm_contains m k \<longleftrightarrow> bm_get m k \<noteq> None"

fun bm_insert :: "'k::linorder \<Rightarrow> 'v \<Rightarrow> ('k, 'v) bmap \<Rightarrow> ('k, 'v) bmap" where
  "bm_insert k v [] = [(k, v)]"
| "bm_insert k v ((k', v') # m) =
     (if k < k' then (k, v) # (k', v') # m
      else if k = k' then (k, v) # m
      else (k', v') # bm_insert k v m)"

lemma bm_ok_simps [simp]:
  "bm_ok []"
  "bm_ok ((k, v) # m) \<longleftrightarrow> (\<forall>k' \<in> set (bm_keys m). k < k') \<and> bm_ok m"
  by (simp_all add: bm_ok_def)

lemma keys_bm_insert [simp, set_simps]:
  "fst ` set (bm_insert k v m) = insert k (fst ` set m)"
  by (induction k v m rule: bm_insert.induct) auto

lemma bm_ok_insert [simp, ok_intros]: "bm_ok m \<Longrightarrow> bm_ok (bm_insert k v m)"
proof (induction k v m rule: bm_insert.induct)
  case (2 k v k' v' m)
  then show ?case
    using keys_bm_insert [of k v m] by (cases k k' rule: linorder_cases) fastforce+
qed simp

lemma bm_get_insert: "bm_ok m \<Longrightarrow> bm_get (bm_insert k v m) k' = (if k' = k then Some v else bm_get m k')"
proof (induction m)
  case (Cons p m)
  obtain a b where p: "p = (a, b)" by (cases p)
  show ?case
  proof (cases "k < a")
    case True
    then show ?thesis by (simp add: p)
  next
    case False
    with Cons show ?thesis by (auto simp: p)
  qed
qed simp

lemma bm_get_insert_any: "bm_get (bm_insert k v m) k' = (if k' = k then Some v else bm_get m k')"
  by (induction k v m rule: bm_insert.induct) auto

lemma bm_get_Some_iff: "bm_ok m \<Longrightarrow> bm_get m k = Some v \<longleftrightarrow> (k, v) \<in> set m"
  by (rule map_of_eq_Some_iff) (simp add: bm_ok_def ascending_distinct)

lemma bm_get_None_iff: "bm_get m k = None \<longleftrightarrow> k \<notin> fst ` set m"
  by (simp add: map_of_eq_None_iff)

lemma bm_contains_iff [set_simps]: "bm_contains m k \<longleftrightarrow> k \<in> fst ` set m"
  by (simp add: bm_contains_def bm_get_None_iff)

lemma bm_ext:
  assumes ok: "bm_ok m" "bm_ok m'" and eq: "\<And>k. bm_get m k = bm_get m' k"
  shows "m = m'"
proof -
  have "fst ` set m = fst ` set m'"
    using eq by (metis (no_types, lifting) bm_get_None_iff subsetI subset_antisym)
  then have keys: "map fst m = map fst m'"
    using ok by (intro ascending_unique) (auto simp: bm_ok_def)
  have "set m = set m'"
    using ok eq by (metis (no_types, lifting) bm_get_Some_iff subrelI subset_antisym)
  then show ?thesis
    using keys ok by (metis bm_ok_def ascending_distinct distinct_map inj_on_map_eq_map sup.idem)
qed

subsection \<open>The interface of an ordered map\<close>

text \<open>
  What the clients of \<open>BTreeMap\<close> rely on: a lookup after an insert, the keys after an insert, and
  that iteration lists every binding once. The client lemma about folding inserts over a list of
  bindings is proved once here.
\<close>

locale ordered_map =
  fixes lookup :: "'m \<Rightarrow> 'k \<Rightarrow> 'v option"
    and update :: "'k \<Rightarrow> 'v \<Rightarrow> 'm \<Rightarrow> 'm"
    and entries :: "'m \<Rightarrow> ('k \<times> 'v) list"
    and ok :: "'m \<Rightarrow> bool"
  assumes lookup_update: "ok m \<Longrightarrow> lookup (update k v m) k' = (if k' = k then Some v else lookup m k')"
    and ok_update: "ok m \<Longrightarrow> ok (update k v m)"
    and entries_lookup: "ok m \<Longrightarrow> (k, v) \<in> set (entries m) \<longleftrightarrow> lookup m k = Some v"
begin

lemma ok_fold_update: "ok m \<Longrightarrow> ok (fold (\<lambda>(k, v). update k v) kvs m)"
  by (induction kvs arbitrary: m) (auto simp: ok_update)

lemma lookup_fold_update:
  "ok m \<Longrightarrow> lookup (fold (\<lambda>(k, v). update k v) kvs m) k =
     (case map_of (rev kvs) k of Some v \<Rightarrow> Some v | None \<Rightarrow> lookup m k)"
  by (induction kvs arbitrary: m)
     (auto simp: ok_update lookup_update map_add_def split: option.splits)

lemma entries_keys: "ok m \<Longrightarrow> k \<in> fst ` set (entries m) \<longleftrightarrow> lookup m k \<noteq> None"
  using entries_lookup [of m k] by force

end

interpretation btree: ordered_map bm_get bm_insert "\<lambda>m. m" bm_ok
  by unfold_locales (simp_all add: bm_get_insert bm_get_Some_iff)

text \<open>\<open>collect\<close> of pairs into a map, and the map whose entries pass a filter.\<close>

definition bm_collect :: "('k::linorder \<times> 'v) list \<Rightarrow> ('k, 'v) bmap" where
  "bm_collect kvs = fold (\<lambda>(k, v). bm_insert k v) kvs []"

lemma bm_ok_collect [simp, ok_intros]: "bm_ok (bm_collect kvs)"
  unfolding bm_collect_def by (rule btree.ok_fold_update) simp

lemma bm_get_collect: "bm_get (bm_collect kvs) k = map_of (rev kvs) k"
  unfolding bm_collect_def by (subst btree.lookup_fold_update) (auto split: option.splits)

lemma bm_ok_filter [simp, ok_intros]: "bm_ok m \<Longrightarrow> bm_ok (filter P m)"
  by (induction m) auto

lemma bm_get_filter:
  "bm_ok m \<Longrightarrow> bm_get (filter P m) k = (case bm_get m k of Some v \<Rightarrow> (if P (k, v) then Some v else None) | None \<Rightarrow> None)"
proof (induction m)
  case (Cons p m)
  then have "k = fst p \<Longrightarrow> bm_get m k = None"
    by (auto simp: bm_ok_def map_of_eq_None_iff)
  with Cons show ?case
    by (cases p) auto
qed simp

subsection \<open>Lists\<close>

lemma nth_filter_upt: "i \<in> set (filter P [0..<n]) \<longleftrightarrow> i < n \<and> P i"
  by auto

lemma ascending_filter_upt: "ascending (filter P [0..<n])"
  by (simp add: ascending_filter)

lemma find_Some_eq: "find P xs = Some x \<Longrightarrow> x \<in> set xs \<and> P x"
  by (auto simp: find_Some_iff)

end
