(* ===== verification/Identifiers.thy ===== *)
theory Identifiers
  imports Smysl_Prelude
begin

section \<open>Identifiers\<close>

text \<open>
  The textual identifiers of \<open>smysl-core/src/ids.rs\<close>: labels, thread, view and contention ids
  (one macro in the source), agent ids, language tags, aliases, kernel types and schema ids. A
  newtype over a validated \<open>String\<close> is that string; its constructor is the function that
  validates.
\<close>

subsection \<open>ASCII classes and splitting\<close>

definition char_code :: "char \<Rightarrow> nat" where
  "char_code c = of_char c"

definition is_lower :: "char \<Rightarrow> bool" where
  "is_lower c \<longleftrightarrow> 97 \<le> char_code c \<and> char_code c \<le> 122"

definition is_upper :: "char \<Rightarrow> bool" where
  "is_upper c \<longleftrightarrow> 65 \<le> char_code c \<and> char_code c \<le> 90"

definition is_digit :: "char \<Rightarrow> bool" where
  "is_digit c \<longleftrightarrow> 48 \<le> char_code c \<and> char_code c \<le> 57"

definition is_alphanumeric :: "char \<Rightarrow> bool" where
  "is_alphanumeric c \<longleftrightarrow> is_lower c \<or> is_upper c \<or> is_digit c"

lemmas char_class_defs = char_code_def is_lower_def is_upper_def is_digit_def is_alphanumeric_def

fun split_once :: "char \<Rightarrow> string \<Rightarrow> (string \<times> string) option" where
  "split_once c [] = None"
| "split_once c (x # xs) =
     (if x = c then Some ([], xs)
      else (case split_once c xs of None \<Rightarrow> None | Some (a, b) \<Rightarrow> Some (x # a, b)))"

lemma split_once_Some:
  "split_once c s = Some (a, b) \<Longrightarrow> s = a @ c # b \<and> c \<notin> set a"
  by (induction s arbitrary: a) (auto split: if_splits option.splits)

lemma split_once_append: "c \<notin> set a \<Longrightarrow> split_once c (a @ c # b) = Some (a, b)"
  by (induction a) auto

lemma split_once_None: "split_once c s = None \<longleftrightarrow> c \<notin> set s"
  by (induction s) (auto split: option.splits)

fun strip_prefix :: "string \<Rightarrow> string \<Rightarrow> string option" where
  "strip_prefix [] s = Some s"
| "strip_prefix (p # ps) [] = None"
| "strip_prefix (p # ps) (x # xs) = (if p = x then strip_prefix ps xs else None)"

lemma strip_prefix_Some_iff: "strip_prefix p s = Some r \<longleftrightarrow> s = p @ r"
  by (induction p s rule: strip_prefix.induct) auto

lemma strip_prefix_append [simp]: "strip_prefix p (p @ r) = Some r"
  by (simp add: strip_prefix_Some_iff)

text \<open>\<open>str::split\<close>: always at least one segment.\<close>

fun split_all :: "(char \<Rightarrow> bool) \<Rightarrow> string \<Rightarrow> string list" where
  "split_all P [] = [[]]"
| "split_all P (x # xs) =
     (if P x then [] # split_all P xs
      else (case split_all P xs of [] \<Rightarrow> [[x]] | seg # segs \<Rightarrow> (x # seg) # segs))"

subsection \<open>Segments, labels, agents, tags\<close>

definition is_ext_segment :: "string \<Rightarrow> bool" where
  "is_ext_segment s =
     (case s of [] \<Rightarrow> False
      | c # cs \<Rightarrow> (is_lower c \<or> is_digit c) \<and>
          list_all (\<lambda>c. is_lower c \<or> is_digit c \<or> c \<in> {CHR ''-'', CHR ''_'', CHR ''.''}) cs)"

definition is_ident :: "string \<Rightarrow> bool" where
  "is_ident s =
     (case s of [] \<Rightarrow> False
      | c # cs \<Rightarrow> is_lower c \<and>
          list_all (\<lambda>c. is_lower c \<or> is_digit c \<or> c = CHR ''-'' \<or> c = CHR ''_'') cs)"

record id_error =
  id_kind :: string
  id_found :: string

definition label_new :: "string \<Rightarrow> string \<Rightarrow> id_error + string" where
  "label_new kind s =
     (case split_once (CHR ''/'') s of
        Some (a, b) \<Rightarrow> if is_ident a \<and> is_ident b then Inr s
                        else Inl \<lparr>id_kind = kind, id_found = s\<rparr>
      | None \<Rightarrow> Inl \<lparr>id_kind = kind, id_found = s\<rparr>)"

definition label_namespace :: "string \<Rightarrow> string" where
  "label_namespace s = (case split_once (CHR ''/'') s of Some (a, _) \<Rightarrow> a | None \<Rightarrow> s)"

definition is_alias :: "string \<Rightarrow> bool" where
  "is_alias s =
     (if s = [] \<or> length s > 128 then False
      else list_all (\<lambda>seg. seg \<noteq> [] \<and>
             list_all (\<lambda>c. is_lower c \<or> is_digit c \<or> c \<in> {CHR ''-'', CHR ''_'', CHR ''.''}) seg)
           (split_all (\<lambda>c. c = CHR ''/'' \<or> c = CHR '':'') s))"

datatype agent_kind = Model | Human | Tool

definition agent_is_valid :: "string \<Rightarrow> bool" where
  "agent_is_valid s =
     (case split_once (CHR '':'') s of
        None \<Rightarrow> False
      | Some (kind, rest) \<Rightarrow>
          if kind \<notin> {''model'', ''human'', ''tool''} then False
          else
            (case (case split_once (CHR ''/'') rest of Some (h, t) \<Rightarrow> (h, Some t) | None \<Rightarrow> (rest, None)) of
               (head, tail) \<Rightarrow>
                 (head \<noteq> [] \<and>
                  list_all (\<lambda>c. is_lower c \<or> is_digit c \<or> c \<in> {CHR ''.'', CHR ''_'', CHR ''-''}) head) \<and>
                 (case tail of None \<Rightarrow> True
                  | Some t \<Rightarrow> t \<noteq> [] \<and>
                      list_all (\<lambda>c. is_lower c \<or> is_digit c \<or>
                        c \<in> {CHR ''.'', CHR ''_'', CHR ''-'', CHR '':'', CHR ''/''}) t)))"

definition agent_new :: "string \<Rightarrow> id_error + string" where
  "agent_new s = (if agent_is_valid s then Inr s else Inl \<lparr>id_kind = ''agent id'', id_found = s\<rparr>)"

definition agent_kind_of :: "string \<Rightarrow> agent_kind" where
  "agent_kind_of s =
     (case map_option fst (split_once (CHR '':'') s) of
        Some k \<Rightarrow> if k = ''human'' then Human else if k = ''tool'' then Tool else Model
      | None \<Rightarrow> Model)"

definition agent_provider :: "string \<Rightarrow> string option" where
  "agent_provider s =
     (case split_once (CHR '':'') s of
        None \<Rightarrow> None
      | Some (_, rest) \<Rightarrow> map_option fst (split_once (CHR ''/'') rest))"

definition lang_tag_new :: "string \<Rightarrow> id_error + string" where
  "lang_tag_new s =
     (if s \<noteq> [] \<and> length s \<le> 35 \<and>
         list_all (\<lambda>seg. seg \<noteq> [] \<and> list_all is_alphanumeric seg) (split_all (\<lambda>c. c = CHR ''-'') s)
      then Inr s else Inl \<lparr>id_kind = ''language tag'', id_found = s\<rparr>)"

lemma is_ext_segment_no_slash: "is_ext_segment s \<Longrightarrow> CHR ''/'' \<notin> set s"
  by (cases s) (auto simp: is_ext_segment_def list_all_iff char_class_defs)

lemma is_ident_no_slash: "is_ident s \<Longrightarrow> CHR ''/'' \<notin> set s"
  by (cases s) (auto simp: is_ident_def list_all_iff char_class_defs)

lemma label_new_Inr: "label_new k s = Inr t \<Longrightarrow>
    t = s \<and> (\<exists>a b. s = a @ CHR ''/'' # b \<and> is_ident a \<and> is_ident b)"
  by (fastforce simp: label_new_def split: option.splits if_splits dest: split_once_Some)

text \<open>A label has exactly one namespace: the text splits at its only slash.\<close>

lemma label_new_split:
  "is_ident a \<Longrightarrow> is_ident b \<Longrightarrow>
     label_new k (a @ CHR ''/'' # b) = Inr (a @ CHR ''/'' # b) \<and> label_namespace (a @ CHR ''/'' # b) = a"
  by (simp add: label_new_def label_namespace_def split_once_append is_ident_no_slash)

lemma agent_new_kind:
  assumes "agent_new s = Inr a"
  shows "\<exists>rest. a = (case agent_kind_of a of Model \<Rightarrow> ''model'' | Human \<Rightarrow> ''human'' | Tool \<Rightarrow> ''tool'') @ CHR '':'' # rest"
proof -
  from assms have "agent_is_valid a" and "a = s"
    by (auto simp: agent_new_def split: if_splits)
  then obtain k r where sp: "split_once (CHR '':'') a = Some (k, r)"
      and k: "k \<in> {''model'', ''human'', ''tool''}"
    by (auto simp: agent_is_valid_def split: option.splits if_splits)
  with split_once_Some [OF sp] show ?thesis
    by (auto simp: agent_kind_of_def)
qed

subsection \<open>Kernel types and schema ids\<close>

datatype kernel_type =
    KtClaim | KtEvidence | KtDefinition | KtQuestion | KtHypothesis | KtFinding | KtProcedure
  | KtDecision | KtConstraint | KtObservation | KtData | KtArtifactRef | KtProse | KtContention
  | KtPackInfo

definition kernel_type_all :: "kernel_type list" where
  "kernel_type_all = [KtClaim, KtEvidence, KtDefinition, KtQuestion, KtHypothesis, KtFinding,
     KtProcedure, KtDecision, KtConstraint, KtObservation, KtData, KtArtifactRef, KtProse,
     KtContention, KtPackInfo]"

fun kernel_type_as_str :: "kernel_type \<Rightarrow> string" where
  "kernel_type_as_str KtClaim = ''claim''"
| "kernel_type_as_str KtEvidence = ''evidence''"
| "kernel_type_as_str KtDefinition = ''definition''"
| "kernel_type_as_str KtQuestion = ''question''"
| "kernel_type_as_str KtHypothesis = ''hypothesis''"
| "kernel_type_as_str KtFinding = ''finding''"
| "kernel_type_as_str KtProcedure = ''procedure''"
| "kernel_type_as_str KtDecision = ''decision''"
| "kernel_type_as_str KtConstraint = ''constraint''"
| "kernel_type_as_str KtObservation = ''observation''"
| "kernel_type_as_str KtData = ''data''"
| "kernel_type_as_str KtArtifactRef = ''artifact-ref''"
| "kernel_type_as_str KtProse = ''prose''"
| "kernel_type_as_str KtContention = ''contention''"
| "kernel_type_as_str KtPackInfo = ''packinfo''"

definition kernel_type_parse :: "string \<Rightarrow> kernel_type option" where
  "kernel_type_parse s = find (\<lambda>k. kernel_type_as_str k = s) kernel_type_all"

datatype schema_id =
    SchKernel kernel_type
  | SchKernelSchema string
  | SchExtension string
  | SchUnknownKernel string

definition schema_err :: "string \<Rightarrow> id_error" where
  "schema_err s = \<lparr>id_kind = ''schema id'', id_found = s\<rparr>"

definition schema_id_parse :: "string \<Rightarrow> id_error + schema_id" where
  "schema_id_parse s =
     (case kernel_type_parse s of Some k \<Rightarrow> Inr (SchKernel k)
      | None \<Rightarrow>
        (case strip_prefix ''smysl.kernel/'' s of
           Some v \<Rightarrow> if is_ext_segment v then Inr (SchKernelSchema s) else Inl (schema_err s)
         | None \<Rightarrow>
             and_then (ok_or (strip_prefix ''x.'' s) (schema_err s)) (\<lambda>rest.
             and_then (ok_or (split_once (CHR ''/'') rest) (schema_err s)) (\<lambda>(domain, ty).
               if is_ident domain \<and> is_ext_segment ty then Inr (SchExtension s)
               else Inl (schema_err s)))))"

definition schema_id_parse_forward :: "string \<Rightarrow> id_error + schema_id" where
  "schema_id_parse_forward s =
     (case schema_id_parse s of
        Inr i \<Rightarrow> Inr i
      | Inl e \<Rightarrow>
          if \<not> (strip_prefix ''x.'' s \<noteq> None \<or> strip_prefix ''smysl.kernel/'' s \<noteq> None \<or>
                 CHR ''/'' \<in> set s) \<and> is_ext_segment s
          then Inr (SchUnknownKernel s) else Inl e)"

fun schema_id_as_str :: "schema_id \<Rightarrow> string" where
  "schema_id_as_str (SchKernel k) = kernel_type_as_str k"
| "schema_id_as_str (SchKernelSchema s) = s"
| "schema_id_as_str (SchExtension s) = s"
| "schema_id_as_str (SchUnknownKernel s) = s"

fun schema_id_is_kernel :: "schema_id \<Rightarrow> bool" where
  "schema_id_is_kernel (SchKernel k) = True"
| "schema_id_is_kernel _ = False"

lemma kernel_type_parse_as_str [simp]: "kernel_type_parse (kernel_type_as_str k) = Some k"
  by (cases k) (simp_all add: kernel_type_parse_def kernel_type_all_def)

lemma kernel_type_parse_Some: "kernel_type_parse s = Some k \<Longrightarrow> kernel_type_as_str k = s"
  by (auto simp: kernel_type_parse_def dest: find_Some_eq)

lemma schema_id_parse_text: "schema_id_parse s = Inr i \<Longrightarrow> schema_id_as_str i = s"
  by (auto simp: schema_id_parse_def and_then_Inr_iff kernel_type_parse_Some
      split: option.splits if_splits)

lemma schema_id_parse_forward_text: "schema_id_parse_forward s = Inr i \<Longrightarrow> schema_id_as_str i = s"
  by (auto simp: schema_id_parse_forward_def schema_id_parse_text split: sum.splits if_splits)

text \<open>
  Forward reading keeps every name a strict parser knows and only adds bare names, so a name some
  later minor version gives a namespace is never taken for a kernel type.
\<close>

lemma schema_id_parse_forward_new:
  assumes "schema_id_parse_forward s = Inr i"
  shows "schema_id_parse s = Inr i \<or>
         i = SchUnknownKernel s \<and> CHR ''/'' \<notin> set s \<and> kernel_type_parse s = None"
  using assms
  by (auto simp: schema_id_parse_forward_def schema_id_parse_def split: sum.splits option.splits if_splits)

subsection \<open>Properties\<close>

text \<open>
  Reading a schema id forward keeps what the strict parser says of every name it knows, writes
  back the text it read, and adds only bare names that no kernel type has: a name with a slash,
  an \<open>x.\<close> or a kernel-schema prefix is never taken for an unknown kernel type.
\<close>

theorem schema_forward_reading:
  assumes "schema_id_parse_forward s = Inr i"
  shows "schema_id_as_str i = s \<and>
    (schema_id_parse s = Inr i \<or>
     i = SchUnknownKernel s \<and> CHR ''/'' \<notin> set s \<and> kernel_type_parse s = None)"
  using schema_id_parse_forward_text [OF assms] schema_id_parse_forward_new [OF assms] by blast

theorem schema_forward_reading_witness:
  "schema_id_as_str (SchUnknownKernel ''theorem'') = ''theorem'' \<and>
    (schema_id_parse ''theorem'' = Inr (SchUnknownKernel ''theorem'') \<or>
     SchUnknownKernel ''theorem'' = SchUnknownKernel ''theorem'' \<and> CHR ''/'' \<notin> set ''theorem'' \<and>
     kernel_type_parse ''theorem'' = None)"
  by (rule schema_forward_reading) code_simp

end
