(* ===== verification/Text_Numbers.thy ===== *)
theory Text_Numbers
  imports Identifiers
begin

section \<open>Decimal numbers as Rust prints and parses them\<close>

text \<open>
  Rust's \<open>Display\<close> of unsigned integers, zero padding (\<open>{:04}\<close>) and \<open>str::parse\<close> to an unsigned
  type, which accepts a leading \<open>+\<close>. The bound is the number of values of the type.
\<close>

definition digit_char :: "nat \<Rightarrow> char" where
  "digit_char d = char_of (48 + d)"

fun show_nat :: "nat \<Rightarrow> string" where
  "show_nat n = (if n < 10 then [digit_char n] else show_nat (n div 10) @ [digit_char (n mod 10)])"

declare show_nat.simps [simp del]

definition zero_pad :: "nat \<Rightarrow> string \<Rightarrow> string" where
  "zero_pad w s = replicate (w - length s) (CHR ''0'') @ s"

fun read_digits :: "nat \<Rightarrow> string \<Rightarrow> nat option" where
  "read_digits acc [] = Some acc"
| "read_digits acc (c # cs) =
     (if is_digit c then read_digits (acc * 10 + (char_code c - 48)) cs else None)"

definition parse_uint :: "nat \<Rightarrow> string \<Rightarrow> nat option" where
  "parse_uint bound s =
     (let ds = (case s of c # cs \<Rightarrow> if c = CHR ''+'' then cs else s | [] \<Rightarrow> [])
      in if ds = [] then None
         else (case read_digits 0 ds of None \<Rightarrow> None | Some n \<Rightarrow> if n < bound then Some n else None))"

lemma digit_char_code: "d < 10 \<Longrightarrow> char_code (digit_char d) = 48 + d"
  by (simp add: char_code_def digit_char_def)

lemma digit_char_is_digit: "d < 10 \<Longrightarrow> is_digit (digit_char d)"
  by (simp add: is_digit_def digit_char_code)

lemma char_code_inj: "char_code c = char_code c' \<Longrightarrow> c = c'"
  by (simp add: char_code_def)

lemma digit_char_of_code: "is_digit c \<Longrightarrow> digit_char (char_code c - 48) = c"
  by (rule char_code_inj) (auto simp: digit_char_code is_digit_def)

lemma show_nat_nonempty [simp]: "show_nat n \<noteq> []"
  by (subst show_nat.simps) simp

lemma show_nat_digits: "list_all is_digit (show_nat n)"
proof (induction n rule: show_nat.induct)
  case (1 n)
  then show ?case
    by (subst show_nat.simps) (auto simp: digit_char_is_digit)
qed

lemma read_digits_append:
  "read_digits acc (xs @ ys) = (case read_digits acc xs of None \<Rightarrow> None | Some a \<Rightarrow> read_digits a ys)"
  by (induction acc xs rule: read_digits.induct) auto

lemma read_digits_show_nat: "read_digits 0 (show_nat n) = Some n"
proof (induction n rule: show_nat.induct)
  case (1 n)
  then show ?case
    by (subst show_nat.simps) (simp add: read_digits_append digit_char_is_digit digit_char_code)
qed

lemma read_digits_zeros: "read_digits 0 (replicate k (CHR ''0'') @ xs) = read_digits 0 xs"
  by (induction k) (simp_all add: is_digit_def char_code_def)

lemma hd_show_nat_not_plus: "show_nat n = c # cs \<Longrightarrow> c \<noteq> CHR ''+''"
  using show_nat_digits [of n] by (auto simp: is_digit_def char_code_def)

lemma parse_uint_padded: "n < bound \<Longrightarrow> parse_uint bound (zero_pad w (show_nat n)) = Some n"
proof -
  let ?s = "zero_pad w (show_nat n)"
  assume n: "n < bound"
  have read: "read_digits 0 ?s = Some n"
    by (simp add: zero_pad_def read_digits_zeros read_digits_show_nat)
  obtain c cs where s: "?s = c # cs"
    by (cases ?s) (auto simp: zero_pad_def)
  have "c \<noteq> CHR ''+''"
    using read by (auto simp: s is_digit_def char_code_def split: if_splits)
  with n read show ?thesis by (simp add: parse_uint_def s del: read_digits.simps)
qed

lemma length_show_nat_le: "0 < k \<Longrightarrow> n < 10 ^ k \<Longrightarrow> length (show_nat n) \<le> k"
proof (induction n arbitrary: k rule: show_nat.induct)
  case (1 n)
  show ?case
  proof (cases "n < 10")
    case True
    with "1.prems" show ?thesis by (subst show_nat.simps) simp
  next
    case False
    with "1.prems" obtain j where j: "k = Suc j" "0 < j"
      by (cases k; cases "k - 1") auto
    with "1.prems" have "n div 10 < 10 ^ j"
      by (simp add: less_mult_imp_div_less mult.commute)
    with "1.IH" False j have "length (show_nat (n div 10)) \<le> j" by blast
    with False j show ?thesis by (subst show_nat.simps) simp
  qed
qed

lemma length_zero_pad: "0 < w \<Longrightarrow> n < 10 ^ w \<Longrightarrow> length (zero_pad w (show_nat n)) = w"
  using length_show_nat_le [of w n] by (simp add: zero_pad_def)

lemma read_digits_bound: "read_digits acc ds = Some n \<Longrightarrow> n < (acc + 1) * 10 ^ length ds"
proof (induction acc ds arbitrary: n rule: read_digits.induct)
  case (2 acc c cs)
  then have d: "char_code c - 48 \<le> 9"
    and n: "n < (acc * 10 + (char_code c - 48) + 1) * 10 ^ length cs"
    by (auto simp: is_digit_def split: if_splits)
  have "acc * 10 + (char_code c - 48) + 1 \<le> (acc + 1) * 10"
    using d by simp
  then have "(acc * 10 + (char_code c - 48) + 1) * 10 ^ length cs \<le> ((acc + 1) * 10) * 10 ^ length cs"
    by (rule mult_le_mono1)
  with n show ?case by (simp add: algebra_simps)
qed simp

end
