(* ===== verification/Vocabulary.thy ===== *)
theory Vocabulary
  imports Identifiers
begin

section \<open>The kernel vocabulary\<close>

text \<open>
  The closed enumerations of \<open>smysl-core/src/types\<close> with their wire codes (\<open>as_u8\<close>, \<open>from_u8\<close>) and
  spellings (\<open>as_str\<close>, \<open>parse\<close>): status, level of detail, source kind, operation, rung,
  commitment, detection kind, contention status, drop reason, pack mode; the relation kinds with
  their extension form; and the hybrid logical clock. The two interfaces the codecs and the parser
  rely on, a wire code and a spelling, are locales, interpreted for every enumeration.
\<close>

subsection \<open>Wire codes and spellings\<close>

locale wire_code =
  fixes all :: "'e list"
    and as_u8 :: "'e \<Rightarrow> u8"
    and from_u8 :: "u8 \<Rightarrow> 'e option"
  assumes from_as: "from_u8 (as_u8 x) = Some x"
    and as_from: "from_u8 c = Some x \<Longrightarrow> as_u8 x = c"
begin

lemma as_u8_inj: "as_u8 x = as_u8 y \<Longrightarrow> x = y"
  using from_as by (metis option.inject)

lemma from_u8_iff: "from_u8 c = Some x \<longleftrightarrow> as_u8 x = c"
  using as_from from_as by blast

lemma from_u8_None: "from_u8 c = None \<longleftrightarrow> c \<notin> range as_u8"
  using from_u8_iff by (metis imageE not_None_eq option.distinct(1) rangeI)

end

locale spelling =
  fixes all :: "'e list"
    and as_str :: "'e \<Rightarrow> string"
    and parse :: "string \<Rightarrow> 'e option"
  assumes parse_is_find: "parse s = find (\<lambda>x. as_str x = s) all"
    and spelled_apart: "distinct (map as_str all)"
begin

lemma parse_Some: "parse s = Some x \<Longrightarrow> as_str x = s \<and> x \<in> set all"
  by (auto simp: parse_is_find dest: find_Some_eq)

lemma parse_as_str: "x \<in> set all \<Longrightarrow> parse (as_str x) = Some x"
proof -
  assume x: "x \<in> set all"
  then obtain y where y: "parse (as_str x) = Some y"
    by (cases "parse (as_str x)") (auto simp: parse_is_find find_None_iff)
  with x spelled_apart show ?thesis
    using parse_Some [OF y] by (auto simp: distinct_map dest: inj_onD)
qed

end

subsection \<open>\<open>Status\<close>\<close>

datatype status = StUnfounded | StSpeculative | StInferred | StDerived | StCited | StMeasured

definition status_all :: "status list" where
  "status_all = [StUnfounded, StSpeculative, StInferred, StDerived, StCited, StMeasured]"

fun status_as_u8 :: "status \<Rightarrow> u8" where
  "status_as_u8 StUnfounded = 0"
| "status_as_u8 StSpeculative = 1"
| "status_as_u8 StInferred = 2"
| "status_as_u8 StDerived = 3"
| "status_as_u8 StCited = 4"
| "status_as_u8 StMeasured = 5"

definition status_from_u8 :: "u8 \<Rightarrow> status option" where
  "status_from_u8 v =
     (if v = 0 then Some StUnfounded
      else if v = 1 then Some StSpeculative
      else if v = 2 then Some StInferred
      else if v = 3 then Some StDerived
      else if v = 4 then Some StCited
      else if v = 5 then Some StMeasured
      else None)"

fun status_as_str :: "status \<Rightarrow> string" where
  "status_as_str StUnfounded = ''unfounded''"
| "status_as_str StSpeculative = ''speculative''"
| "status_as_str StInferred = ''inferred''"
| "status_as_str StDerived = ''derived''"
| "status_as_str StCited = ''cited''"
| "status_as_str StMeasured = ''measured''"

definition status_parse :: "string \<Rightarrow> status option" where
  "status_parse s = find (\<lambda>x. status_as_str x = s) status_all"

lemma status_from_as: "status_from_u8 (status_as_u8 x) = Some x"
  by (cases x) (simp_all add: status_from_u8_def)

interpretation status_code: wire_code status_all status_as_u8 status_from_u8
  by (unfold_locales, rule status_from_as) (auto simp: status_from_u8_def split: if_splits)

interpretation status_name: spelling status_all status_as_str status_parse
  by unfold_locales (simp_all add: status_parse_def status_all_def)

text \<open>The derived order is the order of the discriminants.\<close>

instantiation status :: linorder
begin

definition less_eq_status :: "status \<Rightarrow> status \<Rightarrow> bool" where
  "less_eq_status a b \<longleftrightarrow> status_as_u8 a \<le> status_as_u8 b"

definition less_status :: "status \<Rightarrow> status \<Rightarrow> bool" where
  "less_status a b \<longleftrightarrow> status_as_u8 a < status_as_u8 b"

instance
  by standard (auto simp: less_eq_status_def less_status_def dest: status_code.as_u8_inj)

end

subsection \<open>\<open>Lod\<close>\<close>

datatype lod = L0 | L1 | L2

definition lod_all :: "lod list" where
  "lod_all = [L0, L1, L2]"

fun lod_as_u8 :: "lod \<Rightarrow> u8" where
  "lod_as_u8 L0 = 0"
| "lod_as_u8 L1 = 1"
| "lod_as_u8 L2 = 2"

definition lod_from_u8 :: "u8 \<Rightarrow> lod option" where
  "lod_from_u8 v =
     (if v = 0 then Some L0
      else if v = 1 then Some L1
      else if v = 2 then Some L2
      else None)"

fun lod_as_str :: "lod \<Rightarrow> string" where
  "lod_as_str L0 = ''L0''"
| "lod_as_str L1 = ''L1''"
| "lod_as_str L2 = ''L2''"

definition lod_parse :: "string \<Rightarrow> lod option" where
  "lod_parse s = find (\<lambda>x. lod_as_str x = s) lod_all"

lemma lod_from_as: "lod_from_u8 (lod_as_u8 x) = Some x"
  by (cases x) (simp_all add: lod_from_u8_def)

interpretation lod_code: wire_code lod_all lod_as_u8 lod_from_u8
  by (unfold_locales, rule lod_from_as) (auto simp: lod_from_u8_def split: if_splits)

interpretation lod_name: spelling lod_all lod_as_str lod_parse
  by unfold_locales (simp_all add: lod_parse_def lod_all_def)

text \<open>The derived order is the order of the discriminants.\<close>

instantiation lod :: linorder
begin

definition less_eq_lod :: "lod \<Rightarrow> lod \<Rightarrow> bool" where
  "less_eq_lod a b \<longleftrightarrow> lod_as_u8 a \<le> lod_as_u8 b"

definition less_lod :: "lod \<Rightarrow> lod \<Rightarrow> bool" where
  "less_lod a b \<longleftrightarrow> lod_as_u8 a < lod_as_u8 b"

instance
  by standard (auto simp: less_eq_lod_def less_lod_def dest: lod_code.as_u8_inj)

end

subsection \<open>\<open>SourceKind\<close>\<close>

datatype source_kind = SkUrl | SkFile | SkMetric | SkTool | SkDoc | SkNode | SkUnknown

definition source_kind_all :: "source_kind list" where
  "source_kind_all = [SkUrl, SkFile, SkMetric, SkTool, SkDoc, SkNode]"

fun source_kind_as_u8 :: "source_kind \<Rightarrow> u8" where
  "source_kind_as_u8 SkUrl = 0"
| "source_kind_as_u8 SkFile = 1"
| "source_kind_as_u8 SkMetric = 2"
| "source_kind_as_u8 SkTool = 3"
| "source_kind_as_u8 SkDoc = 4"
| "source_kind_as_u8 SkNode = 5"
| "source_kind_as_u8 SkUnknown = 255"

definition source_kind_from_u8 :: "u8 \<Rightarrow> source_kind option" where
  "source_kind_from_u8 v =
     (if v = 0 then Some SkUrl
      else if v = 1 then Some SkFile
      else if v = 2 then Some SkMetric
      else if v = 3 then Some SkTool
      else if v = 4 then Some SkDoc
      else if v = 5 then Some SkNode
      else if v = 255 then Some SkUnknown
      else None)"

fun source_kind_as_str :: "source_kind \<Rightarrow> string" where
  "source_kind_as_str SkUrl = ''url''"
| "source_kind_as_str SkFile = ''file''"
| "source_kind_as_str SkMetric = ''metric''"
| "source_kind_as_str SkTool = ''tool''"
| "source_kind_as_str SkDoc = ''doc''"
| "source_kind_as_str SkNode = ''node''"
| "source_kind_as_str SkUnknown = ''unknown''"

definition source_kind_parse :: "string \<Rightarrow> source_kind option" where
  "source_kind_parse s = find (\<lambda>x. source_kind_as_str x = s) source_kind_all"

lemma source_kind_from_as: "source_kind_from_u8 (source_kind_as_u8 x) = Some x"
  by (cases x) (simp_all add: source_kind_from_u8_def)

interpretation source_kind_code: wire_code source_kind_all source_kind_as_u8 source_kind_from_u8
  by (unfold_locales, rule source_kind_from_as) (auto simp: source_kind_from_u8_def split: if_splits)

interpretation source_kind_name: spelling source_kind_all source_kind_as_str source_kind_parse
  by unfold_locales (simp_all add: source_kind_parse_def source_kind_all_def)

subsection \<open>\<open>Op\<close>\<close>

datatype op_kind = OpAuthored | OpTransformed | OpImported | OpAttested

definition op_kind_all :: "op_kind list" where
  "op_kind_all = [OpAuthored, OpTransformed, OpImported, OpAttested]"

fun op_kind_as_u8 :: "op_kind \<Rightarrow> u8" where
  "op_kind_as_u8 OpAuthored = 0"
| "op_kind_as_u8 OpTransformed = 1"
| "op_kind_as_u8 OpImported = 2"
| "op_kind_as_u8 OpAttested = 3"

definition op_kind_from_u8 :: "u8 \<Rightarrow> op_kind option" where
  "op_kind_from_u8 v =
     (if v = 0 then Some OpAuthored
      else if v = 1 then Some OpTransformed
      else if v = 2 then Some OpImported
      else if v = 3 then Some OpAttested
      else None)"

fun op_kind_as_str :: "op_kind \<Rightarrow> string" where
  "op_kind_as_str OpAuthored = ''authored''"
| "op_kind_as_str OpTransformed = ''transformed''"
| "op_kind_as_str OpImported = ''imported''"
| "op_kind_as_str OpAttested = ''attested''"

definition op_kind_parse :: "string \<Rightarrow> op_kind option" where
  "op_kind_parse s = find (\<lambda>x. op_kind_as_str x = s) op_kind_all"

lemma op_kind_from_as: "op_kind_from_u8 (op_kind_as_u8 x) = Some x"
  by (cases x) (simp_all add: op_kind_from_u8_def)

interpretation op_kind_code: wire_code op_kind_all op_kind_as_u8 op_kind_from_u8
  by (unfold_locales, rule op_kind_from_as) (auto simp: op_kind_from_u8_def split: if_splits)

interpretation op_kind_name: spelling op_kind_all op_kind_as_str op_kind_parse
  by unfold_locales (simp_all add: op_kind_parse_def op_kind_all_def)

subsection \<open>\<open>Rung\<close>\<close>

datatype rung = RungComputed | RungDocument | RungWeb | RungModel

definition rung_all :: "rung list" where
  "rung_all = [RungComputed, RungDocument, RungWeb, RungModel]"

fun rung_as_u8 :: "rung \<Rightarrow> u8" where
  "rung_as_u8 RungComputed = 0"
| "rung_as_u8 RungDocument = 1"
| "rung_as_u8 RungWeb = 2"
| "rung_as_u8 RungModel = 3"

definition rung_from_u8 :: "u8 \<Rightarrow> rung option" where
  "rung_from_u8 v =
     (if v = 0 then Some RungComputed
      else if v = 1 then Some RungDocument
      else if v = 2 then Some RungWeb
      else if v = 3 then Some RungModel
      else None)"

fun rung_as_str :: "rung \<Rightarrow> string" where
  "rung_as_str RungComputed = ''computed''"
| "rung_as_str RungDocument = ''document''"
| "rung_as_str RungWeb = ''web''"
| "rung_as_str RungModel = ''model''"

definition rung_parse :: "string \<Rightarrow> rung option" where
  "rung_parse s = find (\<lambda>x. rung_as_str x = s) rung_all"

lemma rung_from_as: "rung_from_u8 (rung_as_u8 x) = Some x"
  by (cases x) (simp_all add: rung_from_u8_def)

interpretation rung_code: wire_code rung_all rung_as_u8 rung_from_u8
  by (unfold_locales, rule rung_from_as) (auto simp: rung_from_u8_def split: if_splits)

interpretation rung_name: spelling rung_all rung_as_str rung_parse
  by unfold_locales (simp_all add: rung_parse_def rung_all_def)

subsection \<open>\<open>Commitment\<close>\<close>

datatype commitment = Floated | Drafted | Committed | Canonical | Retconned

definition commitment_all :: "commitment list" where
  "commitment_all = [Floated, Drafted, Committed, Canonical, Retconned]"

fun commitment_as_u8 :: "commitment \<Rightarrow> u8" where
  "commitment_as_u8 Floated = 0"
| "commitment_as_u8 Drafted = 1"
| "commitment_as_u8 Committed = 2"
| "commitment_as_u8 Canonical = 3"
| "commitment_as_u8 Retconned = 4"

definition commitment_from_u8 :: "u8 \<Rightarrow> commitment option" where
  "commitment_from_u8 v =
     (if v = 0 then Some Floated
      else if v = 1 then Some Drafted
      else if v = 2 then Some Committed
      else if v = 3 then Some Canonical
      else if v = 4 then Some Retconned
      else None)"

fun commitment_as_str :: "commitment \<Rightarrow> string" where
  "commitment_as_str Floated = ''floated''"
| "commitment_as_str Drafted = ''drafted''"
| "commitment_as_str Committed = ''committed''"
| "commitment_as_str Canonical = ''canonical''"
| "commitment_as_str Retconned = ''retconned''"

definition commitment_parse :: "string \<Rightarrow> commitment option" where
  "commitment_parse s = find (\<lambda>x. commitment_as_str x = s) commitment_all"

lemma commitment_from_as: "commitment_from_u8 (commitment_as_u8 x) = Some x"
  by (cases x) (simp_all add: commitment_from_u8_def)

interpretation commitment_code: wire_code commitment_all commitment_as_u8 commitment_from_u8
  by (unfold_locales, rule commitment_from_as) (auto simp: commitment_from_u8_def split: if_splits)

interpretation commitment_name: spelling commitment_all commitment_as_str commitment_parse
  by unfold_locales (simp_all add: commitment_parse_def commitment_all_def)

text \<open>The derived order is the order of the discriminants.\<close>

instantiation commitment :: linorder
begin

definition less_eq_commitment :: "commitment \<Rightarrow> commitment \<Rightarrow> bool" where
  "less_eq_commitment a b \<longleftrightarrow> commitment_as_u8 a \<le> commitment_as_u8 b"

definition less_commitment :: "commitment \<Rightarrow> commitment \<Rightarrow> bool" where
  "less_commitment a b \<longleftrightarrow> commitment_as_u8 a < commitment_as_u8 b"

instance
  by standard (auto simp: less_eq_commitment_def less_commitment_def dest: commitment_code.as_u8_inj)

end

subsection \<open>\<open>DetectionKind\<close>\<close>

datatype detection_kind = DkSupersessionFork | DkLiveRebuttal | DkLabelCollision | DkCommitmentFork | DkDatingNotApplied | DkTemporalInconsistency | DkUnknown

definition detection_kind_all :: "detection_kind list" where
  "detection_kind_all = [DkSupersessionFork, DkLiveRebuttal, DkLabelCollision, DkCommitmentFork, DkDatingNotApplied, DkTemporalInconsistency]"

fun detection_kind_as_u8 :: "detection_kind \<Rightarrow> u8" where
  "detection_kind_as_u8 DkSupersessionFork = 0"
| "detection_kind_as_u8 DkLiveRebuttal = 1"
| "detection_kind_as_u8 DkLabelCollision = 2"
| "detection_kind_as_u8 DkCommitmentFork = 3"
| "detection_kind_as_u8 DkDatingNotApplied = 4"
| "detection_kind_as_u8 DkTemporalInconsistency = 5"
| "detection_kind_as_u8 DkUnknown = 255"

definition detection_kind_from_u8 :: "u8 \<Rightarrow> detection_kind option" where
  "detection_kind_from_u8 v =
     (if v = 0 then Some DkSupersessionFork
      else if v = 1 then Some DkLiveRebuttal
      else if v = 2 then Some DkLabelCollision
      else if v = 3 then Some DkCommitmentFork
      else if v = 4 then Some DkDatingNotApplied
      else if v = 5 then Some DkTemporalInconsistency
      else if v = 255 then Some DkUnknown
      else None)"

fun detection_kind_as_str :: "detection_kind \<Rightarrow> string" where
  "detection_kind_as_str DkSupersessionFork = ''supersession-fork''"
| "detection_kind_as_str DkLiveRebuttal = ''live-rebuttal''"
| "detection_kind_as_str DkLabelCollision = ''label-collision''"
| "detection_kind_as_str DkCommitmentFork = ''commitment-fork''"
| "detection_kind_as_str DkDatingNotApplied = ''dating-not-applied''"
| "detection_kind_as_str DkTemporalInconsistency = ''temporal-inconsistency''"
| "detection_kind_as_str DkUnknown = ''unknown''"

lemma detection_kind_from_as: "detection_kind_from_u8 (detection_kind_as_u8 x) = Some x"
  by (cases x) (simp_all add: detection_kind_from_u8_def)

interpretation detection_kind_code: wire_code detection_kind_all detection_kind_as_u8 detection_kind_from_u8
  by (unfold_locales, rule detection_kind_from_as) (auto simp: detection_kind_from_u8_def split: if_splits)

subsection \<open>\<open>ContentionStatus\<close>\<close>

datatype contention_status = CsOpen | CsResolved | CsStale

definition contention_status_all :: "contention_status list" where
  "contention_status_all = [CsOpen, CsResolved, CsStale]"

fun contention_status_as_u8 :: "contention_status \<Rightarrow> u8" where
  "contention_status_as_u8 CsOpen = 0"
| "contention_status_as_u8 CsResolved = 1"
| "contention_status_as_u8 CsStale = 2"

definition contention_status_from_u8 :: "u8 \<Rightarrow> contention_status option" where
  "contention_status_from_u8 v =
     (if v = 0 then Some CsOpen
      else if v = 1 then Some CsResolved
      else if v = 2 then Some CsStale
      else None)"

fun contention_status_as_str :: "contention_status \<Rightarrow> string" where
  "contention_status_as_str CsOpen = ''open''"
| "contention_status_as_str CsResolved = ''resolved''"
| "contention_status_as_str CsStale = ''stale''"

lemma contention_status_from_as: "contention_status_from_u8 (contention_status_as_u8 x) = Some x"
  by (cases x) (simp_all add: contention_status_from_u8_def)

interpretation contention_status_code: wire_code contention_status_all contention_status_as_u8 contention_status_from_u8
  by (unfold_locales, rule contention_status_from_as) (auto simp: contention_status_from_u8_def split: if_splits)

subsection \<open>\<open>DropReason\<close>\<close>

datatype drop_reason = DrBudget | DrClosureCost | DrLowValue | DrOutOfScope

definition drop_reason_all :: "drop_reason list" where
  "drop_reason_all = [DrBudget, DrClosureCost, DrLowValue, DrOutOfScope]"

fun drop_reason_as_u8 :: "drop_reason \<Rightarrow> u8" where
  "drop_reason_as_u8 DrBudget = 0"
| "drop_reason_as_u8 DrClosureCost = 1"
| "drop_reason_as_u8 DrLowValue = 2"
| "drop_reason_as_u8 DrOutOfScope = 3"

definition drop_reason_from_u8 :: "u8 \<Rightarrow> drop_reason option" where
  "drop_reason_from_u8 v =
     (if v = 0 then Some DrBudget
      else if v = 1 then Some DrClosureCost
      else if v = 2 then Some DrLowValue
      else if v = 3 then Some DrOutOfScope
      else None)"

fun drop_reason_as_str :: "drop_reason \<Rightarrow> string" where
  "drop_reason_as_str DrBudget = ''budget''"
| "drop_reason_as_str DrClosureCost = ''closure-cost''"
| "drop_reason_as_str DrLowValue = ''low-value''"
| "drop_reason_as_str DrOutOfScope = ''out-of-scope''"

lemma drop_reason_from_as: "drop_reason_from_u8 (drop_reason_as_u8 x) = Some x"
  by (cases x) (simp_all add: drop_reason_from_u8_def)

interpretation drop_reason_code: wire_code drop_reason_all drop_reason_as_u8 drop_reason_from_u8
  by (unfold_locales, rule drop_reason_from_as) (auto simp: drop_reason_from_u8_def split: if_splits)

subsection \<open>\<open>PackMode\<close>\<close>

datatype pack_mode = PmGreedy | PmExact

definition pack_mode_all :: "pack_mode list" where
  "pack_mode_all = [PmGreedy, PmExact]"

fun pack_mode_as_u8 :: "pack_mode \<Rightarrow> u8" where
  "pack_mode_as_u8 PmGreedy = 0"
| "pack_mode_as_u8 PmExact = 1"

definition pack_mode_from_u8 :: "u8 \<Rightarrow> pack_mode option" where
  "pack_mode_from_u8 v =
     (if v = 0 then Some PmGreedy
      else if v = 1 then Some PmExact
      else None)"

fun pack_mode_as_str :: "pack_mode \<Rightarrow> string" where
  "pack_mode_as_str PmGreedy = ''greedy''"
| "pack_mode_as_str PmExact = ''exact''"

lemma pack_mode_from_as: "pack_mode_from_u8 (pack_mode_as_u8 x) = Some x"
  by (cases x) (simp_all add: pack_mode_from_u8_def)

interpretation pack_mode_code: wire_code pack_mode_all pack_mode_as_u8 pack_mode_from_u8
  by (unfold_locales, rule pack_mode_from_as) (auto simp: pack_mode_from_u8_def split: if_splits)

subsection \<open>What the vocabulary decides\<close>

text \<open>\<open>Status\<close>: what a status obliges its unit to carry, and whether rule M caps it.\<close>

definition requires_source :: "status \<Rightarrow> bool" where
  "requires_source s \<longleftrightarrow> s \<in> {StMeasured, StCited}"

definition requires_grounds :: "status \<Rightarrow> bool" where
  "requires_grounds s \<longleftrightarrow> s \<in> {StDerived, StInferred}"

definition is_rule_m_constrained :: "status \<Rightarrow> bool" where
  "is_rule_m_constrained s = requires_grounds s"

definition requires_capture_date :: "source_kind \<Rightarrow> bool" where
  "requires_capture_date k \<longleftrightarrow> k = SkUrl"

definition may_assign_measured :: "op_kind \<Rightarrow> bool" where
  "may_assign_measured op \<longleftrightarrow> op = OpImported"

fun rung_ceiling :: "rung \<Rightarrow> status" where
  "rung_ceiling RungComputed = StDerived"
| "rung_ceiling RungDocument = StCited"
| "rung_ceiling RungWeb = StCited"
| "rung_ceiling RungModel = StInferred"

definition ceiling_requires_source :: "rung \<Rightarrow> bool" where
  "ceiling_requires_source r = requires_source (rung_ceiling r)"

text \<open>\<open>Attestation::ceiling\<close>, of the operation and the rung an attestation records.\<close>

definition attestation_ceiling :: "op_kind \<Rightarrow> rung \<Rightarrow> status" where
  "attestation_ceiling op r =
     (if may_assign_measured op \<and> r = RungComputed then StMeasured else rung_ceiling r)"

definition derived_only :: "detection_kind list" where
  "derived_only = [DkDatingNotApplied, DkTemporalInconsistency]"

definition is_derived_only :: "detection_kind \<Rightarrow> bool" where
  "is_derived_only k \<longleftrightarrow> k \<in> set derived_only"

lemma attestation_ceiling_measured:
  "attestation_ceiling op r = StMeasured \<longleftrightarrow> op = OpImported \<and> r = RungComputed"
  by (cases r) (auto simp: attestation_ceiling_def may_assign_measured_def)

subsection \<open>\<open>RelKind\<close>\<close>

datatype rel_kind =
    Elaborates | Contrasts | Concedes | Causes | Enables | Exemplifies | Conditions | Sequences
  | Answers | Rebuts | Warrant | Backs | Supersedes | Retracts
  | RkExtension string

definition rel_kernel :: "rel_kind list" where
  "rel_kernel = [Elaborates, Contrasts, Concedes, Causes, Enables, Exemplifies, Conditions,
     Sequences, Answers, Rebuts, Warrant, Backs, Supersedes, Retracts]"

fun rel_code :: "rel_kind \<Rightarrow> u8 option" where
  "rel_code Elaborates = Some 0"
| "rel_code Contrasts = Some 1"
| "rel_code Concedes = Some 2"
| "rel_code Causes = Some 3"
| "rel_code Enables = Some 4"
| "rel_code Exemplifies = Some 5"
| "rel_code Conditions = Some 6"
| "rel_code Sequences = Some 7"
| "rel_code Answers = Some 8"
| "rel_code Rebuts = Some 9"
| "rel_code Warrant = Some 10"
| "rel_code Backs = Some 11"
| "rel_code Supersedes = Some 12"
| "rel_code Retracts = Some 13"
| "rel_code (RkExtension _) = None"

definition rel_from_code :: "u8 \<Rightarrow> rel_kind option" where
  "rel_from_code c = (if unat c < length rel_kernel then Some (rel_kernel ! unat c) else None)"

fun rel_as_str :: "rel_kind \<Rightarrow> string" where
  "rel_as_str Elaborates = ''elaborates''"
| "rel_as_str Contrasts = ''contrasts''"
| "rel_as_str Concedes = ''concedes''"
| "rel_as_str Causes = ''causes''"
| "rel_as_str Enables = ''enables''"
| "rel_as_str Exemplifies = ''exemplifies''"
| "rel_as_str Conditions = ''conditions''"
| "rel_as_str Sequences = ''sequences''"
| "rel_as_str Answers = ''answers''"
| "rel_as_str Rebuts = ''rebuts''"
| "rel_as_str Warrant = ''warrant''"
| "rel_as_str Backs = ''backs''"
| "rel_as_str Supersedes = ''supersedes''"
| "rel_as_str Retracts = ''retracts''"
| "rel_as_str (RkExtension s) = s"

definition rel_err :: "string \<Rightarrow> id_error" where
  "rel_err s = \<lparr>id_kind = ''relation kind'', id_found = s\<rparr>"

definition rel_domain_ok :: "string \<Rightarrow> bool" where
  "rel_domain_ok domain \<longleftrightarrow>
     domain \<noteq> [] \<and> (case domain of [] \<Rightarrow> False | c # _ \<Rightarrow> is_lower c) \<and>
     list_all (\<lambda>c. is_lower c \<or> is_digit c \<or> c = CHR ''-'' \<or> c = CHR ''_'') domain"

definition rel_parse :: "string \<Rightarrow> id_error + rel_kind" where
  "rel_parse s =
     (case find (\<lambda>k. rel_as_str k = s) rel_kernel of
        Some k \<Rightarrow> Inr k
      | None \<Rightarrow>
          and_then (ok_or (strip_prefix ''x.'' s) (rel_err s)) (\<lambda>rest.
          and_then (ok_or (split_once (CHR ''/'') rest) (rel_err s)) (\<lambda>(domain, kind).
            if rel_domain_ok domain \<and> is_ext_segment kind then Inr (RkExtension s)
            else Inl (rel_err s))))"

definition rel_is_kernel :: "rel_kind \<Rightarrow> bool" where
  "rel_is_kernel k \<longleftrightarrow> \<not> (case k of RkExtension _ \<Rightarrow> True | _ \<Rightarrow> False)"

definition rel_closure_kind :: "rel_kind \<Rightarrow> rel_kind" where
  "rel_closure_kind k = (if rel_is_kernel k then k else Elaborates)"

definition rel_carries_support :: "rel_kind \<Rightarrow> bool" where
  "rel_carries_support k \<longleftrightarrow> k \<in> {Causes, Answers}"

definition rel_is_ordering :: "rel_kind \<Rightarrow> bool" where
  "rel_is_ordering k \<longleftrightarrow> k \<in> {Sequences, Causes, Enables}"

definition rel_is_lifecycle :: "rel_kind \<Rightarrow> bool" where
  "rel_is_lifecycle k \<longleftrightarrow> k \<in> {Supersedes, Retracts}"

lemma rel_kernel_distinct: "distinct (map rel_as_str rel_kernel)"
  by (simp add: rel_kernel_def)

lemma rel_is_kernel_mem: "rel_is_kernel k \<longleftrightarrow> k \<in> set rel_kernel"
  by (cases k) (simp_all add: rel_is_kernel_def rel_kernel_def)

lemma rel_from_code_code: "rel_is_kernel k \<Longrightarrow> \<exists>c. rel_code k = Some c \<and> rel_from_code c = Some k"
  by (cases k) (simp_all add: rel_is_kernel_def rel_from_code_def rel_kernel_def)

lemma rel_code_iff_kernel: "rel_code k = None \<longleftrightarrow> \<not> rel_is_kernel k"
  by (cases k) (simp_all add: rel_is_kernel_def)

lemma rel_code_from_code: "rel_from_code c = Some k \<Longrightarrow> rel_code k = Some c"
proof -
  assume k: "rel_from_code c = Some k"
  then have c: "unat c < 14" and kth: "k = rel_kernel ! unat c"
    by (auto simp: rel_from_code_def rel_kernel_def split: if_splits)
  have "list_all (\<lambda>n. rel_code (rel_kernel ! n) = Some (word_of_nat n)) [0..<14]"
    by (simp add: rel_kernel_def upt_rec)
  then have "rel_code (rel_kernel ! unat c) = Some (word_of_nat (unat c))"
    using c by (simp only: list_all_iff) simp
  with kth show ?thesis by simp
qed

lemma rel_find_kernel: "k \<in> set rel_kernel \<Longrightarrow> find (\<lambda>x. rel_as_str x = rel_as_str k) rel_kernel = Some k"
  by (cases "find (\<lambda>x. rel_as_str x = rel_as_str k) rel_kernel")
     (use rel_kernel_distinct in \<open>auto simp: find_None_iff distinct_map dest!: find_Some_eq dest: inj_onD\<close>)

lemma rel_parse_kernel: "rel_is_kernel k \<Longrightarrow> rel_parse (rel_as_str k) = Inr k"
  by (simp add: rel_parse_def rel_find_kernel rel_is_kernel_mem)

lemma rel_parse_text: "rel_parse s = Inr k \<Longrightarrow> rel_as_str k = s"
  by (auto simp: rel_parse_def and_then_Inr_iff split: option.splits if_splits dest: find_Some_eq)

subsection \<open>The hybrid logical clock\<close>

record hlc =
  wall_ms :: u64
  counter :: u32
  hlc_agent :: string

text \<open>The derived order: wall clock, then counter, then agent.\<close>

definition hlc_key :: "hlc \<Rightarrow> nat \<times> nat" where
  "hlc_key h = (unat (wall_ms h), unat (counter h))"

definition hlc_less :: "hlc \<Rightarrow> hlc \<Rightarrow> bool" where
  "hlc_less a b \<longleftrightarrow>
     wall_ms a < wall_ms b \<or>
     wall_ms a = wall_ms b \<and>
       (counter a < counter b \<or>
        counter a = counter b \<and> map char_code (hlc_agent a) < map char_code (hlc_agent b))"

text \<open>\<open>+ 1\<close> on the counter wraps, as in a release build; a debug build panics there.\<close>

definition hlc_advance :: "hlc \<Rightarrow> string \<Rightarrow> u64 \<Rightarrow> hlc" where
  "hlc_advance prev agent wall =
     (if wall > wall_ms prev
      then \<lparr>wall_ms = wall, counter = 0, hlc_agent = agent\<rparr>
      else \<lparr>wall_ms = wall_ms prev, counter = counter prev + 1, hlc_agent = agent\<rparr>)"

definition hlc_observe :: "hlc \<Rightarrow> hlc \<Rightarrow> string \<Rightarrow> u64 \<Rightarrow> hlc" where
  "hlc_observe local remote agent wall =
     (let hi = max (max (wall_ms local) (wall_ms remote)) wall;
          c = (if hi = wall_ms local \<and> hi = wall_ms remote
               then max (counter local) (counter remote) + 1
               else if hi = wall_ms local then counter local + 1
               else if hi = wall_ms remote then counter remote + 1
               else 0)
      in \<lparr>wall_ms = hi, counter = c, hlc_agent = agent\<rparr>)"

lemma word_less_succ: "(c :: 'a::len word) \<noteq> - 1 \<Longrightarrow> c < c + 1"
  by (metis inc_less_eq_triv_imp linorder_less_linear word_le_less_eq)

lemma hlc_advance_less:
  "counter prev \<noteq> - 1 \<Longrightarrow> hlc_less prev (hlc_advance prev agent wall)"
  by (auto simp: hlc_advance_def hlc_less_def word_less_succ)

lemma hlc_observe_key:
  assumes "counter local \<noteq> - 1" "counter remote \<noteq> - 1"
  shows "hlc_less local (hlc_observe local remote agent wall)"
    and "hlc_less remote (hlc_observe local remote agent wall)"
proof -
  have succ: "max a b \<noteq> - 1 \<Longrightarrow> a < max a b + 1" "max a b \<noteq> - 1 \<Longrightarrow> b < max a b + 1" for a b :: u32
    by (meson max.cobounded1 max.cobounded2 order_le_less_trans word_less_succ)+
  have "max (counter local) (counter remote) \<noteq> - 1"
    using assms by (simp add: max_def)
  then have "counter local < max (counter local) (counter remote) + 1"
      "counter remote < max (counter local) (counter remote) + 1"
    by (rule succ)+
  with assms show "hlc_less local (hlc_observe local remote agent wall)"
      "hlc_less remote (hlc_observe local remote agent wall)"
    by (auto simp: hlc_observe_def hlc_less_def Let_def word_less_succ max_def not_less
        intro: order.strict_trans2 order_le_neq_trans)
qed

subsection \<open>Properties\<close>

text \<open>
  C24. Merging a remote clock reading gives a stamp strictly after both the local and the remote
  one, in the derived order (wall clock, counter, agent), unless a counter is at its last value.
\<close>

theorem hlc_observe_after_both:
  assumes "counter local \<noteq> - 1" and "counter remote \<noteq> - 1"
  shows "hlc_less local (hlc_observe local remote agent wall) \<and>
         hlc_less remote (hlc_observe local remote agent wall)"
  using hlc_observe_key [OF assms] by blast

theorem hlc_observe_after_both_witness:
  "hlc_less \<lparr>wall_ms = 9, counter = 4, hlc_agent = ''a''\<rparr>
     (hlc_observe \<lparr>wall_ms = 9, counter = 4, hlc_agent = ''a''\<rparr> \<lparr>wall_ms = 9, counter = 7, hlc_agent = ''b''\<rparr> ''a'' 3) \<and>
   hlc_less \<lparr>wall_ms = 9, counter = 7, hlc_agent = ''b''\<rparr>
     (hlc_observe \<lparr>wall_ms = 9, counter = 4, hlc_agent = ''a''\<rparr> \<lparr>wall_ms = 9, counter = 7, hlc_agent = ''b''\<rparr> ''a'' 3)"
  by (rule hlc_observe_after_both) simp_all

text \<open>
  The exception is real: at the last counter value with a wall clock that does not move, the
  stamp after is before.
\<close>

lemma hlc_advance_wraps:
  "hlc_less (hlc_advance \<lparr>wall_ms = 5, counter = - 1, hlc_agent = a\<rparr> a 5) \<lparr>wall_ms = 5, counter = - 1, hlc_agent = a\<rparr>"
  by (simp add: hlc_advance_def hlc_less_def word_gt_0)

text \<open>
  A relation kind that parses is written back as the text it was read from, and every kernel
  kind has its own wire code, which reads back as that kind; an extension kind has none.
\<close>

theorem rel_kind_round_trips:
  "(\<forall>s k. rel_parse s = Inr k \<longrightarrow> rel_as_str k = s) \<and>
   (\<forall>k. rel_is_kernel k \<longrightarrow> rel_parse (rel_as_str k) = Inr k \<and>
          (\<exists>c. rel_code k = Some c \<and> rel_from_code c = Some k)) \<and>
   (\<forall>c k. rel_from_code c = Some k \<longrightarrow> rel_code k = Some c \<and> rel_is_kernel k)"
  using rel_parse_text rel_parse_kernel rel_from_code_code rel_code_from_code rel_code_iff_kernel
  by (metis option.distinct(1))

theorem rel_kind_round_trips_witness:
  "rel_as_str Rebuts = ''rebuts'' \<and> rel_parse ''rebuts'' = Inr Rebuts \<and> rel_from_code 9 = Some Rebuts"
proof -
  have k: "rel_is_kernel Rebuts" by (simp add: rel_is_kernel_def)
  have "rel_parse (rel_as_str Rebuts) = Inr Rebuts \<and> (\<exists>c. rel_code Rebuts = Some c \<and> rel_from_code c = Some Rebuts)"
    using rel_kind_round_trips k by blast
  then show ?thesis by simp
qed

text \<open>
  C25. Rule T: the status an attestation can carry is \<open>measured\<close> only for an import computed by a
  program, a model's word never rises above \<open>inferred\<close>, and a ceiling that is not \<open>derived\<close> or
  \<open>inferred\<close> asks for a source.
\<close>

theorem attestation_ceilings:
  "(attestation_ceiling op r = StMeasured \<longleftrightarrow> op = OpImported \<and> r = RungComputed) \<and>
   attestation_ceiling op RungModel \<le> StInferred \<and>
   (requires_source (attestation_ceiling op r) \<longleftrightarrow> \<not> requires_grounds (attestation_ceiling op r))"
  by (cases r)
     (auto simp: attestation_ceiling_def may_assign_measured_def less_eq_status_def
       requires_source_def requires_grounds_def)

end
