(* ===== verification/Dates.thy ===== *)
theory Dates
  imports Text_Numbers
begin

section \<open>Calendar dates\<close>

text \<open>
  \<open>Date\<close> of \<open>smysl-core/src/types/epistemics.rs\<close>: the \<open>YYYY-MM-DD\<close> of \<open>source.captured\<close>, with its
  constructor, its parser and its \<open>Display\<close>.
\<close>

record date =
  year :: u16
  month :: u8
  day :: u8

definition is_leap :: "u16 \<Rightarrow> bool" where
  "is_leap y \<longleftrightarrow> (y mod 4 = 0 \<and> y mod 100 \<noteq> 0) \<or> y mod 400 = 0"

definition days_in_month :: "u16 \<Rightarrow> u8 \<Rightarrow> u8" where
  "days_in_month y m =
     (if m \<in> {1, 3, 5, 7, 8, 10, 12} then 31
      else if m \<in> {4, 6, 9, 11} then 30
      else if m = 2 \<and> is_leap y then 29
      else if m = 2 then 28
      else 0)"

definition date_is_valid :: "date \<Rightarrow> bool" where
  "date_is_valid d =
     (if year d = 0 \<or> \<not> (1 \<le> month d \<and> month d \<le> 12) \<or> day d = 0 then False
      else day d \<le> days_in_month (year d) (month d))"

definition date_display :: "date \<Rightarrow> string" where
  "date_display d =
     zero_pad 4 (show_nat (unat (year d))) @ CHR ''-'' #
     zero_pad 2 (show_nat (unat (month d))) @ CHR ''-'' #
     zero_pad 2 (show_nat (unat (day d)))"

definition date_new :: "u16 \<Rightarrow> u8 \<Rightarrow> u8 \<Rightarrow> id_error + date" where
  "date_new y m d =
     (let r = \<lparr>year = y, month = m, day = d\<rparr>
      in if date_is_valid r then Inr r
         else Inl \<lparr>id_kind = ''date'', id_found = date_display r\<rparr>)"

text \<open>\<open>s[a..b].parse::<u16>()\<close>.\<close>

definition date_num :: "string \<Rightarrow> nat \<Rightarrow> nat \<Rightarrow> id_error + u16" where
  "date_num s a b =
     (case parse_uint 65536 (take (b - a) (drop a s)) of
        None \<Rightarrow> Inl \<lparr>id_kind = ''date'', id_found = s\<rparr>
      | Some n \<Rightarrow> Inr (word_of_nat n))"

definition date_parse :: "string \<Rightarrow> id_error + date" where
  "date_parse s =
     (if length s \<noteq> 10 \<or> s ! 4 \<noteq> CHR ''-'' \<or> s ! 7 \<noteq> CHR ''-''
      then Inl \<lparr>id_kind = ''date'', id_found = s\<rparr>
      else and_then (date_num s 0 4) (\<lambda>y.
           and_then (date_num s 5 7) (\<lambda>m.
           and_then (date_num s 8 10) (\<lambda>d.
             date_new y (ucast m) (ucast d)))))"

lemma days_in_month_le: "days_in_month y m \<le> 31"
  by (simp add: days_in_month_def)

lemma date_valid_bounds:
  assumes "date_is_valid d"
  shows "unat (month d) < 100" "unat (day d) < 100" "year d \<noteq> 0"
proof -
  from assms have m: "month d \<le> 12" and d: "day d \<le> 31" and "year d \<noteq> 0"
    using days_in_month_le [of "year d" "month d"]
    by (auto simp: date_is_valid_def split: if_splits intro: order_trans)
  then show "unat (month d) < 100" "unat (day d) < 100" "year d \<noteq> 0"
    by (simp_all add: word_le_nat_alt)
qed

lemma date_new_Inr: "date_new y m d = Inr r \<longleftrightarrow>
    r = \<lparr>year = y, month = m, day = d\<rparr> \<and> date_is_valid r"
  by (auto simp: date_new_def Let_def)

lemma date_parse_valid: "date_parse s = Inr d \<Longrightarrow> date_is_valid d"
  by (auto simp: date_parse_def and_then_Inr_iff date_new_Inr split: if_splits)

lemma date_num_padded:
  assumes "n < 65536" "0 < w" "n < 10 ^ w" "s = p @ zero_pad w (show_nat n) @ r"
  shows "date_num s (length p) (length p + w) = Inr (word_of_nat n)"
  using assms by (simp add: date_num_def length_zero_pad parse_uint_padded)

lemma date_parse_display_lemma:
  assumes v: "date_is_valid d" and y: "unat (year d) < 10000"
  shows "date_parse (date_display d) = Inr d"
proof -
  let ?Y = "zero_pad 4 (show_nat (unat (year d)))"
  let ?M = "zero_pad 2 (show_nat (unat (month d)))"
  let ?D = "zero_pad 2 (show_nat (unat (day d)))"
  let ?s = "date_display d"
  note b = date_valid_bounds [OF v]
  have len: "length ?Y = 4" "length ?M = 2" "length ?D = 2"
    using y b by (simp_all add: length_zero_pad)
  have s: "?s = ?Y @ CHR ''-'' # ?M @ CHR ''-'' # ?D"
    by (simp add: date_display_def)
  have form: "length ?s = 10" "?s ! 4 = CHR ''-''" "?s ! 7 = CHR ''-''"
    using len by (simp_all add: s nth_append)
  have ny: "date_num ?s 0 4 = Inr (year d)"
    using date_num_padded [of "unat (year d)" 4 ?s "[]" "CHR ''-'' # ?M @ CHR ''-'' # ?D"] y
    by (simp add: s)
  have nm: "date_num ?s 5 7 = Inr (word_of_nat (unat (month d)))"
    using date_num_padded [of "unat (month d)" 2 ?s "?Y @ [CHR ''-'']" "CHR ''-'' # ?D"] b len
    by (simp add: s)
  have nd: "date_num ?s 8 10 = Inr (word_of_nat (unat (day d)))"
    using date_num_padded [of "unat (day d)" 2 ?s "?Y @ CHR ''-'' # ?M @ [CHR ''-'']" "[]"] b len
    by (simp add: s)
  have narrow: "ucast (word_of_nat (unat w) :: u16) = w" if "unat w < 100" for w :: u8
    using that by (intro word_unat_eq_iff [THEN iffD2]) (simp only: unsigned_ucast_eq unsigned_of_nat, simp add: take_bit_nat_eq_self)
  show ?thesis
    using form ny nm nd b narrow v by (simp add: date_parse_def date_new_Inr)
qed

subsection \<open>Properties\<close>

text \<open>
  C26. Every date the constructor accepts with a year of at most four digits is written as ten
  characters that parse back to the same date; and whatever text the parser takes, the date it
  returns is a day of the calendar, the one the constructor makes of its year, month and day.
\<close>

theorem date_round_trip:
  assumes "date_new y m d = Inr r" and "unat y < 10000"
  shows "date_parse (date_display r) = Inr r \<and> length (date_display r) = 10 \<and>
    (date_parse s = Inr r' \<longrightarrow> date_is_valid r' \<and> date_new (year r') (month r') (day r') = Inr r')"
proof -
  from assms have v: "date_is_valid r" and y: "unat (year r) < 10000"
    by (auto simp: date_new_Inr)
  have "date_parse (date_display r) = Inr r"
    by (rule date_parse_display_lemma [OF v y])
  moreover from this have "length (date_display r) = 10"
    by (auto simp: date_parse_def split: if_splits)
  moreover have "date_is_valid r' \<and> date_new (year r') (month r') (day r') = Inr r'" if "date_parse s = Inr r'"
    using date_parse_valid [OF that] by (simp add: date_new_Inr)
  ultimately show ?thesis by blast
qed

theorem date_round_trip_witness:
  "date_parse (date_display \<lparr>year = 2024, month = 2, day = 29\<rparr>) = Inr \<lparr>year = 2024, month = 2, day = 29\<rparr> \<and>
   length (date_display \<lparr>year = 2024, month = 2, day = 29\<rparr>) = 10 \<and>
   date_new 2024 2 29 = Inr \<lparr>year = 2024, month = 2, day = 29\<rparr>"
proof -
  let ?r = "\<lparr>year = 2024, month = 2, day = 29\<rparr>"
  have "date_new 2024 2 29 = Inr ?r" by (simp add: date_new_def date_is_valid_def days_in_month_def is_leap_def)
  then have trip: "date_parse (date_display ?r) = Inr ?r \<and> length (date_display ?r) = 10 \<and>
      (date_parse (date_display ?r) = Inr ?r \<longrightarrow> date_is_valid ?r \<and> date_new (year ?r) (month ?r) (day ?r) = Inr ?r)"
    by (rule date_round_trip) simp
  then show ?thesis by simp
qed

text \<open>
  The parser takes more than the printer writes: \<open>str::parse\<close> accepts a leading plus, so a text
  that is no ISO date names one; and a year of five digits does not read back.
\<close>

lemmas date_eval = date_parse_def date_num_def parse_uint_def char_class_defs date_new_def
  date_is_valid_def days_in_month_def is_leap_def Let_def

lemma date_parse_plus: "date_parse ''+202-+1-+1'' = Inr \<lparr>year = 202, month = 1, day = 1\<rparr>"
  by (simp add: date_eval)

lemma date_five_digit_year:
  "date_is_valid \<lparr>year = 10000, month = 1, day = 1\<rparr> \<and>
   \<not> (\<exists>d. date_parse (date_display \<lparr>year = 10000, month = 1, day = 1\<rparr>) = Inr d)"
  by (simp add: date_eval date_display_def zero_pad_def show_nat.simps digit_char_def)

end
