(* ===== verification/Uids.thy ===== *)
theory Uids
  imports Smysl_Prelude Identifiers
begin

section \<open>Content identities\<close>

text \<open>
  \<open>Uid\<close> and \<open>UidPrefix\<close> of \<open>smysl-core/src/ids.rs\<close>: 32 bytes, their base-32 spelling (26 characters to
  show, 52 to store), the parser, and the two ways a prefix selects identities, by masking the last
  byte (\<open>matches\<close>) and as an interval of the byte order (\<open>range\<close>).
\<close>

datatype uid = Uid (uid_bytes: bytes)

definition uid_ok :: "uid \<Rightarrow> bool" where
  "uid_ok u \<longleftrightarrow> length (uid_bytes u) = 32"

text \<open>The derived order on \<open>[u8; 32]\<close> is lexicographic.\<close>

instantiation uid :: linorder
begin

definition less_eq_uid :: "uid \<Rightarrow> uid \<Rightarrow> bool" where
  "less_eq_uid a b \<longleftrightarrow> uid_bytes a \<le> uid_bytes b"

definition less_uid :: "uid \<Rightarrow> uid \<Rightarrow> bool" where
  "less_uid a b \<longleftrightarrow> uid_bytes a < uid_bytes b"

instance
  by standard (auto simp: less_eq_uid_def less_uid_def uid.expand)

end

lemma uid_less_simps [simp]:
  "Uid a < Uid b \<longleftrightarrow> a < b" "Uid a \<le> Uid b \<longleftrightarrow> a \<le> b"
  by (simp_all add: less_uid_def less_eq_uid_def)

unbundle bit_operations_syntax

subsection \<open>Base 32\<close>

definition alphabet :: string where
  "alphabet = ''abcdefghijklmnopqrstuvwxyz234567''"

definition uid_prefix :: string where
  "uid_prefix = ''b3:''"

definition decode_char :: "char \<Rightarrow> u8 option" where
  "decode_char c = map_option word_of_nat (find (\<lambda>i. alphabet ! i = c) [0..<32])"

text \<open>Bit \<open>n\<close> of the byte string, most significant bit of each byte first.\<close>

definition bit_at :: "bytes \<Rightarrow> nat \<Rightarrow> bool" where
  "bit_at bs n \<longleftrightarrow> bit (bs ! (n div 8)) (7 - n mod 8)"

fun five_bits_loop :: "nat \<Rightarrow> bytes \<Rightarrow> nat \<Rightarrow> nat \<Rightarrow> nat" where
  "five_bits_loop 0 bs b v = v"
| "five_bits_loop (Suc k) bs b v =
     five_bits_loop k bs (Suc b) (2 * v + (if b < 256 \<and> bit_at bs b then 1 else 0))"

definition five_bits_at :: "bytes \<Rightarrow> nat \<Rightarrow> nat" where
  "five_bits_at bs off = five_bits_loop 5 bs off 0"

definition set_bit_at :: "bytes \<Rightarrow> nat \<Rightarrow> bytes" where
  "set_bit_at bs n = bs[n div 8 := set_bit (7 - n mod 8) (bs ! (n div 8))]"

fun put_bits_loop :: "nat \<Rightarrow> bytes \<Rightarrow> nat \<Rightarrow> u8 \<Rightarrow> bytes" where
  "put_bits_loop 0 bs b v = bs"
| "put_bits_loop (Suc k) bs b v =
     (if b \<ge> 256 then bs
      else put_bits_loop k (if bit v k then set_bit_at bs b else bs) (Suc b) v)"

definition put_five_bits :: "bytes \<Rightarrow> nat \<Rightarrow> u8 \<Rightarrow> bytes" where
  "put_five_bits bs off v = put_bits_loop 5 bs off v"

definition base32_body :: "bytes \<Rightarrow> nat \<Rightarrow> string" where
  "base32_body bs chars = map (\<lambda>i. alphabet ! five_bits_at bs (i * 5)) [0..<chars]"

definition uid_encode :: "uid \<Rightarrow> nat \<Rightarrow> string" where
  "uid_encode u chars = uid_prefix @ base32_body (uid_bytes u) chars"

definition uid_short :: "uid \<Rightarrow> string" where
  "uid_short u = uid_encode u 26"

definition uid_canonical :: "uid \<Rightarrow> string" where
  "uid_canonical u = uid_encode u 52"

definition base32 :: "bytes \<Rightarrow> nat \<Rightarrow> string" where
  "base32 bs chars = base32_body bs (min chars 52)"

datatype integrity_error =
    Dangling uid uid
  | DepCycle "uid list"
  | HashMismatch uid uid
  | TruncatedUidText string
  | AmbiguousPrefix string "uid list"

fun decode_body :: "string \<Rightarrow> nat \<Rightarrow> bytes \<Rightarrow> bytes option" where
  "decode_body [] i bs = Some bs"
| "decode_body (c # cs) i bs =
     (case decode_char c of None \<Rightarrow> None
      | Some v \<Rightarrow> decode_body cs (Suc i) (put_five_bits bs (i * 5) v))"

definition zero_bytes :: bytes where
  "zero_bytes = replicate 32 0"

definition uid_parse :: "string \<Rightarrow> integrity_error + uid" where
  "uid_parse s =
     and_then (ok_or (strip_prefix uid_prefix s) (TruncatedUidText s)) (\<lambda>body.
       if length body \<noteq> 52 then Inl (TruncatedUidText s)
       else and_then (ok_or (decode_body body 0 zero_bytes) (TruncatedUidText s)) (\<lambda>bs. Inr (Uid bs)))"

subsection \<open>Prefixes\<close>

record uid_prefix_rec =
  up_bits :: nat
  up_bytes :: bytes

definition prefix_parse :: "string \<Rightarrow> integrity_error + uid_prefix_rec" where
  "prefix_parse s =
     and_then (ok_or (strip_prefix uid_prefix s) (TruncatedUidText s)) (\<lambda>body.
       if \<not> (26 \<le> length body \<and> length body \<le> 52) then Inl (TruncatedUidText s)
       else and_then (ok_or (decode_body body 0 zero_bytes) (TruncatedUidText s)) (\<lambda>bs.
         Inr \<lparr>up_bits = min (length body * 5) 256, up_bytes = bs\<rparr>))"

definition high_mask :: "nat \<Rightarrow> u8" where
  "high_mask rest = push_bit (8 - rest) 255"

definition prefix_matches :: "uid_prefix_rec \<Rightarrow> uid \<Rightarrow> bool" where
  "prefix_matches p u =
     (let full = up_bits p div 8; rest = up_bits p mod 8
      in if take full (uid_bytes u) \<noteq> take full (up_bytes p) then False
         else if rest = 0 then True
         else uid_bytes u ! full AND high_mask rest = up_bytes p ! full AND high_mask rest)"

definition prefix_range :: "uid_prefix_rec \<Rightarrow> uid \<times> uid" where
  "prefix_range p =
     (let full = up_bits p div 8; rest = up_bits p mod 8;
          lo = take full (up_bytes p) @ replicate (32 - full) 0;
          hi = take full (up_bytes p) @ replicate (32 - full) 255
      in if rest > 0
         then (Uid (lo[full := up_bytes p ! full AND high_mask rest]),
               Uid (hi[full := (up_bytes p ! full AND high_mask rest) OR NOT (high_mask rest)]))
         else (Uid lo, Uid hi))"

subsection \<open>Bits of the spelling\<close>

lemma five_bits_at_eq:
  "five_bits_at bs off =
     16 * of_bool (off < 256 \<and> bit_at bs off) + 8 * of_bool (off + 1 < 256 \<and> bit_at bs (off + 1))
     + 4 * of_bool (off + 2 < 256 \<and> bit_at bs (off + 2)) + 2 * of_bool (off + 3 < 256 \<and> bit_at bs (off + 3))
     + of_bool (off + 4 < 256 \<and> bit_at bs (off + 4))"
  by (simp add: five_bits_at_def numeral_eq_Suc)

lemma five_bits_at_lt: "five_bits_at bs off < 32"
  by (simp add: five_bits_at_eq)

lemma bits_of_five:
  fixes a b c d e :: bool
  defines "w \<equiv> (word_of_nat (16 * of_bool a + 8 * of_bool b + 4 * of_bool c + 2 * of_bool d + of_bool e) :: u8)"
  shows "bit w 4 = a" "bit w 3 = b" "bit w 2 = c" "bit w 1 = d" "bit w 0 = e"
  unfolding w_def by (cases a; cases b; cases c; cases d; cases e; simp)+

lemma bit_five_bits:
  assumes "k < 5"
  shows "bit (word_of_nat (five_bits_at bs off) :: u8) k \<longleftrightarrow> off + 4 - k < 256 \<and> bit_at bs (off + 4 - k)"
proof -
  from assms consider "k = 0" | "k = 1" | "k = 2" | "k = 3" | "k = 4" by linarith
  then show ?thesis
    unfolding five_bits_at_eq by cases (simp_all only: bits_of_five, simp_all add: add.commute)
qed

lemma decode_char_alphabet: "v < 32 \<Longrightarrow> decode_char (alphabet ! v) = Some (word_of_nat v)"
proof -
  assume v: "v < 32"
  have d: "distinct alphabet" "length alphabet = 32"
    by (simp_all add: alphabet_def)
  have "find (\<lambda>i. alphabet ! i = alphabet ! v) [0..<32] = Some v"
    using v d by (auto simp: find_Some_iff nth_eq_iff_index_eq intro!: exI [of _ v])
  then show ?thesis by (simp add: decode_char_def)
qed

lemma length_set_bit_at [simp]: "length (set_bit_at bs n) = length bs"
  by (simp add: set_bit_at_def)

lemma bit_set_bit_at:
  assumes "n < 8 * length bs" "m < 8 * length bs"
  shows "bit_at (set_bit_at bs n) m \<longleftrightarrow> bit_at bs m \<or> m = n"
proof (cases "m div 8 = n div 8")
  case True
  have "7 - m mod 8 = 7 - n mod 8 \<longleftrightarrow> m mod 8 = n mod 8"
    using mod_less_divisor [of 8 m] mod_less_divisor [of 8 n] by linarith
  then have "7 - m mod 8 = 7 - n mod 8 \<longleftrightarrow> m = n"
    using True by (metis div_mult_mod_eq)
  moreover have "n div 8 < length bs" using assms by simp
  ultimately show ?thesis
    using True by (auto simp: set_bit_at_def bit_at_def bit_set_bit_iff)
next
  case False
  then show ?thesis by (auto simp: set_bit_at_def bit_at_def)
qed

lemma put_bits_loop:
  assumes "length bs = 32" "k \<le> 8"
  shows "length (put_bits_loop k bs b v) = 32 \<and>
    (\<forall>m<256. bit_at (put_bits_loop k bs b v) m \<longleftrightarrow> bit_at bs m \<or> (b \<le> m \<and> m < b + k \<and> bit v (k - 1 - (m - b))))"
  using assms
proof (induction k arbitrary: bs b)
  case (Suc k)
  show ?case
  proof (cases "b \<ge> 256")
    case True
    with Suc.prems show ?thesis by auto
  next
    case False
    let ?bs = "if bit v k then set_bit_at bs b else bs"
    have len: "length ?bs = 32" using Suc.prems by simp
    have step: "bit_at ?bs m \<longleftrightarrow> bit_at bs m \<or> (m = b \<and> bit v k)" if "m < 256" for m
      using that False Suc.prems by (simp add: bit_set_bit_at)
    note IH = Suc.IH [OF len, of "Suc b"]
    have "k \<le> 8" using Suc.prems by simp
    note IH = IH [OF this]
    have "bit_at (put_bits_loop k ?bs (Suc b) v) m \<longleftrightarrow>
        bit_at bs m \<or> (b \<le> m \<and> m < b + Suc k \<and> bit v (Suc k - 1 - (m - b)))" if m: "m < 256" for m
    proof -
      have "bit_at (put_bits_loop k ?bs (Suc b) v) m \<longleftrightarrow>
        (bit_at bs m \<or> (m = b \<and> bit v k)) \<or> (Suc b \<le> m \<and> m < Suc b + k \<and> bit v (k - 1 - (m - Suc b)))"
        using IH m step by blast
      moreover have "k - 1 - (m - Suc b) = Suc k - 1 - (m - b)" if "Suc b \<le> m"
        using that by simp
      ultimately show ?thesis
        by (cases m b rule: linorder_cases) (auto simp: Suc_le_eq)
    qed
    with IH False show ?thesis by simp
  qed
qed auto

lemma put_five_bits:
  assumes "length bs = 32" "m < 256"
  shows "length (put_five_bits bs off v) = 32"
    and "bit_at (put_five_bits bs off v) m \<longleftrightarrow> bit_at bs m \<or> (off \<le> m \<and> m < off + 5 \<and> bit v (4 - (m - off)))"
  using put_bits_loop [of bs 5 off v] assms by (simp_all add: put_five_bits_def)

lemma bytes_eq_bits:
  assumes "length xs = 32" "length ys = 32" "\<And>m. m < 256 \<Longrightarrow> bit_at xs m = bit_at ys m"
  shows "xs = ys"
proof (rule nth_equalityI)
  fix i assume i: "i < length xs"
  show "xs ! i = ys ! i"
  proof (rule bit_word_eqI)
    fix n assume n: "n < LENGTH(8)"
    then have "8 * i + (7 - n) < 256" using i assms(1) by simp
    from assms(3) [OF this] n show "bit (xs ! i) n = bit (ys ! i) n"
      by (simp add: bit_at_def)
  qed
qed (use assms in simp)

lemma decode_body_base32:
  assumes "length acc = 32" "\<And>m. m < 256 \<Longrightarrow> bit_at acc m \<longleftrightarrow> m < 5 * i \<and> bit_at bs m"
  shows "\<exists>out. decode_body (map (\<lambda>i. alphabet ! five_bits_at bs (i * 5)) [i..<i + n]) i acc = Some out
     \<and> length out = 32 \<and> (\<forall>m<256. bit_at out m \<longleftrightarrow> m < 5 * (i + n) \<and> bit_at bs m)"
  using assms
proof (induction n arbitrary: i acc)
  case (Suc n)
  let ?v = "word_of_nat (five_bits_at bs (i * 5)) :: u8"
  let ?acc = "put_five_bits acc (i * 5) ?v"
  have len: "length ?acc = 32"
    using put_five_bits(1) [of acc 0] Suc.prems by simp
  have bits: "bit_at ?acc m \<longleftrightarrow> m < 5 * Suc i \<and> bit_at bs m" if m: "m < 256" for m
  proof -
    have "bit ?v (4 - (m - i * 5)) \<longleftrightarrow> bit_at bs m" if "i * 5 \<le> m" "m < i * 5 + 5"
    proof -
      have "i * 5 + 4 - (4 - (m - i * 5)) = m" using that by simp
      with bit_five_bits [of "4 - (m - i * 5)" bs "i * 5"] m show ?thesis by simp
    qed
    then show ?thesis
      using put_five_bits(2) [of acc m "i * 5" ?v] Suc.prems m
      by (cases "m < i * 5"; cases "m < i * 5 + 5") (auto simp: mult.commute)
  qed
  have "[i..<i + Suc n] = i # [Suc i..<Suc i + n]"
    by (simp add: upt_rec)
  then show ?case
    using Suc.IH [OF len bits] by (simp add: decode_char_alphabet five_bits_at_lt)
qed auto

lemma decode_char_Some:
  "decode_char c = Some v \<Longrightarrow> unat v < 32 \<and> alphabet ! unat v = c"
proof -
  assume "decode_char c = Some v"
  then obtain n where n: "find (\<lambda>i. alphabet ! i = c) [0..<32] = Some n" and v: "v = word_of_nat n"
    by (auto simp: decode_char_def)
  from find_Some_eq [OF n] have "n < 32" "alphabet ! n = c" by auto
  then show ?thesis by (simp add: v unat_of_nat)
qed

lemma decode_body_bits:
  assumes "decode_body cs i acc = Some out" "length acc = 32"
    and "\<And>m. m < 256 \<Longrightarrow> 5 * i \<le> m \<Longrightarrow> \<not> bit_at acc m"
  shows "length out = 32 \<and> (\<forall>m<256. m < 5 * i \<longrightarrow> bit_at out m = bit_at acc m) \<and>
    (\<forall>j<length cs. \<exists>v. decode_char (cs ! j) = Some v \<and>
       (\<forall>k<5. 5 * (i + j) + k < 256 \<longrightarrow> bit_at out (5 * (i + j) + k) = bit v (4 - k)))"
  using assms
proof (induction cs arbitrary: i acc)
  case (Cons c cs)
  then obtain v where v: "decode_char c = Some v"
      and rest: "decode_body cs (Suc i) (put_five_bits acc (i * 5) v) = Some out"
    by (auto split: option.splits)
  let ?acc = "put_five_bits acc (i * 5) v"
  have len: "length ?acc = 32"
    using put_five_bits(1) [of acc 0] Cons.prems by simp
  have bits: "bit_at ?acc m \<longleftrightarrow> bit_at acc m \<or> (i * 5 \<le> m \<and> m < i * 5 + 5 \<and> bit v (4 - (m - i * 5)))"
    if "m < 256" for m using put_five_bits(2) that Cons.prems by blast
  have clear: "\<not> bit_at ?acc m" if "m < 256" "5 * Suc i \<le> m" for m
    using bits [OF that(1)] Cons.prems(3) [of m] that by auto
  note IH = Cons.IH [OF rest len clear]
  have head: "bit_at out (5 * i + k) = bit v (4 - k)" if "k < 5" "5 * i + k < 256" for k
  proof -
    have "bit_at out (5 * i + k) = bit_at ?acc (5 * i + k)"
      using IH that by auto
    also have "\<dots> = bit v (4 - k)"
      using bits [OF that(2)] Cons.prems(3) [OF that(2)] that by (auto simp: mult.commute)
    finally show ?thesis .
  qed
  have old: "bit_at out m = bit_at acc m" if "m < 256" "m < 5 * i" for m
    using IH bits that by auto
  have tail: "\<exists>v. decode_char ((c # cs) ! j) = Some v \<and>
       (\<forall>k<5. 5 * (i + j) + k < 256 \<longrightarrow> bit_at out (5 * (i + j) + k) = bit v (4 - k))"
    if "j < length (c # cs)" for j
    using that IH v head by (cases j) auto
  show ?case using IH old tail by blast
qed simp

subsection \<open>The interval of a prefix\<close>

lemma lex_append:
  fixes a a' :: "'a::linorder list"
  assumes "length a = length a'"
  shows "a @ b \<le> a' @ b' \<longleftrightarrow> a < a' \<or> (a = a' \<and> b \<le> b')"
  using assms by (induction a a' rule: list_induct2) auto

lemma zeros_least: "replicate (length xs) (0 :: u8) \<le> xs"
  by (induction xs) (auto simp: less_le)

lemma ones_greatest: "xs \<le> replicate (length xs) (255 :: u8)"
proof (induction xs)
  case (Cons x xs)
  have "(255 :: u8) = - 1" by simp
  then have "x \<le> 255" by (metis word_n1_ge)
  with Cons show ?case by (auto simp: less_le)
qed simp

lemma unat_lt256: "unat (b :: u8) < 256"
  using unsigned_less [of b] by simp

lemma high_mask_interval:
  fixes x b :: u8
  assumes "0 < r" "r < 8"
  shows "x AND high_mask r = b AND high_mask r \<longleftrightarrow>
    b AND high_mask r \<le> x \<and> x \<le> (b AND high_mask r) OR NOT (high_mask r)"
proof -
  obtain k where k: "k = 8 - r" "0 < k" "k < 8" using assms by simp
  have ff: "(255 :: u8) = - 1" by simp
  have m: "x AND high_mask r = push_bit k (drop_bit k x)" for x :: u8
    unfolding high_mask_def ff using k by (intro bit_word_eqI) (auto simp: bit_simps)
  have nm: "(b AND high_mask r) OR NOT (high_mask r) = push_bit k (drop_bit k b) + mask k"
  proof -
    have "(b AND high_mask r) OR NOT (high_mask r) = push_bit k (drop_bit k b) OR mask k"
      unfolding high_mask_def ff using k by (intro bit_word_eqI) (auto simp: bit_simps)
    also have "\<dots> = push_bit k (drop_bit k b) + mask k"
      by (rule disjunctive_add [symmetric]) (auto simp: bit_simps)
    finally show ?thesis .
  qed
  have lo: "unat (push_bit k (drop_bit k b)) = unat b div 2 ^ k * 2 ^ k" for b :: u8
  proof -
    have "unat b div 2 ^ k * 2 ^ k \<le> unat b" by simp
    also have "unat b < 2 ^ 8" using unsigned_less [of b] by simp
    finally have "unat b div 2 ^ k * 2 ^ k < 2 ^ 8" .
    moreover have "unat (push_bit k (drop_bit k b)) = take_bit 8 (push_bit k (drop_bit k (unat b)))"
    proof -
      have "take_bit 8 (unat b) = unat b"
        using unsigned_less [of b] by (intro take_bit_nat_eq_self) simp
      then show ?thesis by (simp add: unsigned_push_bit_eq unsigned_drop_bit_eq)
    qed
    ultimately show ?thesis
      by (simp only: push_bit_eq_mult drop_bit_eq_div take_bit_nat_eq_self)
  qed
  have hi: "unat (push_bit k (drop_bit k b) + mask k) = unat b div 2 ^ k * 2 ^ k + (2 ^ k - 1)"
  proof -
    have "unat b div 2 ^ k < 2 ^ (8 - k)"
    proof (rule less_mult_imp_div_less)
      have "unat b < 2 ^ 8" using unat_lt256 [of b] by simp
      also have "(2::nat) ^ 8 = 2 ^ (8 - k) * 2 ^ k"
        using k by (simp flip: power_add)
      finally show "unat b < 2 ^ (8 - k) * 2 ^ k" .
    qed
    then have "(unat b div 2 ^ k + 1) * 2 ^ k \<le> 2 ^ (8 - k) * 2 ^ k"
      by (intro mult_right_mono) auto
    also have "(2::nat) ^ (8 - k) * 2 ^ k = 2 ^ 8"
      using k by (simp flip: power_add)
    finally have "unat b div 2 ^ k * 2 ^ k + (2 ^ k - 1) < 256"
      using zero_less_power [of "2::nat" k] by (simp add: algebra_simps)
    moreover have "unat (mask k :: u8) = 2 ^ k - 1"
    proof -
      have "(mask k :: u8) = word_of_nat (2 ^ k - 1)"
        by (simp add: mask_eq_decr_exp)
      moreover have "(2::nat) ^ k - 1 < 256"
        using k power_strict_increasing [of k 8 "2::nat"] by simp
      ultimately show ?thesis by (simp only: unat_of_nat) simp
    qed
    ultimately show ?thesis
      by (simp add: unat_word_ariths lo)
  qed
  have "x AND high_mask r = b AND high_mask r \<longleftrightarrow> unat x div 2 ^ k = unat b div 2 ^ k"
    unfolding m word_unat_eq_iff lo by simp
  also have "\<dots> \<longleftrightarrow> unat b div 2 ^ k * 2 ^ k \<le> unat x \<and> unat x < (unat b div 2 ^ k + 1) * 2 ^ k"
  proof -
    have P: "0 < (2::nat) ^ k" by simp
    show ?thesis
      using less_eq_div_iff_mult_less_eq [OF P, of "unat b div 2 ^ k" "unat x"]
        div_less_iff_less_mult [OF P, of "unat x" "unat b div 2 ^ k + 1"] by auto
  qed
  also have "\<dots> \<longleftrightarrow> b AND high_mask r \<le> x \<and> x \<le> (b AND high_mask r) OR NOT (high_mask r)"
    unfolding nm unfolding m word_le_nat_alt lo hi
    using zero_less_power [of "2::nat" k] by (simp only: distrib_right mult_1) linarith
  finally show ?thesis .
qed

subsection \<open>Padding\<close>

lemma put_five_zeros: "put_five_bits bs off 0 = bs"
proof -
  have "put_bits_loop k bs b 0 = bs" for k b
    by (induction k arbitrary: b) auto
  then show ?thesis by (simp add: put_five_bits_def)
qed

lemma decode_char_a_b: "decode_char (CHR ''a'') = Some 0" "decode_char (CHR ''b'') = Some 1"
  by (simp_all add: decode_char_def alphabet_def upt_rec)

lemma decode_body_as: "decode_body (replicate n (CHR ''a'') @ cs) i bs = decode_body cs (i + n) bs"
  by (induction n arbitrary: i) (simp_all add: decode_char_a_b put_five_zeros)

lemma uid_parse_padding: "uid_parse (uid_prefix @ replicate 51 (CHR ''a'') @ ''b'') = Inr (Uid zero_bytes)"
proof -
  have "put_five_bits zero_bytes 255 1 = zero_bytes"
    by (simp add: put_five_bits_def eval_nat_numeral)
  then have "decode_body (replicate 51 (CHR ''a'') @ ''b'') 0 zero_bytes = Some zero_bytes"
    by (simp only: decode_body_as) (simp add: decode_char_a_b)
  then show ?thesis
    by (simp only: uid_parse_def strip_prefix_append ok_or_simps and_then_simps) simp
qed

lemma base32_zero_bytes: "base32_body zero_bytes n = replicate n (CHR ''a'')"
proof -
  have "\<not> bit_at zero_bytes b" if "b < 256" for b
    using that by (simp add: zero_bytes_def bit_at_def less_mult_imp_div_less)
  then have "five_bits_loop k zero_bytes b 0 = 0" for k b
    by (induction k arbitrary: b) auto
  then have "five_bits_at zero_bytes off = 0" for off
    by (simp add: five_bits_at_def)
  then show ?thesis by (simp add: base32_body_def alphabet_def map_replicate_const)
qed

subsection \<open>Properties\<close>

lemma decode_base32:
  assumes "length bs = 32"
  shows "decode_body (base32_body bs 52) 0 zero_bytes = Some bs"
proof -
  have zero: "bit_at zero_bytes m \<longleftrightarrow> m < 5 * 0 \<and> bit_at bs m" if "m < 256" for m
    using that by (simp add: zero_bytes_def bit_at_def)
  obtain out where out: "decode_body (base32_body bs 52) 0 zero_bytes = Some out"
      "length out = 32" "\<forall>m<256. bit_at out m \<longleftrightarrow> m < 260 \<and> bit_at bs m"
    using decode_body_base32 [of zero_bytes 0 bs 52] zero
    by (auto simp: zero_bytes_def base32_body_def)
  have "out = bs"
    using assms out by (intro bytes_eq_bits) auto
  with out show ?thesis by simp
qed

text \<open>
  C17. The canonical spelling of an identity parses back to that identity: 52 characters of base 32
  carry all 256 bits and the parser reads them all.
\<close>

theorem uid_parse_canonical: "uid_ok u \<Longrightarrow> uid_parse (uid_canonical u) = Inr u"
  using decode_base32 [of "uid_bytes u"]
  by (simp add: uid_ok_def uid_parse_def uid_canonical_def uid_encode_def base32_body_def)

theorem uid_parse_canonical_witness:
  "uid_parse (uid_canonical (Uid (replicate 32 7))) = Inr (Uid (replicate 32 7))"
  by (rule uid_parse_canonical) (simp add: uid_ok_def)

text \<open>
  Only the last character of a spelling is free: whatever text the parser takes for an identity
  is 55 bytes long and is the canonical spelling up to its last character, whose four padding
  bits the parser ignores.
\<close>

theorem uid_parse_canonical_but_last:
  assumes "uid_parse s = Inr u"
  shows "uid_ok u \<and> length s = 55 \<and> butlast s = butlast (uid_canonical u)"
proof -
  from assms obtain body where s: "s = uid_prefix @ body" and len: "length body = 52"
      and dec: "decode_body body 0 zero_bytes = Some (uid_bytes u)"
    by (cases u) (auto simp: uid_parse_def and_then_Inr_iff strip_prefix_Some_iff split: if_splits)
  have zero: "\<not> bit_at zero_bytes m" if "m < 256" for m
    using that by (simp add: zero_bytes_def bit_at_def)
  have D: "length (uid_bytes u) = 32"
      "\<And>j. j < 52 \<Longrightarrow> \<exists>v. decode_char (body ! j) = Some v \<and>
         (\<forall>k<5. 5 * j + k < 256 \<longrightarrow> bit_at (uid_bytes u) (5 * j + k) = bit v (4 - k))"
    using decode_body_bits [OF dec] zero len by (simp_all add: zero_bytes_def)
  have "body ! j = base32_body (uid_bytes u) 52 ! j" if j: "j < 51" for j
  proof -
    obtain v where v: "decode_char (body ! j) = Some v"
        and b': "\<forall>k<5. 5 * j + k < 256 \<longrightarrow> bit_at (uid_bytes u) (5 * j + k) = bit v (4 - k)"
      using D(2) [of j] j by auto
    from b' j have b: "\<forall>k<5. bit_at (uid_bytes u) (5 * j + k) = bit v (4 - k)"
      by simp
    have "word_of_nat (five_bits_at (uid_bytes u) (j * 5)) = v"
    proof (rule bit_word_eqI)
      fix n assume n: "n < LENGTH(8)"
      show "bit (word_of_nat (five_bits_at (uid_bytes u) (j * 5)) :: u8) n = bit v n"
      proof (cases "n < 5")
        case True
        then have "4 - n < 5" "j * 5 + 4 - n < 256" "5 * j + (4 - n) = j * 5 + 4 - n" "4 - (4 - n) = n"
          using j by simp_all
        with bit_five_bits [OF True, of "uid_bytes u" "j * 5"] b [rule_format, of "4 - n"]
        show ?thesis by simp
      next
        case False
        have small: "\<not> bit w n" if "unat (w :: u8) < 32" for w
        proof -
          have "unat w < 2 ^ n" using that False power_increasing [of 5 n "2::nat"] by simp
          then have "\<not> bit (unat w) n" by (simp add: bit_iff_odd)
          then show ?thesis by (simp add: bit_unsigned_iff)
        qed
        then show ?thesis
          using decode_char_Some [OF v] five_bits_at_lt [of "uid_bytes u" "j * 5"]
          by (simp add: unat_of_nat)
      qed
    qed
    then have "unat v = five_bits_at (uid_bytes u) (j * 5)"
      using five_bits_at_lt [of "uid_bytes u" "j * 5"] by (auto simp: unat_of_nat)
    with decode_char_Some [OF v] j show ?thesis by (simp add: base32_body_def)
  qed
  then have "butlast body = butlast (base32_body (uid_bytes u) 52)"
    by (intro nth_equalityI) (simp_all add: len nth_butlast base32_body_def)
  moreover have "body \<noteq> []" "base32_body (uid_bytes u) 52 \<noteq> []"
    using len by (auto simp: base32_body_def)
  ultimately show ?thesis
    using D len by (simp add: s uid_canonical_def uid_encode_def uid_ok_def butlast_append zero_bytes_def uid_prefix_def)
qed

theorem uid_parse_canonical_but_last_witness:
  "uid_ok (Uid zero_bytes) \<and> length (uid_prefix @ replicate 51 (CHR ''a'') @ ''b'') = 55 \<and>
   butlast (uid_prefix @ replicate 51 (CHR ''a'') @ ''b'') = butlast (uid_canonical (Uid zero_bytes))"
  by (rule uid_parse_canonical_but_last [OF uid_parse_padding])

text \<open>What the last of the 52 characters adds to the bits the other 51 have set.\<close>

lemma decode_body_append:
  "decode_body (xs @ ys) i bs = (case decode_body xs i bs of None \<Rightarrow> None | Some b \<Rightarrow> decode_body ys (i + length xs) b)"
  by (induction xs arbitrary: i bs) (auto split: option.split)

lemma bit_16: "n < 32 \<Longrightarrow> bit (word_of_nat n :: u8) 4 \<longleftrightarrow> 16 \<le> n"
proof -
  assume n: "n < 32"
  have "bit (word_of_nat n :: u8) 4 \<longleftrightarrow> odd (n div 16)" by (simp add: bit_simps) (simp add: bit_iff_odd)
  moreover have "n div 16 = (if 16 \<le> n then 1 else 0)" using n by auto
  ultimately show ?thesis by simp
qed

lemma uid_parse_last:
  assumes u: "uid_ok u" and n: "n < 32"
  shows "\<exists>bs. uid_parse (butlast (uid_canonical u) @ [alphabet ! n]) = Inr (Uid bs) \<and> length bs = 32 \<and>
    (\<forall>m<256. bit_at bs m \<longleftrightarrow> (if m = 255 then 16 \<le> n else bit_at (uid_bytes u) m))"
proof -
  let ?bs = "uid_bytes u" and ?v = "word_of_nat n :: u8"
  have zero: "bit_at zero_bytes m \<longleftrightarrow> m < 5 * 0 \<and> bit_at ?bs m" if "m < 256" for m
    using that by (simp add: zero_bytes_def bit_at_def)
  obtain out where out: "decode_body (base32_body ?bs 51) 0 zero_bytes = Some out" "length out = 32"
      "\<forall>m<256. bit_at out m \<longleftrightarrow> m < 255 \<and> bit_at ?bs m"
    using decode_body_base32 [of zero_bytes 0 ?bs 51] zero by (auto simp: zero_bytes_def base32_body_def)
  have body: "butlast (base32_body ?bs 52) = base32_body ?bs 51"
    by (rule nth_equalityI) (simp_all add: base32_body_def nth_butlast)
  then have text52: "butlast (uid_canonical u) = uid_prefix @ base32_body ?bs 51"
    by (simp add: uid_canonical_def uid_encode_def butlast_append) (simp add: base32_body_def)
  have "decode_body (base32_body ?bs 51 @ [alphabet ! n]) 0 zero_bytes = Some (put_five_bits out 255 ?v)"
    using out(1) decode_char_alphabet [OF n] by (simp add: decode_body_append) (simp add: base32_body_def)
  then have "uid_parse (butlast (uid_canonical u) @ [alphabet ! n]) = Inr (Uid (put_five_bits out 255 ?v))"
    by (simp add: text52 uid_parse_def strip_prefix_append) (simp add: base32_body_def)
  moreover have "bit_at (put_five_bits out 255 ?v) m \<longleftrightarrow> (if m = 255 then 16 \<le> n else bit_at ?bs m)" if "m < 256" for m
    using that put_five_bits(2) [OF out(2) that, of 255 ?v] out(3) bit_16 [OF n] by auto
  ultimately show ?thesis using put_five_bits(1) [OF out(2), of 0 255 ?v] by auto
qed

text \<open>
  C23. An identity has exactly sixteen spellings the parser takes: the canonical text with its last character
  replaced by any of the sixteen of the alphabet that carry the identity's last bit in their first, because
  the four padding bits of that character are ignored. So fifteen texts the printer never writes name every
  identity, and no others do.
\<close>

theorem uid_spellings:
  assumes "uid_ok u"
  shows "uid_parse s = Inr u \<longleftrightarrow>
    (\<exists>n<32. (16 \<le> n \<longleftrightarrow> bit_at (uid_bytes u) 255) \<and> s = butlast (uid_canonical u) @ [alphabet ! n])"
proof
  assume s: "uid_parse s = Inr u"
  then obtain body where body: "s = uid_prefix @ body" "length body = 52" "decode_body body 0 zero_bytes = Some (uid_bytes u)"
    by (cases u) (auto simp: uid_parse_def and_then_Inr_iff strip_prefix_Some_iff split: if_splits)
  then have split: "body = butlast body @ [last body]" by (metis append_butlast_last_id list.size(3) zero_neq_numeral)
  obtain v where v: "decode_char (last body) = Some v"
    using body(3) by (subst (asm) split) (auto simp: decode_body_append split: option.splits)
  then have n: "last body = alphabet ! unat v" "unat v < 32" using decode_char_Some by auto
  have "s = butlast s @ [last body]" using body(1,2) split by (metis append_assoc butlast_append list.size(3) zero_neq_numeral)
  then have text52: "s = butlast (uid_canonical u) @ [alphabet ! unat v]"
    using uid_parse_canonical_but_last [OF s] n(1) by simp
  obtain bs where "uid_parse s = Inr (Uid bs)" "\<forall>m<256. bit_at bs m \<longleftrightarrow> (if m = 255 then 16 \<le> unat v else bit_at (uid_bytes u) m)"
    using uid_parse_last [OF assms n(2)] unfolding text52 by blast
  moreover from this have "uid_bytes u = bs" using s by (cases u) simp
  ultimately have "16 \<le> unat v \<longleftrightarrow> bit_at (uid_bytes u) 255" by auto
  then show "\<exists>n<32. (16 \<le> n \<longleftrightarrow> bit_at (uid_bytes u) 255) \<and> s = butlast (uid_canonical u) @ [alphabet ! n]"
    using text52 n(2) by blast
next
  assume "\<exists>n<32. (16 \<le> n \<longleftrightarrow> bit_at (uid_bytes u) 255) \<and> s = butlast (uid_canonical u) @ [alphabet ! n]"
  then obtain n where n: "n < 32" "16 \<le> n \<longleftrightarrow> bit_at (uid_bytes u) 255" "s = butlast (uid_canonical u) @ [alphabet ! n]" by blast
  obtain bs where bs: "uid_parse s = Inr (Uid bs)" "length bs = 32" "\<forall>m<256. bit_at bs m \<longleftrightarrow> (if m = 255 then 16 \<le> n else bit_at (uid_bytes u) m)"
    using uid_parse_last [OF assms n(1)] unfolding n(3) by blast
  have "bs = uid_bytes u" by (rule bytes_eq_bits) (use bs n(2) assms in \<open>auto simp: uid_ok_def\<close>)
  then show "uid_parse s = Inr u" using bs(1) by (cases u) simp
qed

theorem uid_spellings_witness:
  "uid_parse (butlast (uid_canonical (Uid zero_bytes)) @ [alphabet ! 5]) = Inr (Uid zero_bytes) \<and>
   uid_parse (butlast (uid_canonical (Uid zero_bytes)) @ [alphabet ! 17]) \<noteq> Inr (Uid zero_bytes)"
proof -
  have ok: "uid_ok (Uid zero_bytes)" by (simp add: uid_ok_def zero_bytes_def)
  have "\<not> bit_at zero_bytes 255" by (simp add: zero_bytes_def bit_at_def)
  then have spell: "uid_parse s = Inr (Uid zero_bytes) \<longleftrightarrow>
      (\<exists>n<32. \<not> 16 \<le> n \<and> s = butlast (uid_canonical (Uid zero_bytes)) @ [alphabet ! n])" for s
    using uid_spellings [OF ok, of s] by simp
  have other: "alphabet ! n \<noteq> alphabet ! 17" if "n < 32" "n \<noteq> 17" for n
  proof
    assume "alphabet ! n = alphabet ! 17"
    then have "(word_of_nat n :: u8) = word_of_nat 17" using decode_char_alphabet [OF that(1)] decode_char_alphabet [of 17] by simp
    then have "unat (word_of_nat n :: u8) = unat (word_of_nat 17 :: u8)" by (rule arg_cong)
    then show False using that by (simp add: unat_of_nat)
  qed
  have "\<not> (\<exists>n<32. \<not> 16 \<le> n \<and> butlast (uid_canonical (Uid zero_bytes)) @ [alphabet ! 17] =
      butlast (uid_canonical (Uid zero_bytes)) @ [alphabet ! n])"
    using other by fastforce
  then show ?thesis unfolding spell by (auto intro!: exI [of _ 5])
qed

text \<open>The spelling of the zero identity with its last character changed, evaluated.\<close>

lemma uid_spelling_not_unique:
  "uid_parse (uid_prefix @ replicate 51 (CHR ''a'') @ ''b'') = Inr (Uid zero_bytes) \<and>
   uid_canonical (Uid zero_bytes) \<noteq> uid_prefix @ replicate 51 (CHR ''a'') @ ''b''"
proof -
  have "uid_canonical (Uid zero_bytes) = uid_prefix @ replicate 52 (CHR ''a'')"
    by (simp add: uid_canonical_def uid_encode_def base32_zero_bytes)
  moreover have "replicate 52 (CHR ''a'') \<noteq> replicate 51 (CHR ''a'') @ ''b''"
    by (simp add: eval_nat_numeral)
  ultimately show ?thesis using uid_parse_padding by simp
qed

text \<open>
  C16. The identities a prefix matches are exactly one interval of the byte order, the one
  \<open>UidPrefix::range\<close> computes, so a range scan of a store keyed by identity answers a prefix
  query as the filter over every key does.
\<close>

theorem prefix_matches_range:
  assumes u: "uid_ok u" and p: "length (up_bytes p) = 32" "up_bits p \<le> 256"
  shows "prefix_matches p u \<longleftrightarrow> fst (prefix_range p) \<le> u \<and> u \<le> snd (prefix_range p)"
proof -
  define f where "f = up_bits p div 8"
  define r where "r = up_bits p mod 8"
  have f: "f \<le> 32" using p by (simp add: f_def)
  let ?u = "uid_bytes u" and ?p = "up_bytes p"
  have eq: "take f ?p @ b \<le> ?u \<and> ?u \<le> take f ?p @ b' \<longleftrightarrow>
      take f ?u = take f ?p \<and> b \<le> drop f ?u \<and> drop f ?u \<le> b'" for b b'
  proof -
    have "length (take f ?p) = length (take f ?u)"
      using u p by (simp add: uid_ok_def)
    from lex_append [OF this, of b "drop f ?u"] lex_append [OF this [symmetric], of "drop f ?u" b']
    show ?thesis by auto
  qed
  show ?thesis
  proof (cases "r = 0")
    case True
    have "length (drop f ?u) = 32 - f" using u by (simp add: uid_ok_def)
    then have "replicate (32 - f) 0 \<le> drop f ?u" "drop f ?u \<le> replicate (32 - f) 255"
      using zeros_least [of "drop f ?u"] ones_greatest [of "drop f ?u"] by simp_all
    with True show ?thesis
      using eq [of "replicate (32 - f) 0" "replicate (32 - f) 255"]
      by (simp add: prefix_matches_def prefix_range_def Let_def flip: f_def r_def add: less_eq_uid_def)
  next
    case False
    have r: "0 < r" "r < 8" using False by (simp_all add: r_def)
    have f': "f < 32"
      using p(2) False unfolding f_def r_def by presburger
    then obtain n where n: "32 - f = Suc n" by (cases "32 - f") auto
    have len: "length (drop f ?u) = Suc n" using u n by (simp add: uid_ok_def)
    then obtain x xs where x: "drop f ?u = x # xs" "length xs = n"
      by (cases "drop f ?u") auto
    have x': "?u ! f = x" using x(1) f' u by (metis hd_drop_conv_nth list.sel(1) uid_ok_def)
    let ?lo = "?p ! f AND high_mask r" and ?hi = "(?p ! f AND high_mask r) OR NOT (high_mask r)"
    have upd: "(take f ?p @ replicate (32 - f) c)[f := d] = take f ?p @ d # replicate n c" for c d
      using p f' n by (simp add: list_update_append)
    have "?lo # replicate n 0 \<le> x # xs \<and> x # xs \<le> ?hi # replicate n 255 \<longleftrightarrow> ?lo \<le> x \<and> x \<le> ?hi"
      using zeros_least [of xs] ones_greatest [of xs] x(2) by auto
    also have "\<dots> \<longleftrightarrow> x AND high_mask r = ?p ! f AND high_mask r"
      using high_mask_interval [OF r] by simp
    finally show ?thesis
      using eq [of "?lo # replicate n 0" "?hi # replicate n 255"] r x x'
      by (simp add: prefix_matches_def prefix_range_def Let_def upd flip: f_def r_def add: less_eq_uid_def)
  qed
qed

theorem prefix_matches_range_witness:
  "prefix_matches \<lparr>up_bits = 130, up_bytes = replicate 32 85\<rparr> (Uid (replicate 32 85)) \<longleftrightarrow>
   fst (prefix_range \<lparr>up_bits = 130, up_bytes = replicate 32 85\<rparr>) \<le> Uid (replicate 32 85) \<and>
   Uid (replicate 32 85) \<le> snd (prefix_range \<lparr>up_bits = 130, up_bytes = replicate 32 85\<rparr>)"
  by (rule prefix_matches_range) (simp_all add: uid_ok_def)

end
