(* ===== verification/Quantise.thy ===== *)
theory Quantise
  imports Smysl_Prelude
begin

section \<open>Quantised weights\<close>

text \<open>
  \<open>quantise\<close>, \<open>is_quantised\<close>, \<open>MAX_QUANTISED\<close> and \<open>tokens\<close> of \<open>smysl-core/src/types/mod.rs\<close>. A
  binary32 value is its 32 bits, so that what the writer puts on the wire is the value itself and
  the two zeros stay apart; the magnitude of a finite value is a natural number of units of
  \<open>2 ^ -149\<close>, and the arithmetic the source uses (\<open>* 1024.0\<close>, \<open>/ 1024.0\<close>, \<open>round\<close>, \<open>fract\<close>) is that
  of IEEE 754 with round-to-nearest-even on those magnitudes.
\<close>

subsection \<open>Binary32\<close>

type_synonym f32 = u32

definition f32_sign :: "f32 \<Rightarrow> bool" where
  "f32_sign v \<longleftrightarrow> unat v \<ge> 2 ^ 31"

definition f32_low :: "f32 \<Rightarrow> nat" where
  "f32_low v = unat v mod 2 ^ 31"

definition f32_expo :: "f32 \<Rightarrow> nat" where
  "f32_expo v = f32_low v div 2 ^ 23"

definition f32_frac :: "f32 \<Rightarrow> nat" where
  "f32_frac v = f32_low v mod 2 ^ 23"

definition f32_is_finite :: "f32 \<Rightarrow> bool" where
  "f32_is_finite v \<longleftrightarrow> f32_expo v < 255"

definition f32_is_nan :: "f32 \<Rightarrow> bool" where
  "f32_is_nan v \<longleftrightarrow> f32_expo v = 255 \<and> f32_frac v \<noteq> 0"

text \<open>The magnitude of a finite value, in units of \<open>2 ^ -149\<close>; one is \<open>2 ^ 149\<close> units.\<close>

definition f32_mag :: "f32 \<Rightarrow> nat" where
  "f32_mag v = (if f32_expo v = 0 then f32_frac v else (2 ^ 23 + f32_frac v) * 2 ^ (f32_expo v - 1))"

definition round_even :: "nat \<Rightarrow> nat \<Rightarrow> nat" where
  "round_even m d = (let q = m div d; r = m mod d in
     if 2 * r < d \<or> 2 * r = d \<and> even q then q else q + 1)"

fun f32_shift :: "nat \<Rightarrow> nat" where
  "f32_shift m = (if m < 2 ^ 24 then 0 else Suc (f32_shift (m div 2)))"

declare f32_shift.simps [simp del]

text \<open>
  The nearest binary32 value of a magnitude, infinity above the largest. Rounding up to the next
  power of two carries into the exponent.
\<close>

definition f32_encode :: "bool \<Rightarrow> nat \<Rightarrow> f32" where
  "f32_encode s m =
     (let j = f32_shift m in
      word_of_nat ((if s then 2 ^ 31 else 0) + min (j * 2 ^ 23 + round_even m (2 ^ j)) 0x7F800000))"

definition f32_mul_1024 :: "f32 \<Rightarrow> f32" where
  "f32_mul_1024 v = f32_encode (f32_sign v) (f32_mag v * 1024)"

definition f32_div_1024 :: "f32 \<Rightarrow> f32" where
  "f32_div_1024 v = f32_encode (f32_sign v) (round_even (f32_mag v) 1024)"

text \<open>\<open>f32::round\<close>, half away from zero.\<close>

definition f32_round :: "f32 \<Rightarrow> f32" where
  "f32_round v = f32_encode (f32_sign v) ((f32_mag v + 2 ^ 148) div 2 ^ 149 * 2 ^ 149)"

text \<open>\<open>v.fract() == 0.0\<close>: an infinite value has the fraction NaN.\<close>

definition f32_fract_is_zero :: "f32 \<Rightarrow> bool" where
  "f32_fract_is_zero v \<longleftrightarrow> f32_is_finite v \<and> f32_mag v mod 2 ^ 149 = 0"

definition f32_neg :: "f32 \<Rightarrow> f32" where
  "f32_neg v = v + 0x80000000"

text \<open>\<open>v > 0.0\<close> for a value that is not NaN.\<close>

definition f32_positive :: "f32 \<Rightarrow> bool" where
  "f32_positive v \<longleftrightarrow> \<not> f32_sign v \<and> f32_low v \<noteq> 0"

subsection \<open>\<open>quantise\<close>\<close>

definition max_quantised :: f32 where
  "max_quantised = f32_div_1024 0x7F7FFFFF"

definition quantise :: "f32 \<Rightarrow> f32" where
  "quantise v =
     (if \<not> f32_is_finite v then
        (if f32_is_nan v then 0
         else if f32_positive v then max_quantised
         else f32_neg max_quantised)
      else
        (let scaled = f32_mul_1024 v in
         if \<not> f32_is_finite scaled then
           (if f32_positive v then max_quantised else f32_neg max_quantised)
         else f32_div_1024 (f32_round scaled)))"

definition is_quantised :: "f32 \<Rightarrow> bool" where
  "is_quantised v \<longleftrightarrow> f32_is_finite v \<and> f32_fract_is_zero (f32_mul_1024 v)"

text \<open>\<open>tokens\<close>: the length is cast to 32 bits before the division.\<close>

definition tokens :: "string \<Rightarrow> u32" where
  "tokens text = (let n = word_of_nat (length text) :: u32 in n div 4 + (if n mod 4 = 0 then 0 else 1))"

subsection \<open>Encoding magnitudes\<close>

lemma f32_shift_bounds:
  "f32_shift m = 0 \<and> m < 2 ^ 24 \<or> 2 ^ (23 + f32_shift m) \<le> m \<and> m < 2 ^ (24 + f32_shift m)"
proof (induction m rule: f32_shift.induct)
  case (1 m)
  show ?case
  proof (cases "m < 2 ^ 24")
    case True
    then show ?thesis by (simp add: f32_shift.simps)
  next
    case False
    let ?j = "f32_shift (m div 2)"
    have "2 ^ (23 + ?j) \<le> m div 2 \<and> m div 2 < 2 ^ (24 + ?j)"
      using "1.IH" [OF False] False by auto
    then have "2 ^ (23 + ?j) * 2 \<le> m" "m < 2 ^ (24 + ?j) * 2" by linarith+
    moreover have "f32_shift m = Suc ?j" using False by (simp add: f32_shift.simps [of m])
    ultimately show ?thesis by (simp add: power_add)
  qed
qed

definition f32_repr :: "nat \<Rightarrow> bool" where
  "f32_repr m \<longleftrightarrow> (\<exists>k j. k < 2 ^ 24 \<and> m = k * 2 ^ j \<and> j \<le> 253)"

lemma round_even_exact: "0 < d \<Longrightarrow> d dvd m \<Longrightarrow> round_even m d = m div d"
  by (auto simp: round_even_def)

lemma f32_shift_dvd:
  assumes "k < 2 ^ 24" "m = k * 2 ^ j"
  shows "2 ^ f32_shift m dvd m" "f32_shift m \<le> j"
proof -
  show "f32_shift m \<le> j"
  proof (cases "f32_shift m = 0")
    case False
    then have "(2::nat) ^ (23 + f32_shift m) \<le> m" using f32_shift_bounds [of m] by auto
    also have "m < 2 ^ (24 + j)" using assms by (simp add: power_add)
    finally have "23 + f32_shift m < 24 + j" by (rule power_less_imp_less_exp [rotated]) simp
    then show ?thesis by simp
  qed simp
  then show "2 ^ f32_shift m dvd m"
    using assms by (simp add: dvd_mult le_imp_power_dvd)
qed

lemma f32_low_parts:
  fixes j k :: nat
  assumes "k < 2 ^ 24" "j = 0 \<or> 2 ^ 23 \<le> k"
  shows "(j * 2 ^ 23 + k) div 2 ^ 23 = (if k < 2 ^ 23 then 0 else j + 1)"
    and "(j * 2 ^ 23 + k) mod 2 ^ 23 = (if k < 2 ^ 23 then k else k - 2 ^ 23)"
proof -
  have "(j * 2 ^ 23 + k) div 2 ^ 23 = j + k div 2 ^ 23" "(j * 2 ^ 23 + k) mod 2 ^ 23 = k mod 2 ^ 23"
    by simp_all
  moreover have "k div 2 ^ 23 = (if k < 2 ^ 23 then 0 else 1)"
    using assms by auto
  moreover have "k mod 2 ^ 23 = (if k < 2 ^ 23 then k else k - 2 ^ 23)"
    using assms by (simp add: mod_if)
  ultimately show "(j * 2 ^ 23 + k) div 2 ^ 23 = (if k < 2 ^ 23 then 0 else j + 1)"
      "(j * 2 ^ 23 + k) mod 2 ^ 23 = (if k < 2 ^ 23 then k else k - 2 ^ 23)"
    using assms by auto
qed

lemma f32_of_low:
  fixes n :: nat
  assumes "n < 2 ^ 31"
  shows "f32_sign (word_of_nat ((if s then 2 ^ 31 else 0) + n)) = s"
    and "f32_low (word_of_nat ((if s then 2 ^ 31 else 0) + n)) = n"
proof -
  have "unat (word_of_nat x :: f32) = x" if "x < 2 ^ 32" for x
    using that by (simp only: unat_of_nat) simp
  moreover have "(if s then 2 ^ 31 else 0) + n < 2 ^ 32"
    using assms by simp
  ultimately have "unat (word_of_nat ((if s then 2 ^ 31 else 0) + n) :: f32) = (if s then 2 ^ 31 else 0) + n"
    by blast
  then show "f32_sign (word_of_nat ((if s then 2 ^ 31 else 0) + n)) = s"
      "f32_low (word_of_nat ((if s then 2 ^ 31 else 0) + n)) = n"
    using assms by (auto simp: f32_sign_def f32_low_def)
qed

lemma f32_encode_repr:
  assumes "f32_repr m"
  shows "f32_sign (f32_encode s m) = s" "f32_mag (f32_encode s m) = m" "f32_is_finite (f32_encode s m)"
proof -
  from assms obtain k0 j0 where k0: "k0 < 2 ^ 24" "m = k0 * 2 ^ j0" "j0 \<le> 253"
    by (auto simp: f32_repr_def)
  define j where "j = f32_shift m"
  have dvd: "2 ^ j dvd m" and j: "j \<le> 253"
    using f32_shift_dvd [OF k0(1,2)] k0(3) by (simp_all add: j_def)
  define k where "k = m div 2 ^ j"
  have mk: "m = k * 2 ^ j" using dvd by (simp add: k_def)
  have kb: "k < 2 ^ 24 \<and> (j = 0 \<or> 2 ^ 23 \<le> k)"
  proof -
    have "j = 0 \<and> k * 2 ^ j < 2 ^ 24 \<or> 2 ^ 23 * 2 ^ j \<le> k * 2 ^ j \<and> k * 2 ^ j < 2 ^ 24 * 2 ^ j"
      using f32_shift_bounds [of m] by (simp add: power_add flip: j_def mk)
    then show ?thesis by auto
  qed
  have n: "j * 2 ^ 23 + k < 0x7F800000"
    using kb j by simp
  have enc: "f32_encode s m = word_of_nat ((if s then 2 ^ 31 else 0) + (j * 2 ^ 23 + k))"
    using n dvd by (simp add: f32_encode_def Let_def round_even_exact k_def flip: j_def)
  have low: "f32_sign (f32_encode s m) = s" "f32_low (f32_encode s m) = j * 2 ^ 23 + k"
    unfolding enc using f32_of_low [of "j * 2 ^ 23 + k" s] n by simp_all
  note parts = f32_low_parts [of k j]
  from low(1) show "f32_sign (f32_encode s m) = s" .
  show "f32_mag (f32_encode s m) = m"
  proof -
    have "f32_mag (f32_encode s m) = k * 2 ^ j"
      unfolding f32_mag_def f32_expo_def f32_frac_def low using kb parts by (cases "k < 2 ^ 23") simp_all
    then show ?thesis using mk by simp
  qed
  show "f32_is_finite (f32_encode s m)"
    using kb parts j by (simp add: f32_is_finite_def f32_expo_def low)
qed

lemma f32_repr_mag:
  assumes "f32_is_finite v"
  shows "f32_repr (f32_mag v)"
proof -
  have f: "f32_frac v < 2 ^ 23" by (simp add: f32_frac_def)
  show ?thesis
  proof (cases "f32_expo v = 0")
    case True
    with f have "f32_frac v < 2 ^ 24 \<and> f32_mag v = f32_frac v * 2 ^ 0"
      by (simp add: f32_mag_def)
    then show ?thesis unfolding f32_repr_def by (metis zero_le)
  next
    case False
    with f assms have "2 ^ 23 + f32_frac v < 2 ^ 24" "f32_expo v - 1 \<le> 253"
      by (simp_all add: f32_is_finite_def)
    moreover from False have "f32_mag v = (2 ^ 23 + f32_frac v) * 2 ^ (f32_expo v - 1)"
      by (simp add: f32_mag_def)
    ultimately show ?thesis unfolding f32_repr_def by blast
  qed
qed

lemma f32_eqI: "f32_sign v = f32_sign w \<Longrightarrow> f32_low v = f32_low w \<Longrightarrow> v = w"
proof -
  assume a: "f32_sign v = f32_sign w" "f32_low v = f32_low w"
  have "unat v < 2 ^ 32" "unat w < 2 ^ 32"
    using unsigned_less [of v] unsigned_less [of w] by simp_all
  with a have "unat v = unat w"
    unfolding f32_sign_def f32_low_def by (simp add: mod_if split: if_splits)
  then show ?thesis by (simp add: word_unat_eq_iff)
qed

lemma f32_shift_unique:
  assumes "2 ^ (23 + j) \<le> m" "m < 2 ^ (24 + j)"
  shows "f32_shift m = j"
proof (cases "f32_shift m = 0 \<and> m < 2 ^ 24")
  case True
  with assms(1) have "(2::nat) ^ (23 + j) < 2 ^ 24" by linarith
  then have "j = 0" using power_less_imp_less_exp [of 2 "23 + j" 24] by simp
  with True show ?thesis by simp
next
  case False
  then have b: "2 ^ (23 + f32_shift m) \<le> m" "m < 2 ^ (24 + f32_shift m)"
    using f32_shift_bounds [of m] by auto
  have "(2::nat) ^ (23 + j) < 2 ^ (24 + f32_shift m)" "(2::nat) ^ (23 + f32_shift m) < 2 ^ (24 + j)"
    using assms b by linarith+
  then have "23 + j < 24 + f32_shift m" "23 + f32_shift m < 24 + j"
    by (simp_all only: power_strict_increasing_iff [of "2::nat"] one_less_numeral_iff semiring_norm)
  then show ?thesis by simp
qed

lemma f32_low_mag:
  assumes "f32_is_finite v"
  shows "f32_low v = f32_shift (f32_mag v) * 2 ^ 23 + f32_mag v div 2 ^ f32_shift (f32_mag v)"
proof -
  have f: "f32_frac v < 2 ^ 23" by (simp add: f32_frac_def)
  have low: "f32_low v = f32_expo v * 2 ^ 23 + f32_frac v"
    unfolding f32_expo_def f32_frac_def by simp
  show ?thesis
  proof (cases "f32_expo v = 0")
    case True
    with f show ?thesis by (simp add: f32_mag_def low f32_shift.simps)
  next
    case False
    then have m: "f32_mag v = (2 ^ 23 + f32_frac v) * 2 ^ (f32_expo v - 1)"
      by (simp add: f32_mag_def)
    have sh: "f32_shift (f32_mag v) = f32_expo v - 1"
      using f by (intro f32_shift_unique) (simp_all add: m power_add)
    have "f32_low v = (f32_expo v - 1) * 2 ^ 23 + (2 ^ 23 + f32_frac v)"
      using False unfolding low by (cases "f32_expo v") simp_all
    then show ?thesis unfolding sh by (simp add: m)
  qed
qed

lemma f32_encode_mag: "f32_is_finite v \<Longrightarrow> f32_encode (f32_sign v) (f32_mag v) = v"
proof -
  assume fin: "f32_is_finite v"
  let ?w = "f32_encode (f32_sign v) (f32_mag v)"
  note r = f32_encode_repr [OF f32_repr_mag [OF fin], of "f32_sign v"]
  have "f32_low ?w = f32_low v"
    using f32_low_mag [OF fin] f32_low_mag [OF r(3)] r(2) by simp
  with r(1) show ?thesis by (intro f32_eqI)
qed

lemma f32_encode_overflow:
  assumes "2 ^ 277 \<le> m"
  shows "\<not> f32_is_finite (f32_encode s m)"
proof -
  have "\<not> m < 2 ^ 24"
    using assms power_increasing [of 24 277 "2::nat"] by linarith
  then have b: "2 ^ (23 + f32_shift m) \<le> m" "m < 2 ^ (24 + f32_shift m)"
    using f32_shift_bounds [of m] by auto
  then have "(2::nat) ^ 277 < 2 ^ (24 + f32_shift m)" using assms by linarith
  then have j: "254 \<le> f32_shift m"
    by (simp only: power_strict_increasing_iff [of "2::nat"] one_less_numeral_iff semiring_norm)
  have "2 ^ 23 \<le> m div 2 ^ f32_shift m"
    using b(1) by (simp add: less_eq_div_iff_mult_less_eq power_add)
  then have "2 ^ 23 \<le> round_even m (2 ^ f32_shift m)"
    by (auto simp: round_even_def Let_def)
  moreover have "254 * 2 ^ 23 \<le> f32_shift m * (2 ^ 23 :: nat)"
    using j by (rule mult_le_mono1)
  ultimately have "0x7F800000 \<le> f32_shift m * 2 ^ 23 + round_even m (2 ^ f32_shift m)"
    by simp
  then have "f32_encode s m = word_of_nat ((if s then 2 ^ 31 else 0) + 0x7F800000)"
    by (simp add: f32_encode_def Let_def min_absorb2)
  then have "f32_low (f32_encode s m) = 0x7F800000"
    using f32_of_low(2) [of "0x7F800000" s] by simp
  then show ?thesis by (simp add: f32_is_finite_def f32_expo_def)
qed

subsection \<open>The arithmetic is exact\<close>

lemma f32_mul_1024:
  assumes "f32_is_finite v"
  shows "f32_is_finite (f32_mul_1024 v) \<longleftrightarrow> f32_mag v * 1024 < 2 ^ 277"
    and "f32_mag v * 1024 < 2 ^ 277 \<Longrightarrow>
           f32_sign (f32_mul_1024 v) = f32_sign v \<and> f32_mag (f32_mul_1024 v) = f32_mag v * 1024"
proof -
  have small: "f32_repr (f32_mag v * 1024)" if lt: "f32_mag v * 1024 < 2 ^ 277"
  proof -
    have f: "f32_frac v < 2 ^ 23" by (simp add: f32_frac_def)
    show ?thesis
    proof (cases "f32_expo v = 0")
      case True
      with f have "f32_frac v < 2 ^ 24 \<and> f32_mag v * 1024 = f32_frac v * 2 ^ 10 \<and> (10::nat) \<le> 253"
        by (simp add: f32_mag_def)
      then show ?thesis unfolding f32_repr_def by blast
    next
      case False
      then have m: "f32_mag v * 1024 = (2 ^ 23 + f32_frac v) * 2 ^ (f32_expo v + 9)"
        by (cases "f32_expo v") (simp_all add: f32_mag_def power_add)
      have "(2::nat) ^ (23 + (f32_expo v + 9)) \<le> f32_mag v * 1024"
        unfolding m by (simp add: power_add)
      then have "(2::nat) ^ (23 + (f32_expo v + 9)) < 2 ^ 277" using lt by linarith
      then have "f32_expo v + 9 \<le> 253"
        by (simp only: power_strict_increasing_iff [of "2::nat"] one_less_numeral_iff semiring_norm)
      moreover have "2 ^ 23 + f32_frac v < 2 ^ 24" using f by simp
      ultimately show ?thesis unfolding f32_repr_def m by blast
    qed
  qed
  show "f32_is_finite (f32_mul_1024 v) \<longleftrightarrow> f32_mag v * 1024 < 2 ^ 277"
    unfolding f32_mul_1024_def
    using f32_encode_overflow f32_encode_repr(3) [OF small] by (meson linorder_not_less)
  show "f32_mag v * 1024 < 2 ^ 277 \<Longrightarrow>
      f32_sign (f32_mul_1024 v) = f32_sign v \<and> f32_mag (f32_mul_1024 v) = f32_mag v * 1024"
    using small f32_encode_repr by (simp add: f32_mul_1024_def)
qed

definition quantum_index :: "f32 \<Rightarrow> nat" where
  "quantum_index v = (f32_mag v * 1024 + 2 ^ 148) div 2 ^ 149"

lemma f32_repr_quantum:
  assumes "f32_repr m"
  shows "f32_repr ((m + 2 ^ 148) div 2 ^ 149 * 2 ^ 149)"
proof -
  from assms obtain k j where k: "k < 2 ^ 24" "m = k * 2 ^ j" "j \<le> 253"
    by (auto simp: f32_repr_def)
  show ?thesis
  proof (cases "149 \<le> j")
    case True
    then have "(2::nat) ^ j = 2 ^ (j - 149) * 2 ^ 149" by (metis le_add_diff_inverse2 power_add)
    then have "m = k * 2 ^ (j - 149) * 2 ^ 149" unfolding k(2) by (simp only: mult.assoc)
    then obtain c where c: "m = c * 2 ^ 149" by blast
    then have "(m + 2 ^ 148) div 2 ^ 149 * 2 ^ 149 = m" by simp
    then show ?thesis using assms by simp
  next
    case False
    then have "(2::nat) ^ j \<le> 2 ^ 148" by (intro power_increasing) auto
    then have "k * 2 ^ j \<le> 2 ^ 24 * 2 ^ 148" using k(1) by (intro mult_mono) auto
    then have "(m + 2 ^ 148) div 2 ^ 149 \<le> (2 ^ 24 * 2 ^ 148 + 2 ^ 148) div 2 ^ 149"
      using k(2) by (intro div_le_mono) simp
    also have "\<dots> < 2 ^ 24" by simp
    finally show ?thesis unfolding f32_repr_def by (intro exI [of _ "(m + 2 ^ 148) div 2 ^ 149"] exI [of _ 149]) simp
  qed
qed

lemma f32_repr_less_quantum: "f32_repr (q * 2 ^ 149) \<Longrightarrow> f32_repr (q * 2 ^ 139)"
proof -
  assume "f32_repr (q * 2 ^ 149)"
  then obtain k j where k: "k < 2 ^ 24" "q * 2 ^ 149 = k * 2 ^ j" "j \<le> 253"
    by (auto simp: f32_repr_def)
  show ?thesis
  proof (cases "10 \<le> j")
    case True
    then have "(2::nat) ^ j = 2 ^ (j - 10) * 2 ^ 10" by (metis le_add_diff_inverse2 power_add)
    then have "q * 2 ^ 139 * 2 ^ 10 = k * 2 ^ (j - 10) * (2 ^ 10 :: nat)"
      using k(2) by (simp add: mult.assoc)
    then have "q * 2 ^ 139 = k * 2 ^ (j - 10)" by simp
    moreover have "j - 10 \<le> 253" using k by simp
    ultimately show ?thesis unfolding f32_repr_def using k(1) by blast
  next
    case False
    then have "(2::nat) ^ j \<le> 2 ^ 9" by (intro power_increasing) auto
    then have "k * 2 ^ j \<le> 2 ^ 24 * 2 ^ 9" using k(1) by (intro mult_mono) auto
    then have "q = 0" using k(2) by (cases q) auto
    then show ?thesis unfolding f32_repr_def by (intro exI [of _ 0]) simp
  qed
qed

lemma quantise_finite:
  assumes "f32_is_finite v" "f32_mag v * 1024 < 2 ^ 277"
  shows "f32_sign (quantise v) = f32_sign v" "f32_mag (quantise v) = quantum_index v * 2 ^ 139"
    "f32_is_finite (quantise v)" "f32_repr (quantum_index v * 2 ^ 149)"
proof -
  note mul = f32_mul_1024 [OF assms(1)]
  let ?s = "f32_mul_1024 v"
  have fin: "f32_is_finite ?s" and sg: "f32_sign ?s = f32_sign v" and mg: "f32_mag ?s = f32_mag v * 1024"
    using mul assms by simp_all
  show r: "f32_repr (quantum_index v * 2 ^ 149)"
    using f32_repr_quantum [OF f32_repr_mag [OF fin]] by (simp add: mg quantum_index_def)
  have rd: "f32_round ?s = f32_encode (f32_sign v) (quantum_index v * 2 ^ 149)"
    by (simp add: f32_round_def sg mg quantum_index_def)
  have "quantise v = f32_encode (f32_sign v) (quantum_index v * 2 ^ 139)"
    using assms(1) fin f32_encode_repr [OF r]
    by (simp add: quantise_def rd f32_div_1024_def round_even_exact mult.commute)
  with f32_encode_repr [OF f32_repr_less_quantum [OF r]]
  show "f32_sign (quantise v) = f32_sign v" "f32_mag (quantise v) = quantum_index v * 2 ^ 139"
      "f32_is_finite (quantise v)" by simp_all
qed

lemma max_quantised_bits: "max_quantised = 0x7A7FFFFF"
proof -
  let ?m = "(2 ^ 24 - 1) * 2 ^ 243 :: nat"
  have e: "f32_expo 0x7F7FFFFF = 254" "f32_frac 0x7F7FFFFF = 2 ^ 23 - 1" "\<not> f32_sign 0x7F7FFFFF"
    and e': "f32_expo 0x7A7FFFFF = 244" "f32_frac 0x7A7FFFFF = 2 ^ 23 - 1" "\<not> f32_sign 0x7A7FFFFF"
    by (simp_all add: f32_expo_def f32_frac_def f32_sign_def f32_low_def)
  have "f32_mag 0x7F7FFFFF = ?m * 1024" by (simp add: f32_mag_def e)
  then have "round_even (f32_mag 0x7F7FFFFF) 1024 = ?m"
    by (simp add: round_even_exact)
  moreover have "f32_mag 0x7A7FFFFF = ?m" by (simp add: f32_mag_def e')
  ultimately have "max_quantised = f32_encode (f32_sign 0x7A7FFFFF) (f32_mag 0x7A7FFFFF)"
    using e(3) e'(3) by (simp add: max_quantised_def f32_div_1024_def)
  also have "\<dots> = 0x7A7FFFFF"
    by (rule f32_encode_mag) (simp add: f32_is_finite_def e')
  finally show ?thesis .
qed

lemma is_quantised_iff:
  "is_quantised v \<longleftrightarrow>
     f32_is_finite v \<and> f32_mag v * 1024 < 2 ^ 277 \<and> f32_mag v * 1024 mod 2 ^ 149 = 0"
  using f32_mul_1024 [of v] by (auto simp: is_quantised_def f32_fract_is_zero_def)

lemma is_quantised_max: "is_quantised max_quantised" "is_quantised (f32_neg max_quantised)"
proof -
  have b: "f32_low 0x7A7FFFFF = 0x7A7FFFFF" "f32_low 0xFA7FFFFF = 0x7A7FFFFF"
    by (simp_all add: f32_low_def)
  show "is_quantised max_quantised" "is_quantised (f32_neg max_quantised)"
    by (simp_all add: is_quantised_iff max_quantised_bits f32_neg_def f32_is_finite_def
        f32_mag_def f32_expo_def f32_frac_def b)
qed

lemma quantise_ok: "is_quantised (quantise v)"
proof (cases "f32_is_finite v \<and> f32_mag v * 1024 < 2 ^ 277")
  case True
  then have t: "f32_is_finite v" "f32_mag v * 1024 < 2 ^ 277" by blast+
  note q = quantise_finite [OF t]
  have eq: "f32_mag (quantise v) * 1024 = quantum_index v * 2 ^ 149"
    by (simp add: q(2))
  have "quantum_index v * 2 ^ 149 < 2 ^ 277"
    using f32_encode_overflow [of "quantum_index v * 2 ^ 149" False] f32_encode_repr(3) [OF q(4), of False]
    by (meson linorder_not_less)
  with q(3) show ?thesis unfolding is_quantised_iff eq by simp
next
  case False
  have zero: "is_quantised 0"
    by (simp add: is_quantised_iff f32_is_finite_def f32_mag_def f32_expo_def f32_frac_def f32_low_def)
  show ?thesis
  proof (cases "f32_is_finite v")
    case True
    with False f32_mul_1024(1) [OF True] show ?thesis
      using is_quantised_max by (simp add: quantise_def)
  next
    case False
    then show ?thesis using is_quantised_max zero by (simp add: quantise_def)
  qed
qed

lemma quantise_fix:
  assumes "is_quantised v"
  shows "quantise v = v"
proof -
  from assms have fin: "f32_is_finite v" and lt: "f32_mag v * 1024 < 2 ^ 277"
      and m: "f32_mag v * 1024 mod 2 ^ 149 = 0"
    by (simp_all add: is_quantised_iff)
  from m obtain c where c: "f32_mag v * 1024 = c * 2 ^ 149"
    by (metis mod_0_imp_dvd dvd_def mult.commute)
  then have "quantum_index v = c"
    by (simp add: quantum_index_def)
  moreover have "f32_mag v = c * 2 ^ 139"
    using c by simp
  ultimately have "f32_mag (quantise v) = f32_mag v"
    using quantise_finite(2) [OF fin lt] by simp
  with f32_encode_mag [OF fin] f32_encode_mag [OF quantise_finite(3) [OF fin lt]] show ?thesis
    by (simp add: quantise_finite(1) [OF fin lt])
qed

subsection \<open>Properties\<close>

text \<open>
  C18. \<open>quantise\<close> is total: whatever the 32 bits, NaN and the infinities included, what it returns
  is finite and a multiple of 1/1024 that survives the scaling, so the writer never emits a float
  its own reader refuses.
\<close>

theorem quantise_is_quantised: "is_quantised (quantise v)"
  by (rule quantise_ok)

text \<open>
  C19. A quantised value is a fixed point of \<open>quantise\<close>, bit for bit, so a value that was read from
  the wire is written as the same bytes.
\<close>

theorem quantise_fixes_quantised: "is_quantised v \<Longrightarrow> quantise v = v"
  by (rule quantise_fix)

theorem quantise_fixes_quantised_witness: "quantise 0x3F000000 = 0x3F000000"
  by (rule quantise_fixes_quantised)
     (simp add: is_quantised_iff f32_is_finite_def f32_mag_def f32_expo_def f32_frac_def f32_low_def)

text \<open>
  C20. \<open>quantise\<close> moves a value by at most half of 1/1024 (magnitudes are in units of \<open>2 ^ -149\<close>, so
  1/2048 is \<open>2 ^ 138\<close>) and keeps its sign bit, wherever scaling by 1024 does not overflow.
\<close>

theorem quantise_error_bound:
  assumes "f32_is_finite v" and "f32_is_finite (f32_mul_1024 v)"
  shows "f32_sign (quantise v) = f32_sign v \<and>
    f32_mag (quantise v) \<le> f32_mag v + 2 ^ 138 \<and> f32_mag v < f32_mag (quantise v) + 2 ^ 138"
proof -
  have lt: "f32_mag v * 1024 < 2 ^ 277"
    using assms f32_mul_1024(1) by blast
  note q = quantise_finite [OF assms(1) lt]
  let ?n = "f32_mag v * 1024 + 2 ^ 148 :: nat"
  have "?n div 2 ^ 149 * 2 ^ 149 \<le> ?n" by simp
  moreover have "?n < (?n div 2 ^ 149 + 1) * 2 ^ 149"
    by (simp add: dividend_less_div_times)
  ultimately show ?thesis
    using q(1,2) by (simp add: quantum_index_def)
qed

theorem quantise_error_bound_witness:
  "f32_sign (quantise 0x3DCCCCCD) = f32_sign 0x3DCCCCCD \<and>
    f32_mag (quantise 0x3DCCCCCD) \<le> f32_mag 0x3DCCCCCD + 2 ^ 138 \<and>
    f32_mag 0x3DCCCCCD < f32_mag (quantise 0x3DCCCCCD) + 2 ^ 138"
proof (rule quantise_error_bound)
  have fin: "f32_is_finite 0x3DCCCCCD"
    by (simp add: f32_is_finite_def f32_expo_def f32_low_def)
  then show "f32_is_finite 0x3DCCCCCD" .
  show "f32_is_finite (f32_mul_1024 0x3DCCCCCD)"
    unfolding f32_mul_1024(1) [OF fin] by (simp add: f32_mag_def f32_expo_def f32_frac_def f32_low_def)
qed

text \<open>
  The sign is kept even where the magnitude rounds to zero, so two weights on the two sides of zero
  that quantise to equal numbers still have different bits, and so different bytes on the wire.
\<close>

lemma quantise_keeps_negative_zero:
  "quantise 0x80000001 = 0x80000000" "quantise 0x00000001 = 0"
proof -
  have parts: "f32_is_finite v" "f32_mag v * 1024 < 2 ^ 277" "quantum_index v = 0"
    if "f32_low v = 1" for v
    using that by (simp_all add: f32_is_finite_def f32_mag_def f32_expo_def f32_frac_def quantum_index_def)
  have zero: "quantise v = f32_encode (f32_sign v) 0" if "f32_low v = 1" for v
    using quantise_finite(1,2,3) [OF parts(1,2)] parts(3) f32_encode_mag [of "quantise v"] that by simp
  show "quantise 0x80000001 = 0x80000000" "quantise 0x00000001 = 0"
    by (simp_all add: zero f32_low_def f32_sign_def f32_encode_def f32_shift.simps round_even_def)
qed

end
