(* ===== verification/Cbor.thy ===== *)
theory Cbor
  imports Uids Quantise
begin

section \<open>The CBOR codec\<close>

text \<open>
  The deterministic CBOR profile of \<open>smysl-core/src/cbor\<close>: the encoder \<open>Enc\<close>, each operation as the
  bytes it appends to its buffer, and the decoder \<open>Dec\<close>, a cursor over a byte string whose
  operations return an error with a position or a value and the moved cursor. The interface of an
  item that can be written and read is the locale \<open>item_codec\<close>: reading succeeds exactly where the
  writer's bytes stand. It gives unique decoding, arrays and sorted sets once for every kind of
  item. Unicode normalisation is a third-party crate: \<open>is_nfc\<close> and \<open>nfc\<close> are arguments.
\<close>

unbundle bit_operations_syntax

subsection \<open>Errors and the cursor\<close>

datatype nondet_reason =
    NonShortestInt | IndefiniteLength | UnsortedMapKeys | DuplicateMapKey | NullOptional
  | NonNfcText | UnsortedSet

datatype codec_error =
    MalformedEnvelope nat
  | NonDeterministic nat nondet_reason
  | FloatError nat
  | TruncatedUid nat nat
  | Truncated nat
  | NestingTooDeep nat nat

record dec =
  dbuf :: bytes
  dpos :: nat

definition dec_new :: "bytes \<Rightarrow> dec" where
  "dec_new buf = \<lparr>dbuf = buf, dpos = 0\<rparr>"

definition d_move :: "dec \<Rightarrow> nat \<Rightarrow> dec" where
  "d_move d n = d\<lparr>dpos := dpos d + n\<rparr>"

definition d_remaining :: "dec \<Rightarrow> nat" where
  "d_remaining d = length (dbuf d) - dpos d"

definition d_is_done :: "dec \<Rightarrow> bool" where
  "d_is_done d \<longleftrightarrow> dpos d \<ge> length (dbuf d)"

definition d_peek :: "dec \<Rightarrow> codec_error + u8" where
  "d_peek d = (if dpos d < length (dbuf d) then Inr (dbuf d ! dpos d) else Inl (Truncated (dpos d)))"

definition d_take :: "nat \<Rightarrow> dec \<Rightarrow> codec_error + bytes \<times> dec" where
  "d_take n d =
     (if dpos d + n \<ge> 2 ^ 64 then Inl (MalformedEnvelope (dpos d))
      else if dpos d + n > length (dbuf d) then Inl (Truncated (dpos d))
      else Inr (take n (drop (dpos d) (dbuf d)), d_move d n))"

subsection \<open>Heads\<close>

fun be_bytes :: "nat \<Rightarrow> nat \<Rightarrow> bytes" where
  "be_bytes 0 n = []"
| "be_bytes (Suc k) n = word_of_nat (n div 256 ^ k) # be_bytes k n"

definition be_nat :: "bytes \<Rightarrow> nat" where
  "be_nat bs = foldl (\<lambda>a b. a * 256 + unat b) 0 bs"

abbreviation (input) major_uint :: u8 where "major_uint \<equiv> 0"
abbreviation (input) major_negint :: u8 where "major_negint \<equiv> 1"
abbreviation (input) major_bytes :: u8 where "major_bytes \<equiv> 2"
abbreviation (input) major_text :: u8 where "major_text \<equiv> 3"
abbreviation (input) major_array :: u8 where "major_array \<equiv> 4"
abbreviation (input) major_map :: u8 where "major_map \<equiv> 5"
abbreviation (input) major_simple :: u8 where "major_simple \<equiv> 7"

definition enc_head :: "u8 \<Rightarrow> u64 \<Rightarrow> bytes" where
  "enc_head major arg =
     (let m = push_bit 5 major; n = unat arg in
      if n \<le> 23 then [m OR word_of_nat n]
      else if n \<le> 0xFF then (m OR 24) # be_bytes 1 n
      else if n \<le> 0xFFFF then (m OR 25) # be_bytes 2 n
      else if n \<le> 0xFFFFFFFF then (m OR 26) # be_bytes 4 n
      else (m OR 27) # be_bytes 8 n)"

text \<open>The argument that follows the head byte, refused when a shorter head would have held it.\<close>

definition d_head_arg :: "nat \<Rightarrow> nat \<Rightarrow> u8 \<Rightarrow> dec \<Rightarrow> codec_error + (u8 \<times> u64) \<times> dec" where
  "d_head_arg width least m d =
     and_then (d_take width d) (\<lambda>(s, d').
       if be_nat s < least then Inl (NonDeterministic (dpos d' - (width + 1)) NonShortestInt)
       else Inr ((m, word_of_nat (be_nat s)), d'))"

definition d_head :: "dec \<Rightarrow> codec_error + (u8 \<times> u64) \<times> dec" where
  "d_head d =
     and_then (d_peek d) (\<lambda>b.
       let m = drop_bit 5 b; ai = b AND 0x1F; d' = d_move d 1 in
       if ai = 31 then Inl (NonDeterministic (dpos d) IndefiniteLength)
       else if ai \<le> 23 then Inr ((m, ucast ai), d')
       else if ai = 24 then d_head_arg 1 24 m d'
       else if ai = 25 then d_head_arg 2 0x100 m d'
       else if ai = 26 then d_head_arg 4 0x10000 m d'
       else if ai = 27 then d_head_arg 8 0x100000000 m d'
       else Inl (MalformedEnvelope (dpos d')))"

definition d_expect :: "u8 \<Rightarrow> dec \<Rightarrow> codec_error + u64 \<times> dec" where
  "d_expect want d =
     and_then (d_head d) (\<lambda>((m, arg), d').
       if m \<noteq> want then Inl (MalformedEnvelope (dpos d)) else Inr (arg, d'))"

subsection \<open>What stands at the cursor\<close>

definition starts :: "dec \<Rightarrow> bytes \<Rightarrow> bool" where
  "starts d bs \<longleftrightarrow> take (length bs) (drop (dpos d) (dbuf d)) = bs"

text \<open>A buffer is shorter than the address space.\<close>

definition buf_ok :: "dec \<Rightarrow> bool" where
  "buf_ok d \<longleftrightarrow> length (dbuf d) < 2 ^ 64"

lemma buf_ok_move [simp]: "buf_ok (d_move d n) = buf_ok d"
  by (simp add: buf_ok_def d_move_def)

lemma d_move_simps [simp]:
  "dbuf (d_move d n) = dbuf d" "dpos (d_move d n) = dpos d + n"
  "d_move (d_move d n) k = d_move d (n + k)" "d_move d 0 = d"
  by (simp_all add: d_move_def add.assoc)

lemma d_move_eq [simp]: "d_move d n = d_move d k \<longleftrightarrow> n = k"
  by (auto simp: d_move_def dest: arg_cong [of _ _ dpos])

lemma starts_Nil [simp]: "starts d []"
  by (simp add: starts_def)

lemma starts_append [simp]: "starts d (a @ b) \<longleftrightarrow> starts d a \<and> starts (d_move d (length a)) b"
proof -
  have "take (length a + length b) (drop (dpos d) (dbuf d)) = a @ b \<longleftrightarrow>
      take (length a) (drop (dpos d) (dbuf d)) = a \<and> take (length b) (drop (length a + dpos d) (dbuf d)) = b"
  proof (cases "length a \<le> length (dbuf d) - dpos d")
    case True
    then show ?thesis by (simp add: take_add)
  next
    case False
    then have "length (take (length a + length b) (drop (dpos d) (dbuf d))) < length (a @ b)"
        "length (take (length a) (drop (dpos d) (dbuf d))) < length a" by simp_all
    then show ?thesis by (metis less_irrefl)
  qed
  then show ?thesis by (simp add: starts_def add.commute)
qed

lemma starts_length: "starts d bs \<Longrightarrow> bs \<noteq> [] \<Longrightarrow> dpos d + length bs \<le> length (dbuf d)"
proof -
  assume "starts d bs" "bs \<noteq> []"
  then have "min (length bs) (length (dbuf d) - dpos d) = length bs" "0 < length bs"
    unfolding starts_def by (metis length_drop length_take min.commute, simp)
  then show ?thesis by linarith
qed

lemma starts_Cons:
  "starts d (b # bs) \<longleftrightarrow> d_peek d = Inr b \<and> starts (d_move d 1) bs"
proof -
  have "starts d [b] \<longleftrightarrow> d_peek d = Inr b"
    by (auto simp: starts_def d_peek_def take_Suc_conv_app_nth hd_drop_conv_nth take_Suc drop_all)
  then show ?thesis
    using starts_append [of d "[b]" bs] by simp
qed

lemma d_peek_Inr: "d_peek d = Inr b \<longleftrightarrow> dpos d < length (dbuf d) \<and> b = dbuf d ! dpos d"
  by (auto simp: d_peek_def)

lemma d_take_Inr:
  assumes "buf_ok d"
  shows "d_take n d = Inr (s, d') \<longleftrightarrow>
    length s = n \<and> starts d s \<and> dpos d + n \<le> length (dbuf d) \<and> d' = d_move d n"
  using assms by (auto simp: d_take_def starts_def buf_ok_def)

lemma starts_unique:
  "starts d a \<Longrightarrow> starts d b \<Longrightarrow> length a = length b \<Longrightarrow> a = b"
  by (simp add: starts_def)

lemma starts_new: "starts (dec_new (bs @ r)) bs"
  by (simp add: starts_def dec_new_def)

lemma buf_ok_new [simp]: "buf_ok (dec_new bs) \<longleftrightarrow> length bs < 2 ^ 64"
  by (simp add: buf_ok_def dec_new_def)

subsection \<open>Big-endian numbers\<close>

lemma length_be_bytes [simp]: "length (be_bytes k n) = k"
  by (induction k) auto

lemma foldl_be: "foldl (\<lambda>a b. a * 256 + unat b) a bs = a * 256 ^ length bs + be_nat bs"
proof (induction bs arbitrary: a)
  case (Cons b bs)
  show ?case
    using Cons.IH [of "a * 256 + unat b"] Cons.IH [of "unat b"]
    by (simp add: be_nat_def distrib_right mult.assoc)
qed (simp add: be_nat_def)

lemma be_nat_simps [simp]:
  "be_nat [] = 0"
  "be_nat (b # bs) = unat b * 256 ^ length bs + be_nat bs"
  using foldl_be [of "unat b" bs] by (simp_all add: be_nat_def)

lemma be_nat_less: "be_nat bs < 256 ^ length bs"
proof (induction bs)
  case (Cons b bs)
  have "unat b * 256 ^ length bs + be_nat bs < (unat b + 1) * 256 ^ length bs"
    using Cons by simp
  also have "\<dots> \<le> 256 * 256 ^ length bs"
    using unat_lt256 [of b] by (intro mult_le_mono1) simp
  finally show ?case by simp
qed simp

lemma unat_word_of_nat_u8: "unat (word_of_nat n :: u8) = n mod 256"
  by (simp only: unat_of_nat) simp

lemma be_nat_be_bytes: "be_nat (be_bytes k n) = n mod 256 ^ k"
proof (induction k)
  case (Suc k)
  have "unat (word_of_nat (n div 256 ^ k) :: u8) = n div 256 ^ k mod 256"
    by (rule unat_word_of_nat_u8)
  then show ?case
    using Suc mod_mult2_eq [of n "256 ^ k" 256] by (simp add: mult.commute)
qed simp

lemma be_bytes_mod: "be_bytes k (a * 256 ^ k + n) = be_bytes k n"
proof (induction k arbitrary: a)
  case (Suc k)
  have "(n + a * 256 * 256 ^ k) div 256 ^ k = a * 256 + n div 256 ^ k"
    by (subst div_mult_self1) simp_all
  then have "(a * 256 ^ Suc k + n) div 256 ^ k = a * 256 + n div 256 ^ k"
    by (simp add: ac_simps)
  moreover have "(word_of_nat (a * 256 + n div 256 ^ k) :: u8) = word_of_nat (n div 256 ^ k)"
    by (rule word_unat_eq_iff [THEN iffD2]) (simp only: unat_word_of_nat_u8, simp)
  moreover have "be_bytes k (a * 256 ^ Suc k + n) = be_bytes k n"
    using Suc.IH [of "a * 256"] by (simp add: mult.assoc)
  ultimately show ?case by simp
qed simp

lemma be_bytes_be_nat: "be_bytes (length bs) (be_nat bs) = bs"
proof (induction bs)
  case (Cons b bs)
  have "(unat b * 256 ^ length bs + be_nat bs) div 256 ^ length bs = unat b"
    using be_nat_less [of bs] by simp
  then show ?case
    using Cons be_bytes_mod [of "length bs" "unat b" "be_nat bs"] by simp
qed simp

subsection \<open>A head is read exactly where its shortest form stands\<close>

definition head_info :: "nat \<Rightarrow> u8" where
  "head_info n = (if n \<le> 23 then word_of_nat n else if n \<le> 0xFF then 24 else if n \<le> 0xFFFF then 25
     else if n \<le> 0xFFFFFFFF then 26 else 27)"

definition head_width :: "nat \<Rightarrow> nat" where
  "head_width n = (if n \<le> 23 then 0 else if n \<le> 0xFF then 1 else if n \<le> 0xFFFF then 2
     else if n \<le> 0xFFFFFFFF then 4 else 8)"

lemma enc_head_parts:
  "enc_head m arg = (push_bit 5 m OR head_info (unat arg)) # be_bytes (head_width (unat arg)) (unat arg)"
  by (simp add: enc_head_def head_info_def head_width_def Let_def)

lemma not_bit_above: "unat (w :: u8) < 2 ^ k \<Longrightarrow> k \<le> n \<Longrightarrow> \<not> bit w n"
proof -
  assume "unat w < 2 ^ k" "k \<le> n"
  show ?thesis
  proof (cases "n < 8")
    case True
    note \<open>unat w < 2 ^ k\<close>
    also have "(2::nat) ^ k \<le> 2 ^ n" using \<open>k \<le> n\<close> by simp
    finally have "\<not> bit (unat w) n" by (simp add: bit_iff_odd)
    then show ?thesis by (simp add: bit_unsigned_iff)
  qed (auto dest: bit_imp_le_length)
qed

lemma head_byte_iff:
  fixes m ai b :: u8
  assumes "m < 8" "ai < 32"
  shows "push_bit 5 m OR ai = b \<longleftrightarrow> m = drop_bit 5 b \<and> ai = b AND 0x1F"
proof
  have m: "n < 3" if "bit m n" for n
    using not_bit_above [of m 3 n] assms(1) that by (auto simp: word_less_nat_alt not_le [symmetric])
  have a: "n < 5" if "bit ai n" for n
    using not_bit_above [of ai 5 n] assms(2) that by (auto simp: word_less_nat_alt not_le [symmetric])
  have x1f: "(0x1F :: u8) = mask 5" by (simp add: mask_eq_decr_exp)
  {
    assume b: "push_bit 5 m OR ai = b"
    have "drop_bit 5 b = m"
      unfolding b [symmetric] by (intro bit_word_eqI) (auto simp: bit_simps dest: m a)
    moreover have "b AND 0x1F = ai"
      unfolding b [symmetric] x1f by (intro bit_word_eqI) (auto simp: bit_simps not_le dest: a)
    ultimately show "m = drop_bit 5 b \<and> ai = b AND 0x1F" by simp
  }
  assume "m = drop_bit 5 b \<and> ai = b AND 0x1F"
  then show "push_bit 5 m OR ai = b"
    unfolding x1f by (auto intro!: bit_word_eqI simp: bit_simps)
qed

lemma byte_parts: "drop_bit 5 (b :: u8) < 8" "b AND 0x1F < (32 :: u8)"
proof -
  have "unat (drop_bit 5 b) < 8"
  proof -
    have "take_bit 8 (unat b) = unat b" using unat_lt256 [of b] by (intro take_bit_nat_eq_self) simp
    then have "unat (drop_bit 5 b) = unat b div 32"
      by (simp only: unsigned_drop_bit_eq) (simp add: drop_bit_eq_div)
    then show ?thesis using unat_lt256 [of b] by (simp add: less_mult_imp_div_less)
  qed
  then show "drop_bit 5 b < 8" by (simp add: word_less_nat_alt)
  have "unat (b AND 0x1F) \<le> 0x1F" by (rule word_and_le1 [THEN word_le_nat_alt [THEN iffD1], of b "0x1F", simplified])
  then show "b AND 0x1F < 32" by (simp add: word_less_nat_alt)
qed

lemma unat_head_info:
  "unat (head_info n) = (if n \<le> 23 then n else if n \<le> 0xFF then 24 else if n \<le> 0xFFFF then 25
     else if n \<le> 0xFFFFFFFF then 26 else 27)"
  by (simp add: head_info_def unat_word_of_nat_u8)

lemma head_info_less: "head_info n < 32"
  by (simp add: word_less_nat_alt unat_head_info)

lemma d_head_arg_Inr:
  assumes "buf_ok d" "0 < w" "w \<le> 8"
  shows "d_head_arg w least m d = Inr ((m', arg), d') \<longleftrightarrow>
    m' = m \<and> least \<le> unat arg \<and> unat arg < 256 ^ w \<and> starts d (be_bytes w (unat arg)) \<and> d' = d_move d w"
proof -
  have small: "unat (word_of_nat (be_nat s) :: u64) = be_nat s" if "length s = w" for s
  proof -
    have "be_nat s < 256 ^ w" using be_nat_less [of s] that by simp
    also have "(256::nat) ^ w \<le> 256 ^ 8" using assms by (intro power_increasing) auto
    finally show ?thesis by (simp only: unat_of_nat) simp
  qed
  have "(\<exists>s. length s = w \<and> starts d s \<and> dpos d + w \<le> length (dbuf d) \<and> \<not> be_nat s < least \<and>
            arg = word_of_nat (be_nat s)) \<longleftrightarrow>
        least \<le> unat arg \<and> unat arg < 256 ^ w \<and> starts d (be_bytes w (unat arg))" (is "?L \<longleftrightarrow> ?R")
  proof
    assume ?L
    then obtain s where s: "length s = w" "starts d s" "\<not> be_nat s < least" "arg = word_of_nat (be_nat s)"
      by blast
    then show ?R using small [OF s(1)] be_nat_less [of s] be_bytes_be_nat [of s] by simp
  next
    assume R: ?R
    let ?s = "be_bytes w (unat arg)"
    have "be_nat ?s = unat arg" using R by (simp add: be_nat_be_bytes)
    moreover have "dpos d + w \<le> length (dbuf d)"
    proof -
      have "?s \<noteq> []" using assms(2) by (cases w) auto
      with starts_length [of d ?s] R show ?thesis by simp
    qed
    ultimately have "length ?s = w \<and> starts d ?s \<and> dpos d + w \<le> length (dbuf d) \<and> \<not> be_nat ?s < least \<and>
        arg = word_of_nat (be_nat ?s)" using R by simp
    then show ?L by blast
  qed
  then show ?thesis
    using assms(1) by (auto simp: d_head_arg_def and_then_Inr_iff d_take_Inr split: if_splits)
qed

lemma d_head_Inr:
  assumes ok: "buf_ok d"
  shows "d_head d = Inr ((m, arg), d') \<longleftrightarrow>
    m < 8 \<and> starts d (enc_head m arg) \<and> d' = d_move d (length (enc_head m arg))"
proof (cases "d_peek d")
  case (Inl e)
  then show ?thesis by (simp add: d_head_def enc_head_parts starts_Cons)
next
  case (Inr b)
  let ?n = "unat arg" and ?ai = "b AND 0x1F"
  have rhs: "m < 8 \<and> starts d (enc_head m arg) \<and> d' = d_move d (length (enc_head m arg)) \<longleftrightarrow>
      m = drop_bit 5 b \<and> head_info ?n = ?ai \<and>
      starts (d_move d 1) (be_bytes (head_width ?n) ?n) \<and> d' = d_move (d_move d 1) (head_width ?n)"
    using head_byte_iff [of m "head_info ?n" b] head_info_less [of ?n] byte_parts(1) [of b] Inr
    by (auto simp: enc_head_parts starts_Cons)
  have n64: "?n < 256 ^ 8" using unsigned_less [of arg] by simp
  note arg_iff = d_head_arg_Inr [of "d_move d 1"]
  consider "?ai \<le> 23" | "?ai = 24" | "?ai = 25" | "?ai = 26" | "?ai = 27" | "28 \<le> unat ?ai"
  proof -
    have "unat ?ai \<le> 23 \<or> unat ?ai = 24 \<or> unat ?ai = 25 \<or> unat ?ai = 26 \<or> unat ?ai = 27 \<or> 28 \<le> unat ?ai"
      by linarith
    then show thesis using that by (auto simp: word_le_nat_alt word_unat_eq_iff)
  qed
  then have "d_head d = Inr ((m, arg), d') \<longleftrightarrow> m = drop_bit 5 b \<and> head_info ?n = ?ai \<and>
      starts (d_move d 1) (be_bytes (head_width ?n) ?n) \<and> d' = d_move (d_move d 1) (head_width ?n)"
  proof cases
    case 1
    then have le: "unat ?ai \<le> 23" by (simp add: word_le_nat_alt)
    have "head_info ?n = ?ai \<longleftrightarrow> ?n = unat ?ai"
      using le by (auto simp: word_unat_eq_iff unat_head_info)
    moreover have "unat (ucast ?ai :: u64) = unat ?ai"
      using unat_lt256 [of ?ai] by (simp only: unsigned_ucast_eq) (simp add: take_bit_nat_eq_self)
    ultimately have "head_info ?n = ?ai \<longleftrightarrow> arg = ucast ?ai"
      by (metis word_unat_eq_iff)
    moreover have "head_info ?n = ?ai \<Longrightarrow> head_width ?n = 0"
      using le \<open>head_info ?n = ?ai \<longleftrightarrow> ?n = unat ?ai\<close> by (simp add: head_width_def)
    moreover have "?ai \<noteq> 31" using 1 by auto
    ultimately show ?thesis
      using Inr 1 by (auto simp: d_head_def Let_def)
  next
    case 2
    have "head_info ?n = 24 \<longleftrightarrow> 24 \<le> ?n \<and> ?n < 256 ^ 1"
      by (auto simp: word_unat_eq_iff unat_head_info)
    then show ?thesis
      using Inr 2 ok arg_iff [of 1 24] by (auto simp: d_head_def Let_def head_width_def)
  next
    case 3
    have "head_info ?n = 25 \<longleftrightarrow> 0x100 \<le> ?n \<and> ?n < 256 ^ 2"
      by (auto simp: word_unat_eq_iff unat_head_info)
    then show ?thesis
      using Inr 3 ok arg_iff [of 2 "0x100"] by (auto simp: d_head_def Let_def head_width_def)
  next
    case 4
    have "head_info ?n = 26 \<longleftrightarrow> 0x10000 \<le> ?n \<and> ?n < 256 ^ 4"
      by (auto simp: word_unat_eq_iff unat_head_info)
    then show ?thesis
      using Inr 4 ok arg_iff [of 4 "0x10000"] by (auto simp: d_head_def Let_def head_width_def)
  next
    case 5
    have "head_info ?n = 27 \<longleftrightarrow> 0x100000000 \<le> ?n \<and> ?n < 256 ^ 8"
      using n64 by (auto simp: word_unat_eq_iff unat_head_info)
    then show ?thesis
      using Inr 5 ok arg_iff [of 8 "0x100000000"] by (auto simp: d_head_def Let_def head_width_def)
  next
    case 6
    then have "\<not> ?ai \<le> 23" "?ai \<noteq> 24" "?ai \<noteq> 25" "?ai \<noteq> 26" "?ai \<noteq> 27"
      by (auto simp: word_le_nat_alt)
    moreover have "head_info ?n \<noteq> ?ai"
      using 6 by (auto simp: word_unat_eq_iff unat_head_info)
    ultimately show ?thesis using Inr by (auto simp: d_head_def Let_def)
  qed
  with rhs show ?thesis by simp
qed

subsection \<open>Properties\<close>

text \<open>
  C14. A head is read exactly where its shortest form stands: \<open>Dec::head\<close> returns a major type and
  an argument if and only if the bytes at the cursor are the ones \<open>Enc::head\<close> writes for them, so
  no longer form of a number is ever accepted, and it consumes just those bytes.
\<close>

theorem head_read_iff:
  assumes "length (dbuf d) < 2 ^ 64"
  shows "d_head d = Inr ((m, arg), d') \<longleftrightarrow>
    m < 8 \<and> take (length (enc_head m arg)) (drop (dpos d) (dbuf d)) = enc_head m arg \<and>
    d' = d\<lparr>dpos := dpos d + length (enc_head m arg)\<rparr>"
  using d_head_Inr [of d m arg d'] assms by (simp add: buf_ok_def starts_def d_move_def)

theorem head_read_iff_witness:
  "d_head \<lparr>dbuf = [0x19, 0x01, 0x00, 0x07], dpos = 0\<rparr> = Inr ((0, 256), \<lparr>dbuf = [0x19, 0x01, 0x00, 0x07], dpos = 3\<rparr>)"
proof -
  have "be_bytes 2 256 = [0x01, 0x00]" by code_simp
  then have e: "enc_head 0 256 = [0x19, 0x01, 0x00]" by (simp add: enc_head_def Let_def)
  show ?thesis by (rule head_read_iff [THEN iffD2]) (simp_all add: e)
qed

end
