(* ===== verification/Cbor_Items.thy ===== *)
theory Cbor_Items
  imports Cbor "HOL-Library.Multiset"
begin

section \<open>CBOR items, arrays, sets and maps\<close>

text \<open>
  The scalar items of \<open>writer.rs\<close> and \<open>reader.rs\<close>, the array, sorted-set and map combinators with
  \<open>MapBuilder\<close>, and the locale \<open>item_codec\<close> that states once what a pair of a writer and a reader
  owes its callers. Every item is an interpretation of it.
\<close>

type_synonym i64 = "64 word"

subsection \<open>The interface of an item\<close>

locale item_codec =
  fixes rd :: "dec \<Rightarrow> codec_error + 'a \<times> dec"
    and wr :: "'a \<Rightarrow> bytes"
    and ok :: "'a \<Rightarrow> bool"
  assumes read_iff: "buf_ok d \<Longrightarrow>
    rd d = Inr (x, d') \<longleftrightarrow> ok x \<and> starts d (wr x) \<and> d' = d_move d (length (wr x))"
begin

lemma read_written:
  "ok x \<Longrightarrow> length (wr x @ r) < 2 ^ 64 \<Longrightarrow>
     rd (dec_new (wr x @ r)) = Inr (x, d_move (dec_new (wr x @ r)) (length (wr x)))"
  using read_iff [of "dec_new (wr x @ r)"] by (simp add: starts_new)

lemma prefix_free:
  assumes "ok x" "ok y" "wr x @ r = wr y @ s" "length (wr x @ r) < 2 ^ 64"
  shows "x = y"
  using read_written [of x r] read_written [of y s] assms by simp

lemma read_move: "buf_ok d \<Longrightarrow> rd d = Inr (x, d') \<Longrightarrow> d' = d_move d (length (wr x)) \<and> ok x \<and> starts d (wr x)"
  using read_iff by blast

end

text \<open>
  The weaker contract of a record decoder, which also accepts spellings its writer never writes:
  what it reads is a value the writer can write (\<open>reader\<close>), and a written value is read back
  (\<open>writable\<close>). \<open>readable\<close> is both over the same values.
\<close>

abbreviation moves :: "dec \<Rightarrow> dec \<Rightarrow> bool" where
  "moves d d' \<equiv> buf_ok d' \<and> dbuf d' = dbuf d \<and> dpos d \<le> dpos d' \<and>
     (dpos d \<le> length (dbuf d) \<longrightarrow> dpos d' \<le> length (dbuf d))"

lemma moves_written: "starts d bs \<Longrightarrow> buf_ok d \<Longrightarrow> moves d (d_move d (length bs))"
  using starts_length [of d bs] by (cases "bs = []") simp_all

locale reader =
  fixes rd :: "dec \<Rightarrow> codec_error + 'a \<times> dec"
    and ok :: "'a \<Rightarrow> bool"
  assumes reads_ok: "rd d = Inr (x, d') \<Longrightarrow> buf_ok d \<Longrightarrow> ok x \<and> moves d d'"

locale writable =
  fixes rd :: "dec \<Rightarrow> codec_error + 'a \<times> dec"
    and ok :: "'a \<Rightarrow> bool"
    and wr :: "'a \<Rightarrow> bytes"
  assumes written: "ok x \<Longrightarrow> starts d (wr x) \<Longrightarrow> buf_ok d \<Longrightarrow> rd d = Inr (x, d_move d (length (wr x)))"
begin

lemma written_new:
  "ok x \<Longrightarrow> length (wr x @ r) < 2 ^ 64 \<Longrightarrow>
     rd (dec_new (wr x @ r)) = Inr (x, d_move (dec_new (wr x @ r)) (length (wr x)))"
  by (rule written) (simp_all add: starts_new)

lemma distinguishes:
  assumes "ok x" "ok y" "wr x = wr y" "length (wr x) < 2 ^ 64"
  shows "x = y"
  using written_new [of x "[]"] written_new [of y "[]"] assms by simp

end

locale readable = reader rd ok + writable rd ok wr
  for rd :: "dec \<Rightarrow> codec_error + 'a \<times> dec" and ok wr
begin

lemma rewritten: "rd d = Inr (x, d') \<Longrightarrow> buf_ok d \<Longrightarrow> length (wr x @ r) < 2 ^ 64 \<Longrightarrow>
    rd (dec_new (wr x @ r)) = Inr (x, d_move (dec_new (wr x @ r)) (length (wr x)))"
  using written_new reads_ok by blast

end

sublocale item_codec \<subseteq> readable rd ok wr
proof
  fix d x d'
  assume "rd d = Inr (x, d')" "buf_ok d"
  then show "ok x \<and> moves d d'"
    using moves_written [of d "wr x"] by (simp add: read_iff)
qed (simp add: read_iff)

subsection \<open>Integers, byte strings, text, floats, identities\<close>

definition enc_uint :: "u64 \<Rightarrow> bytes" where
  "enc_uint v = enc_head major_uint v"

definition d_uint :: "dec \<Rightarrow> codec_error + u64 \<times> dec" where
  "d_uint d = d_expect major_uint d"

definition enc_int :: "i64 \<Rightarrow> bytes" where
  "enc_int v =
     (if sint v \<ge> 0 then enc_head major_uint v
      else enc_head major_negint (word_of_int (- sint v - 1)))"

definition d_int :: "dec \<Rightarrow> codec_error + i64 \<times> dec" where
  "d_int d =
     and_then (d_head d) (\<lambda>((m, arg), d').
       if m = major_uint then
         (if uint arg < 2 ^ 63 then Inr (arg, d') else Inl (MalformedEnvelope (dpos d)))
       else if m = major_negint then
         (let v = - uint arg - 1 in
          if v \<ge> - (2 ^ 63) then Inr (word_of_int v, d') else Inl (MalformedEnvelope (dpos d)))
       else Inl (MalformedEnvelope (dpos d)))"

definition enc_bytes :: "bytes \<Rightarrow> bytes" where
  "enc_bytes b = enc_head major_bytes (word_of_nat (length b)) @ b"

definition d_bytes :: "dec \<Rightarrow> codec_error + bytes \<times> dec" where
  "d_bytes d = and_then (d_expect major_bytes d) (\<lambda>(n, d'). d_take (unat n) d')"

text \<open>
  \<open>core::str::from_utf8\<close>: the width of the well-formed character the bytes begin with, zero when
  they begin with none.
\<close>

definition is_cont :: "u8 \<Rightarrow> bool" where
  "is_cont b \<longleftrightarrow> 0x80 \<le> b \<and> b \<le> 0xBF"

fun utf8_width :: "bytes \<Rightarrow> nat" where
  "utf8_width [] = 0"
| "utf8_width (b # bs) =
     (if b < 0x80 then 1
      else if 0xC2 \<le> b \<and> b \<le> 0xDF then
        (case bs of c # _ \<Rightarrow> if is_cont c then 2 else 0 | _ \<Rightarrow> 0)
      else if 0xE0 \<le> b \<and> b \<le> 0xEF then
        (case bs of c # c' # _ \<Rightarrow>
           if is_cont c \<and> is_cont c' \<and> (b = 0xE0 \<longrightarrow> 0xA0 \<le> c) \<and> (b = 0xED \<longrightarrow> c \<le> 0x9F) then 3 else 0
         | _ \<Rightarrow> 0)
      else if 0xF0 \<le> b \<and> b \<le> 0xF4 then
        (case bs of c # c' # c'' # _ \<Rightarrow>
           if is_cont c \<and> is_cont c' \<and> is_cont c'' \<and> (b = 0xF0 \<longrightarrow> 0x90 \<le> c) \<and> (b = 0xF4 \<longrightarrow> c \<le> 0x8F)
           then 4 else 0
         | _ \<Rightarrow> 0)
      else 0)"

function utf8_valid :: "bytes \<Rightarrow> bool" where
  "utf8_valid bs =
     (if bs = [] then True
      else if utf8_width bs = 0 then False
      else utf8_valid (drop (utf8_width bs) bs))"
  by pat_completeness auto
termination
  by (relation "measure length") auto

declare utf8_valid.simps [simp del]

definition str_bytes :: "string \<Rightarrow> bytes" where
  "str_bytes s = map (\<lambda>c. word_of_nat (char_code c)) s"

definition bytes_str :: "bytes \<Rightarrow> string" where
  "bytes_str bs = map (\<lambda>b. char_of (unat b)) bs"

definition enc_text :: "(string \<Rightarrow> bool) \<Rightarrow> (string \<Rightarrow> string) \<Rightarrow> string \<Rightarrow> bytes" where
  "enc_text is_nfc nfc s =
     (if is_nfc s then enc_head major_text (word_of_nat (length s)) @ str_bytes s
      else enc_head major_text (word_of_nat (length (nfc s))) @ str_bytes (nfc s))"

definition d_text :: "(string \<Rightarrow> bool) \<Rightarrow> dec \<Rightarrow> codec_error + string \<times> dec" where
  "d_text is_nfc d =
     and_then (d_expect major_text d) (\<lambda>(n, d1).
     and_then (d_take (unat n) d1) (\<lambda>(raw, d2).
       if \<not> utf8_valid raw then Inl (MalformedEnvelope (dpos d))
       else if \<not> is_nfc (bytes_str raw) then Inl (NonDeterministic (dpos d) NonNfcText)
       else Inr (bytes_str raw, d2)))"

definition enc_f32q :: "f32 \<Rightarrow> bytes" where
  "enc_f32q v = 0xFA # be_bytes 4 (unat (quantise v))"

definition d_f32q :: "dec \<Rightarrow> codec_error + f32 \<times> dec" where
  "d_f32q d =
     and_then (d_peek d) (\<lambda>b.
       if b \<noteq> 0xFA then Inl (FloatError (dpos d))
       else and_then (d_take 4 (d_move d 1)) (\<lambda>(s, d').
         let v = word_of_nat (be_nat s) in
         if \<not> is_quantised v then Inl (FloatError (dpos d)) else Inr (v, d')))"

definition enc_uid :: "uid \<Rightarrow> bytes" where
  "enc_uid u = enc_bytes (uid_bytes u)"

definition d_uid :: "dec \<Rightarrow> codec_error + uid \<times> dec" where
  "d_uid d =
     and_then (d_bytes d) (\<lambda>(b, d').
       if length b = 32 then Inr (Uid b, d') else Inl (TruncatedUid (dpos d) (length b)))"

subsection \<open>Scalars are items\<close>

lemma d_expect_Inr:
  assumes "buf_ok d" "want < 8"
  shows "d_expect want d = Inr (arg, d') \<longleftrightarrow>
    starts d (enc_head want arg) \<and> d' = d_move d (length (enc_head want arg))"
  using assms by (auto simp: d_expect_def and_then_Inr_iff d_head_Inr split: if_splits)

lemma unat_length64: "n < 2 ^ 64 \<Longrightarrow> unat (word_of_nat n :: u64) = n"
  by (simp only: unat_of_nat) simp

lemma d_take_after:
  assumes "buf_ok d" "starts d h"
  shows "d_take n (d_move d (length h)) = Inr (s, d') \<longleftrightarrow>
    length s = n \<and> starts d (h @ s) \<and> dpos d + length h + n \<le> length (dbuf d) \<and> d' = d_move d (length (h @ s))"
  using assms by (auto simp: d_take_Inr)

lemma d_counted_Inr:
  assumes d: "buf_ok d" and m: "m < 8"
  shows "(\<exists>n d1. d_expect m d = Inr (n, d1) \<and> d_take (unat n) d1 = Inr (s, d')) \<longleftrightarrow>
    length s < 2 ^ 64 \<and> starts d (enc_head m (word_of_nat (length s)) @ s) \<and>
    d' = d_move d (length (enc_head m (word_of_nat (length s)) @ s))" (is "?L \<longleftrightarrow> ?R")
proof
  assume ?L
  then obtain n where st: "starts d (enc_head m n)"
    and tk: "d_take (unat n) (d_move d (length (enc_head m n))) = Inr (s, d')"
    by (auto simp: d_expect_Inr [OF d m])
  then have len: "length s = unat n" and r: "starts d (enc_head m n @ s)" "d' = d_move d (length (enc_head m n @ s))"
    unfolding d_take_after [OF d st] by blast+
  have "word_of_nat (length s) = n" "length s < 2 ^ 64"
    using len unsigned_less [of n] by simp_all
  with r show ?R by simp
next
  assume R: ?R
  let ?n = "word_of_nat (length s) :: u64"
  have st: "starts d (enc_head m ?n)" and n: "unat ?n = length s"
    using R by (simp_all add: unat_length64)
  have "enc_head m ?n @ s \<noteq> []" by (simp add: enc_head_parts)
  then have "dpos d + length (enc_head m ?n @ s) \<le> length (dbuf d)"
    using starts_length R by blast
  then have "d_take (unat ?n) (d_move d (length (enc_head m ?n))) = Inr (s, d')"
    unfolding d_take_after [OF d st] using R n by simp
  with st show ?L by (auto simp: d_expect_Inr [OF d m])
qed

interpretation uint_item: item_codec d_uint enc_uint "\<lambda>_. True"
  by unfold_locales (simp add: d_uint_def enc_uint_def d_expect_Inr)

interpretation bytes_item: item_codec d_bytes enc_bytes "\<lambda>b. length b < 2 ^ 64"
proof
  fix d x d'
  assume "buf_ok d"
  from d_counted_Inr [OF this, of major_bytes x d']
  show "d_bytes d = Inr (x, d') \<longleftrightarrow>
      length x < 2 ^ 64 \<and> starts d (enc_bytes x) \<and> d' = d_move d (length (enc_bytes x))"
    by (simp add: d_bytes_def enc_bytes_def and_then_Inr_iff split_paired_Ex)
qed

lemma char_code_less: "char_code c < 256"
  by (simp add: char_code_def)

lemma bytes_str_str_bytes [simp]: "bytes_str (str_bytes s) = s" "str_bytes (bytes_str b) = b"
proof -
  have "char_of (unat (word_of_nat (char_code c) :: u8)) = c" for c
    using char_code_less [of c] by (simp only: unat_word_of_nat_u8) (simp add: char_code_def)
  then show "bytes_str (str_bytes s) = s"
    by (simp add: bytes_str_def str_bytes_def o_def)
  have "word_of_nat (char_code (char_of (unat b))) = b" for b :: u8
    using unat_lt256 [of b] by (simp add: char_code_def)
  then show "str_bytes (bytes_str b) = b"
    by (simp add: bytes_str_def str_bytes_def o_def)
qed

lemma length_str_bytes [simp]: "length (str_bytes s) = length s" "length (bytes_str b) = length b"
  by (simp_all add: str_bytes_def bytes_str_def)

definition text_ok :: "(string \<Rightarrow> bool) \<Rightarrow> string \<Rightarrow> bool" where
  "text_ok is_nfc s \<longleftrightarrow> is_nfc s \<and> utf8_valid (str_bytes s) \<and> length s < 2 ^ 64"

text \<open>Text is read where its normalised form stands, whatever the normal form is.\<close>

interpretation text_item: item_codec "d_text is_nfc" "enc_text is_nfc nfc" "text_ok is_nfc" for is_nfc nfc
proof
  fix d x d'
  assume ok: "buf_ok d"
  have "d_text is_nfc d = Inr (x, d') \<longleftrightarrow>
      (\<exists>n d1. d_expect major_text d = Inr (n, d1) \<and> d_take (unat n) d1 = Inr (str_bytes x, d')) \<and>
      utf8_valid (str_bytes x) \<and> is_nfc x"
    by (auto simp: d_text_def and_then_Inr_iff split: if_splits)
      (metis bytes_str_str_bytes(1))
  then show "d_text is_nfc d = Inr (x, d') \<longleftrightarrow> text_ok is_nfc x \<and> starts d (enc_text is_nfc nfc x) \<and>
      d' = d_move d (length (enc_text is_nfc nfc x))"
    using d_counted_Inr [OF ok, of major_text "str_bytes x" d']
    by (auto simp: text_ok_def enc_text_def)
qed

lemma sint_i64: "sint v = (if uint v < 2 ^ 63 then uint v else uint v - 2 ^ 64)" for v :: i64
proof -
  have lt: "uint v < 2 ^ 64" using uint_range_size [of v] by (simp add: word_size)
  have "bit (uint v) 63 \<longleftrightarrow> 2 ^ 63 \<le> uint v"
  proof -
    have "uint v div 2 ^ 63 = (if uint v < 2 ^ 63 then 0 else 1)"
    proof (cases "uint v < 2 ^ 63")
      case True
      then show ?thesis by (simp add: div_pos_pos_trivial)
    next
      case False
      then have "uint v div 2 ^ 63 = 1 + (uint v - 2 ^ 63) div 2 ^ 63"
        using div_add_self1 [of "2 ^ 63 :: int" "uint v - 2 ^ 63"] by simp
      with False lt show ?thesis by (simp add: div_pos_pos_trivial)
    qed
    then show ?thesis by (simp add: bit_iff_odd)
  qed
  moreover have "take_bit 64 (uint v) = uint v" using lt by (simp add: take_bit_int_eq_self)
  ultimately show ?thesis
    by (simp add: sint_uint signed_take_bit_eq_take_bit_minus)
qed

lemma uint_nonneg_i64: "- 1 < uint (v :: u64)"
  by (rule order.strict_trans2 [OF _ unsigned_greater_eq]) simp

lemma uint_of_int64: "uint (word_of_int k :: u64) = k mod 2 ^ 64"
  by (simp only: uint_word_of_int) simp

lemma negint_arg:
  fixes x arg :: u64
  assumes "sint x < 0"
  shows "uint arg < 2 ^ 63 \<and> x = word_of_int (- uint arg - 1) \<longleftrightarrow> arg = word_of_int (- sint x - 1)" (is "?L \<longleftrightarrow> ?R")
proof
  assume L: ?L
  have "uint x = uint (word_of_int (- uint arg - 1) :: u64)" using L by blast
  also have "\<dots> = (- uint arg - 1) mod 2 ^ 64" by (rule uint_of_int64)
  also have "\<dots> = (2 ^ 64 - 1 - uint arg) mod 2 ^ 64"
    using mod_add_self1 [of "2 ^ 64 :: int" "- uint arg - 1"] by (simp add: algebra_simps)
  also have "\<dots> = 2 ^ 64 - 1 - uint arg"
    using L uint_nonneg_i64 [of arg] by (intro mod_pos_pos_trivial) simp_all
  finally have "- sint x - 1 = uint arg" using L by (simp add: sint_i64)
  then show ?R by simp
next
  assume R: ?R
  have x: "2 ^ 63 \<le> uint x" "uint x < 2 ^ 64" "sint x = uint x - 2 ^ 64"
    using assms uint_range_size [of x] by (auto simp: sint_i64 word_size split: if_splits)
  have "uint arg = (- sint x - 1) mod 2 ^ 64" unfolding R by (rule uint_of_int64)
  also have "\<dots> = - sint x - 1" using x by (intro mod_pos_pos_trivial) auto
  finally have u: "uint arg = - sint x - 1" .
  then have "word_of_int (- uint arg - 1) = (word_of_int (sint x) :: i64)" by simp
  with u x show ?L by simp
qed

interpretation int_item: item_codec d_int enc_int "\<lambda>_. True"
proof
  fix d and x :: i64 and d'
  assume ok: "buf_ok d"
  have d_int: "d_int d = Inr (x, d') \<longleftrightarrow>
      (\<exists>m arg. starts d (enc_head m arg) \<and> d' = d_move d (length (enc_head m arg)) \<and>
         (m = major_uint \<and> uint arg < 2 ^ 63 \<and> x = arg \<or>
          m = major_negint \<and> uint arg < 2 ^ 63 \<and> x = word_of_int (- uint arg - 1)))"
  proof -
    have "d_int d = Inr (x, d') \<longleftrightarrow> (\<exists>m arg. d_head d = Inr ((m, arg), d') \<and>
         (m = major_uint \<and> uint arg < 2 ^ 63 \<and> x = arg \<or>
          m = major_negint \<and> uint arg < 2 ^ 63 \<and> x = word_of_int (- uint arg - 1)))"
    proof (cases "d_head d")
      case (Inr r)
      then show ?thesis
        by (cases r; cases "fst r") (auto simp: d_int_def Let_def)
    qed (simp add: d_int_def)
    then show ?thesis unfolding d_head_Inr [OF ok] by (simp only:) (intro iff_exI, auto)
  qed
  show "d_int d = Inr (x, d') \<longleftrightarrow> True \<and> starts d (enc_int x) \<and> d' = d_move d (length (enc_int x))"
  proof (cases "0 \<le> sint x")
    case True
    then have u: "uint x < 2 ^ 63" using uint_range_size [of x] by (auto simp: sint_i64 word_size split: if_splits)
    have "x \<noteq> word_of_int (- uint arg - 1)" if "uint arg < 2 ^ 63" for arg :: u64
    proof
      assume x: "x = word_of_int (- uint arg - 1)"
      have "(- uint arg - 1) mod 2 ^ 64 = (2 ^ 64 - 1 - uint arg) mod 2 ^ 64"
        using mod_add_self1 [of "2 ^ 64 :: int" "- uint arg - 1"] by (simp add: algebra_simps)
      also have "\<dots> = 2 ^ 64 - 1 - uint arg" using that uint_nonneg_i64 [of arg] by (intro mod_pos_pos_trivial) simp_all
      finally have "uint x = 2 ^ 64 - 1 - uint arg" unfolding x uint_of_int64 .
      with u that show False by simp
    qed
    with True u show ?thesis unfolding d_int by (auto simp: enc_int_def)
  next
    case False
    then have neg: "sint x < 0" by simp
    then have "\<not> uint x < 2 ^ 63" by (auto simp: sint_i64)
    with False show ?thesis unfolding d_int using negint_arg [OF neg] by (auto simp: enc_int_def)
  qed
qed

interpretation uid_item: item_codec d_uid enc_uid uid_ok
proof
  fix d x d'
  assume ok: "buf_ok d"
  have "d_uid d = Inr (x, d') \<longleftrightarrow> d_bytes d = Inr (uid_bytes x, d') \<and> length (uid_bytes x) = 32"
    by (cases x) (auto simp: d_uid_def and_then_Inr_iff split: if_splits)
  then show "d_uid d = Inr (x, d') \<longleftrightarrow> uid_ok x \<and> starts d (enc_uid x) \<and> d' = d_move d (length (enc_uid x))"
    using bytes_item.read_iff [OF ok, of "uid_bytes x" d'] by (auto simp: uid_ok_def enc_uid_def)
qed

lemma unat_length32: "n < 2 ^ 32 \<Longrightarrow> unat (word_of_nat n :: u32) = n"
  by (simp only: unat_of_nat) simp

interpretation f32q_item: item_codec d_f32q enc_f32q is_quantised
proof
  fix d and x :: f32 and d'
  assume ok: "buf_ok d"
  have x: "unat x < 256 ^ 4" using unsigned_less [of x] by simp
  have "d_f32q d = Inr (x, d') \<longleftrightarrow>
      d_peek d = Inr 0xFA \<and> is_quantised x \<and>
      (\<exists>s. d_take 4 (d_move d 1) = Inr (s, d') \<and> x = word_of_nat (be_nat s))"
    by (auto simp: d_f32q_def and_then_Inr_iff Let_def split: if_splits)
  also have "(\<exists>s. d_take 4 (d_move d 1) = Inr (s, d') \<and> x = word_of_nat (be_nat s)) \<longleftrightarrow>
      starts (d_move d 1) (be_bytes 4 (unat x)) \<and> d' = d_move d 5"
  proof
    assume "\<exists>s. d_take 4 (d_move d 1) = Inr (s, d') \<and> x = word_of_nat (be_nat s)"
    then obtain s where s: "length s = 4" "starts (d_move d 1) s" "d' = d_move d 5" "x = word_of_nat (be_nat s)"
      using ok by (auto simp: d_take_Inr)
    have "be_nat s < 2 ^ 32" using be_nat_less [of s] s(1) by simp
    then have "be_bytes 4 (unat x) = s" using s be_bytes_be_nat [of s] unat_length32 [of "be_nat s"] by simp
    with s show "starts (d_move d 1) (be_bytes 4 (unat x)) \<and> d' = d_move d 5" by simp
  next
    assume a: "starts (d_move d 1) (be_bytes 4 (unat x)) \<and> d' = d_move d 5"
    have "be_bytes 4 (unat x) \<noteq> []" by (simp flip: length_greater_0_conv)
    with a have "dpos (d_move d 1) + 4 \<le> length (dbuf d)"
      using starts_length [of "d_move d 1" "be_bytes 4 (unat x)"] by simp
    then have "d_take 4 (d_move d 1) = Inr (be_bytes 4 (unat x), d')"
      using a ok by (simp add: d_take_Inr)
    moreover have "x = word_of_nat (be_nat (be_bytes 4 (unat x)))"
      using x by (simp add: be_nat_be_bytes)
    ultimately show "\<exists>s. d_take 4 (d_move d 1) = Inr (s, d') \<and> x = word_of_nat (be_nat s)" by blast
  qed
  finally show "d_f32q d = Inr (x, d') \<longleftrightarrow> is_quantised x \<and> starts d (enc_f32q x) \<and> d' = d_move d (length (enc_f32q x))"
    using quantise_fix [of x] by (auto simp: enc_f32q_def starts_Cons)
qed

subsection \<open>Arrays and sets\<close>

definition enc_array_head :: "nat \<Rightarrow> bytes" where
  "enc_array_head n = enc_head major_array (word_of_nat n)"

definition d_array_head :: "dec \<Rightarrow> codec_error + nat \<times> dec" where
  "d_array_head d = and_then (d_expect major_array d) (\<lambda>(n, d'). Inr (unat n, d'))"

text \<open>The items of \<open>array\<close> and \<open>sorted_array\<close> are already encoded; \<open>sorted_array\<close> sorts them.\<close>

definition enc_array :: "bytes list \<Rightarrow> bytes" where
  "enc_array items = enc_array_head (length items) @ concat items"

definition enc_sorted_array :: "bytes list \<Rightarrow> bytes" where
  "enc_sorted_array items = enc_array (sort items)"

definition enc_uid_set :: "uid list \<Rightarrow> bytes" where
  "enc_uid_set us = enc_array_head (length us) @ concat (map enc_uid us)"

fun d_repeat :: "(dec \<Rightarrow> codec_error + 'a \<times> dec) \<Rightarrow> nat \<Rightarrow> dec \<Rightarrow> codec_error + 'a list \<times> dec" where
  "d_repeat f 0 d = Inr ([], d)"
| "d_repeat f (Suc n) d =
     and_then (f d) (\<lambda>(x, d1). and_then (d_repeat f n d1) (\<lambda>(xs, d2). Inr (x # xs, d2)))"

definition d_array :: "(dec \<Rightarrow> codec_error + 'a \<times> dec) \<Rightarrow> dec \<Rightarrow> codec_error + 'a list \<times> dec" where
  "d_array f d = and_then (d_array_head d) (\<lambda>(n, d'). d_repeat f n d')"

text \<open>The bytes between two positions of the cursor.\<close>

definition d_slice :: "dec \<Rightarrow> dec \<Rightarrow> bytes" where
  "d_slice d d' = take (dpos d' - dpos d) (drop (dpos d) (dbuf d))"

definition follows :: "'a::linorder option \<Rightarrow> 'a \<Rightarrow> bool" where
  "follows prev x \<longleftrightarrow> (case prev of None \<Rightarrow> True | Some p \<Rightarrow> p < x)"

fun d_sorted_loop ::
  "(dec \<Rightarrow> codec_error + 'a \<times> dec) \<Rightarrow> nat \<Rightarrow> bytes option \<Rightarrow> nat \<Rightarrow> dec \<Rightarrow> codec_error + 'a list \<times> dec" where
  "d_sorted_loop f at prev 0 d = Inr ([], d)"
| "d_sorted_loop f at prev (Suc n) d =
     and_then (f d) (\<lambda>(x, d1).
       if \<not> follows prev (d_slice d d1) then Inl (NonDeterministic at UnsortedSet)
       else and_then (d_sorted_loop f at (Some (d_slice d d1)) n d1) (\<lambda>(xs, d2). Inr (x # xs, d2)))"

definition d_sorted_array :: "(dec \<Rightarrow> codec_error + 'a \<times> dec) \<Rightarrow> dec \<Rightarrow> codec_error + 'a list \<times> dec" where
  "d_sorted_array f d = and_then (d_array_head d) (\<lambda>(n, d'). d_sorted_loop f (dpos d) None n d')"

fun d_uid_set_loop :: "nat \<Rightarrow> uid option \<Rightarrow> uid list \<Rightarrow> nat \<Rightarrow> dec \<Rightarrow> codec_error + uid list \<times> dec" where
  "d_uid_set_loop at prev out 0 d = Inr (out, d)"
| "d_uid_set_loop at prev out (Suc n) d =
     and_then (d_uid d) (\<lambda>(u, d').
       if \<not> follows prev u then Inl (NonDeterministic at UnsortedSet)
       else d_uid_set_loop at (Some u) (bs_insert u out) n d')"

definition d_uid_set :: "dec \<Rightarrow> codec_error + uid list \<times> dec" where
  "d_uid_set d = and_then (d_array_head d) (\<lambda>(n, d'). d_uid_set_loop (dpos d) None [] n d')"

lemma d_array_head_Inr:
  assumes "buf_ok d"
  shows "d_array_head d = Inr (n, d') \<longleftrightarrow>
    n < 2 ^ 64 \<and> starts d (enc_array_head n) \<and> d' = d_move d (length (enc_array_head n))"
proof
  assume "d_array_head d = Inr (n, d')"
  then obtain w where w: "d_expect major_array d = Inr (w, d')" "n = unat w"
    by (auto simp: d_array_head_def and_then_Inr_iff)
  then have "n < 2 ^ 64" using unsigned_less [of w] by simp
  with w assms show "n < 2 ^ 64 \<and> starts d (enc_array_head n) \<and> d' = d_move d (length (enc_array_head n))"
    by (simp add: d_expect_Inr enc_array_head_def)
next
  assume a: "n < 2 ^ 64 \<and> starts d (enc_array_head n) \<and> d' = d_move d (length (enc_array_head n))"
  then have "d_expect major_array d = Inr (word_of_nat n, d')"
    using assms by (simp add: d_expect_Inr enc_array_head_def)
  with a show "d_array_head d = Inr (n, d')"
    using unat_length64 [of n] by (simp add: d_array_head_def)
qed

lemma ascending_follows:
  "ascending (x # xs) \<and> follows prev x \<longleftrightarrow> (case prev of None \<Rightarrow> ascending (x # xs) | Some p \<Rightarrow> ascending (p # x # xs))"
  by (cases prev) (auto simp: follows_def)

definition after :: "'a::linorder option \<Rightarrow> 'a list \<Rightarrow> bool" where
  "after prev xs \<longleftrightarrow> ascending xs \<and> list_all (follows prev) xs"

lemma after_simps [simp]:
  "after prev []"
  "after prev (x # xs) \<longleftrightarrow> follows prev x \<and> after (Some x) xs"
  "after None xs \<longleftrightarrow> ascending xs"
  by (auto simp: after_def follows_def list_all_iff split: option.splits)

context item_codec
begin

lemma d_repeat_Inr:
  "buf_ok d \<Longrightarrow> d_repeat rd n d = Inr (xs, d') \<longleftrightarrow>
     length xs = n \<and> list_all ok xs \<and> starts d (concat (map wr xs)) \<and>
     d' = d_move d (length (concat (map wr xs)))"
proof (induction n arbitrary: d xs)
  case (Suc n)
  show ?case
    using Suc.prems Suc.IH
    by (cases xs) (auto simp: and_then_Inr_iff read_iff)
qed auto

lemma d_sorted_loop_Inr:
  "buf_ok d \<Longrightarrow> d_sorted_loop rd at prev n d = Inr (xs, d') \<longleftrightarrow>
     length xs = n \<and> list_all ok xs \<and> after prev (map wr xs) \<and>
     starts d (concat (map wr xs)) \<and> d' = d_move d (length (concat (map wr xs)))"
proof (induction n arbitrary: d prev xs)
  case (Suc n)
  have slice: "d_slice d (d_move d (length (wr x))) = wr x" if "starts d (wr x)" for x
    using that by (simp add: d_slice_def starts_def)
  show ?case
  proof (cases xs)
    case (Cons x ys)
    show ?thesis
    proof (cases "ok x \<and> starts d (wr x)")
      case True
      then have "rd d = Inr (x, d_move d (length (wr x)))"
        using Suc.prems by (simp add: read_iff)
      then show ?thesis
        using True Cons Suc.prems Suc.IH [of "d_move d (length (wr x))" "Some (wr x)" ys] slice
        by (auto simp: and_then_Inr_iff split: if_splits)
    next
      case False
      then show ?thesis
        using Cons Suc.prems by (auto simp: and_then_Inr_iff read_iff split: if_splits)
    qed
  qed (auto simp: and_then_Inr_iff split: if_splits)
qed auto

text \<open>An array of items is an item; a sorted array is one whose items stand in byte order.\<close>

lemma array_Inr:
  assumes "buf_ok d"
  shows "d_array rd d = Inr (xs, d') \<longleftrightarrow>
    (list_all ok xs \<and> length xs < 2 ^ 64) \<and> starts d (enc_array (map wr xs)) \<and>
    d' = d_move d (length (enc_array (map wr xs)))"
  using assms
  by (auto simp: d_array_def enc_array_def and_then_Inr_iff d_array_head_Inr d_repeat_Inr)

lemma sorted_array_Inr:
  assumes "buf_ok d"
  shows "d_sorted_array rd d = Inr (xs, d') \<longleftrightarrow>
    (list_all ok xs \<and> ascending (map wr xs) \<and> length xs < 2 ^ 64) \<and>
    starts d (enc_sorted_array (map wr xs)) \<and> d' = d_move d (length (enc_sorted_array (map wr xs)))"
proof -
  have "ascending (map wr xs) \<Longrightarrow> sort (map wr xs) = map wr xs"
    by (simp add: ascending_sorted sorted_sort_id)
  then show ?thesis
    using assms
    by (auto simp: d_sorted_array_def enc_sorted_array_def enc_array_def and_then_Inr_iff
        d_array_head_Inr d_sorted_loop_Inr)
qed

end

context reader
begin

lemma d_repeat_ok: "d_repeat rd n d = Inr (xs, d') \<Longrightarrow> buf_ok d \<Longrightarrow> length xs = n \<and> list_all ok xs \<and> moves d d'"
proof (induction n arbitrary: d xs d')
  case (Suc n)
  then obtain x d1 ys where "rd d = Inr (x, d1)" "d_repeat rd n d1 = Inr (ys, d')" "xs = x # ys"
    by (auto simp: and_then_Inr_iff)
  with reads_ok [of d x d1] Suc.IH [of d1 ys d'] Suc.prems(2) show ?case by auto
qed simp

lemma array_reader: "reader (d_array rd) (\<lambda>xs. list_all ok xs \<and> length xs < 2 ^ 64)"
proof
  fix d xs d'
  assume "d_array rd d = Inr (xs, d')" and d: "buf_ok d"
  then obtain n d1 where n: "d_array_head d = Inr (n, d1)" and r: "d_repeat rd n d1 = Inr (xs, d')"
    by (auto simp: d_array_def and_then_Inr_iff)
  then have "n < 2 ^ 64" "moves d d1"
    using d moves_written [of d "enc_array_head n"] by (simp_all add: d_array_head_Inr)
  with d_repeat_ok [OF r] show "(list_all ok xs \<and> length xs < 2 ^ 64) \<and> moves d d'" by auto
qed

end

context readable
begin

lemma d_repeat_written:
  "list_all ok xs \<Longrightarrow> starts d (concat (map wr xs)) \<Longrightarrow> buf_ok d \<Longrightarrow>
     d_repeat rd (length xs) d = Inr (xs, d_move d (length (concat (map wr xs))))"
  by (induction xs arbitrary: d) (auto simp: written)

lemma array_readable:
  "readable (d_array rd) (\<lambda>xs. list_all ok xs \<and> length xs < 2 ^ 64) (\<lambda>xs. enc_array (map wr xs))"
proof (intro readable.intro array_reader writable.intro)
  fix d xs
  assume "list_all ok xs \<and> length xs < 2 ^ 64" "starts d (enc_array (map wr xs))" "buf_ok d"
  then show "d_array rd d = Inr (xs, d_move d (length (enc_array (map wr xs))))"
    using d_array_head_Inr [of d "length xs" "d_move d (length (enc_array_head (length xs)))"]
    by (auto simp: d_array_def enc_array_def d_repeat_written)
qed

end

context item_codec
begin

text \<open>A set: the items of a sorted array, collected into an ordered set.\<close>

lemma sorted_array_set:
  fixes d :: dec and xs :: "'a list"
  assumes ok: "list_all ok xs" "distinct xs" "length xs < 2 ^ 64"
    and at: "starts d (enc_sorted_array (map wr xs))" "buf_ok d"
  shows "d_sorted_array rd d = Inr (sort_key wr xs, d_move d (length (enc_sorted_array (map wr xs))))"
proof -
  have short: "length (wr x) < 2 ^ 64" if "x \<in> set xs" for x
  proof -
    have "length (wr x) \<le> length (concat (sort (map wr xs)))"
      using that by (auto simp: length_concat intro: member_le_sum_list)
    also have "\<dots> \<le> length (enc_sorted_array (map wr xs))"
      by (simp add: enc_sorted_array_def enc_array_def)
    also have "\<dots> \<le> length (dbuf d)"
      using starts_length [OF at(1)] by (cases "enc_sorted_array (map wr xs) = []") auto
    finally show ?thesis using at(2) by (simp add: buf_ok_def)
  qed
  have "inj_on wr (set xs)"
    by (rule inj_onI) (use short distinguishes ok(1) in \<open>auto simp: list_all_iff\<close>)
  then have "distinct (map wr (sort_key wr xs))"
    using ok(2) by (simp add: distinct_map)
  then have asc: "ascending (map wr (sort_key wr xs))"
    by (simp add: strict_sorted_iff)
  have same: "sort (map wr (sort_key wr xs)) = sort (map wr xs)"
    by (rule properties_for_sort) (simp_all add: mset_map)
  then have "enc_sorted_array (map wr (sort_key wr xs)) = enc_sorted_array (map wr xs)"
    by (simp add: enc_sorted_array_def)
  then show ?thesis
    using sorted_array_Inr [OF at(2), of "sort_key wr xs"] ok asc at(1) by (simp add: list_all_iff)
qed

end

interpretation uid_array_item: item_codec "d_array d_uid" "\<lambda>us. enc_array (map enc_uid us)"
    "\<lambda>us. list_all uid_ok us \<and> length us < 2 ^ 64"
  by unfold_locales (rule uid_item.array_Inr)

lemma ex_list_Suc: "(\<exists>xs. length xs = Suc n \<and> P xs) \<longleftrightarrow> (\<exists>y ys. length ys = n \<and> P (y # ys))"
  by (metis length_Cons length_Suc_conv)

lemma d_uid_set_loop_Inr:
  "buf_ok d \<Longrightarrow> d_uid_set_loop at prev out n d = Inr (r, d') \<longleftrightarrow>
     (\<exists>us. length us = n \<and> list_all uid_ok us \<and> after prev us \<and> starts d (concat (map enc_uid us)) \<and>
        d' = d_move d (length (concat (map enc_uid us))) \<and> r = bs_extend out us)"
proof (induction n arbitrary: d prev out)
  case (Suc n)
  have "d_uid_set_loop at prev out (Suc n) d = Inr (r, d') \<longleftrightarrow>
      (\<exists>u. uid_ok u \<and> starts d (enc_uid u) \<and> follows prev u \<and>
        d_uid_set_loop at (Some u) (bs_insert u out) n (d_move d (length (enc_uid u))) = Inr (r, d'))"
    using Suc.prems by (auto simp: and_then_Inr_iff uid_item.read_iff split: if_splits)
  also have "\<dots> \<longleftrightarrow> (\<exists>u us. uid_ok u \<and> starts d (enc_uid u) \<and> follows prev u \<and>
      length us = n \<and> list_all uid_ok us \<and> after (Some u) us \<and>
      starts (d_move d (length (enc_uid u))) (concat (map enc_uid us)) \<and>
      d' = d_move d (length (enc_uid u) + length (concat (map enc_uid us))) \<and> r = bs_extend (bs_insert u out) us)"
    using Suc.prems Suc.IH by auto
  also have "\<dots> \<longleftrightarrow> (\<exists>us. length us = Suc n \<and> list_all uid_ok us \<and> after prev us \<and>
      starts d (concat (map enc_uid us)) \<and> d' = d_move d (length (concat (map enc_uid us))) \<and> r = bs_extend out us)"
    unfolding ex_list_Suc by (simp add: bs_extend_def conj_ac)
  finally show ?case .
qed (auto simp: bs_extend_def)

interpretation uid_set_item: item_codec d_uid_set enc_uid_set
    "\<lambda>us. ascending us \<and> list_all uid_ok us \<and> length us < 2 ^ 64"
proof
  fix d x d'
  assume "buf_ok d"
  then have "d_uid_set d = Inr (x, d') \<longleftrightarrow>
      (\<exists>us. length us < 2 ^ 64 \<and> list_all uid_ok us \<and> ascending us \<and> starts d (enc_uid_set us) \<and>
        d' = d_move d (length (enc_uid_set us)) \<and> x = bs_extend [] us)"
    by (auto simp: d_uid_set_def enc_uid_set_def and_then_Inr_iff d_array_head_Inr d_uid_set_loop_Inr)
  then show "d_uid_set d = Inr (x, d') \<longleftrightarrow> (ascending x \<and> list_all uid_ok x \<and> length x < 2 ^ 64) \<and>
      starts d (enc_uid_set x) \<and> d' = d_move d (length (enc_uid_set x))"
    using bs_collect_id by (auto simp: bs_collect_def [symmetric])
qed

subsection \<open>Properties\<close>

text \<open>
  C21. Signed integers: \<open>Dec::int\<close> returns a 64-bit value if and only if the bytes at the cursor are
  the ones \<open>Enc::int\<close> writes for it, the least value included, so every value round-trips and a
  negative number outside the width is refused, never wrapped.
\<close>

theorem int_read_iff:
  assumes "length (dbuf d) < 2 ^ 64"
  shows "d_int d = Inr (v, d') \<longleftrightarrow>
    take (length (enc_int v)) (drop (dpos d) (dbuf d)) = enc_int v \<and>
    d' = d\<lparr>dpos := dpos d + length (enc_int v)\<rparr>"
  using int_item.read_iff [of d v d'] assms by (simp add: buf_ok_def starts_def d_move_def)

theorem int_read_iff_witness:
  "d_int (dec_new [0x38, 0x63]) = Inr (word_of_int (- 100), (dec_new [0x38, 0x63])\<lparr>dpos := 2\<rparr>)"
proof -
  have e: "enc_int (word_of_int (- 100)) = [0x38, 0x63]"
    by (simp add: enc_int_def enc_head_def Let_def)
  show ?thesis by (rule int_read_iff [THEN iffD2]) (simp_all only: e, simp_all add: dec_new_def)
qed

text \<open>
  C15. A set of identities is read exactly where the set's one encoding stands: the reader returns
  the elements in strictly ascending order, and it accepts no other order, no duplicate and no
  identity that is not 32 bytes wide.
\<close>

theorem uid_set_read_iff:
  assumes "length (dbuf d) < 2 ^ 64"
  shows "d_uid_set d = Inr (us, d') \<longleftrightarrow>
    sorted_wrt (<) us \<and> list_all uid_ok us \<and> length us < 2 ^ 64 \<and>
    take (length (enc_uid_set us)) (drop (dpos d) (dbuf d)) = enc_uid_set us \<and>
    d' = d\<lparr>dpos := dpos d + length (enc_uid_set us)\<rparr>"
  using uid_set_item.read_iff [of d us d'] assms by (simp add: buf_ok_def starts_def d_move_def)

theorem uid_set_read_iff_witness:
  "d_uid_set (dec_new (enc_uid_set [Uid (replicate 32 1), Uid (replicate 32 2)])) =
     Inr ([Uid (replicate 32 1), Uid (replicate 32 2)],
       (dec_new (enc_uid_set [Uid (replicate 32 1), Uid (replicate 32 2)]))
         \<lparr>dpos := length (enc_uid_set [Uid (replicate 32 1), Uid (replicate 32 2)])\<rparr>)"
proof -
  have "(1::u8) # replicate 31 1 < 2 # replicate 31 2" by simp
  then have lt: "replicate 32 (1::u8) < replicate 32 2" by (simp add: numeral_eq_Suc)
  have h: "length (enc_head m a) \<le> 9" for m a
    by (simp add: enc_head_parts head_width_def)
  have "length (enc_uid_set [Uid (replicate 32 1), Uid (replicate 32 2)]) \<le> 9 + (9 + 32) + (9 + 32)"
    using h [of major_array 2] h [of major_bytes 32]
    by (simp add: enc_uid_set_def enc_array_head_def enc_uid_def enc_bytes_def)
  then show ?thesis
    by (intro uid_set_read_iff [THEN iffD2]) (simp_all add: dec_new_def uid_ok_def lt)
qed

text \<open>
  C22. Text is normalised on the way out and only accepted normalised on the way in: reading what
  the writer wrote for any string gives its normal form. The hypotheses are what the normalisation
  crate documents: the result of \<open>nfc\<close> is normalised and is text.
\<close>

theorem text_reads_normalised:
  assumes "\<And>t. is_nfc (nfc t)" and "\<And>t. utf8_valid (str_bytes t) \<Longrightarrow> utf8_valid (str_bytes (nfc t))"
    and "utf8_valid (str_bytes s)" and "length (enc_text is_nfc nfc s @ r) < 2 ^ 64"
  shows "d_text is_nfc (dec_new (enc_text is_nfc nfc s @ r)) =
    Inr (if is_nfc s then s else nfc s,
      (dec_new (enc_text is_nfc nfc s @ r))\<lparr>dpos := length (enc_text is_nfc nfc s)\<rparr>)"
proof -
  let ?t = "if is_nfc s then s else nfc s"
  have t: "is_nfc ?t" "utf8_valid (str_bytes ?t)" using assms by auto
  have e: "enc_text is_nfc nfc s = enc_text is_nfc nfc ?t" using assms(1) by (simp add: enc_text_def)
  have "length ?t < 2 ^ 64"
    using assms(4) t(1) unfolding e by (simp add: enc_text_def split: if_splits)
  with t have "text_ok is_nfc ?t" by (simp add: text_ok_def)
  from text_item.read_written [OF this assms(4) [unfolded e]]
  show ?thesis unfolding e [symmetric] by (simp add: d_move_def dec_new_def)
qed

theorem text_reads_normalised_witness:
  "let is_nfc = \<lambda>t. CHR ''A'' \<notin> set t; nfc = \<lambda>t. if CHR ''A'' \<in> set t then ''a'' else t;
       d = dec_new (enc_text is_nfc nfc ''bA'' @ [])
   in d_text is_nfc d =
      Inr (if is_nfc ''bA'' then ''bA'' else nfc ''bA'', d\<lparr>dpos := length (enc_text is_nfc nfc ''bA'')\<rparr>)"
  unfolding Let_def
proof (rule text_reads_normalised)
  have "utf8_valid (str_bytes ''a'')"
    by (simp add: str_bytes_def char_code_def utf8_valid.simps)
  then show "utf8_valid (str_bytes t) \<Longrightarrow> utf8_valid (str_bytes (if CHR ''A'' \<in> set t then ''a'' else t))" for t
    by simp
  show "utf8_valid (str_bytes ''bA'')"
    by (simp add: str_bytes_def char_code_def utf8_valid.simps)
  show "length (enc_text (\<lambda>t. CHR ''A'' \<notin> set t) (\<lambda>t. if CHR ''A'' \<in> set t then ''a'' else t) ''bA'' @ []) < 2 ^ 64"
    by (simp add: enc_text_def enc_head_def Let_def)
qed auto

end
