(* ===== verification/Cbor_Canon.thy ===== *)
theory Cbor_Canon
  imports Cbor_Items
begin

section \<open>Well-formed items and the validator\<close>

text \<open>
  \<open>Dec::skip_item\<close>, which walks a value it does not interpret and accepts it only in canonical form,
  against an abstract grammar: the items of the profile as a datatype, their one encoding, and when
  an item is well formed. The walk bounds the nesting at 128.
\<close>

definition max_nesting :: nat where
  "max_nesting = 128"

lemma and_then_cong [fundef_cong]:
  "r = r' \<Longrightarrow> (\<And>a. r' = Inr a \<Longrightarrow> f a = f' a) \<Longrightarrow> and_then r f = and_then r' f'"
  by (cases r') auto

function skip_one :: "(string \<Rightarrow> bool) \<Rightarrow> nat \<Rightarrow> dec \<Rightarrow> codec_error + dec"
  and skip_n :: "(string \<Rightarrow> bool) \<Rightarrow> nat \<Rightarrow> nat \<Rightarrow> dec \<Rightarrow> codec_error + dec"
  and skip_pairs :: "(string \<Rightarrow> bool) \<Rightarrow> nat \<Rightarrow> bytes option \<Rightarrow> nat \<Rightarrow> dec \<Rightarrow> codec_error + dec" where
  "skip_one is_nfc depth d =
     (if depth > max_nesting then Inl (NestingTooDeep (dpos d) max_nesting)
      else and_then (d_peek d) (\<lambda>b.
        if b = 0xF6 then Inl (NonDeterministic (dpos d) NullOptional)
        else if drop_bit 5 b = major_simple then
          (if b = 0xFA then
             and_then (d_take 4 (d_move d 1)) (\<lambda>(s, d').
               if \<not> is_quantised (word_of_nat (be_nat s)) then Inl (FloatError (dpos d)) else Inr d')
           else if b = 0xF4 \<or> b = 0xF5 then Inr (d_move d 1)
           else Inl (MalformedEnvelope (dpos d)))
        else and_then (d_head d) (\<lambda>((m, arg), d').
          if m = major_uint \<or> m = major_negint then Inr d'
          else if m = major_bytes then and_then (d_take (unat arg) d') (\<lambda>(s, d2). Inr d2)
          else if m = major_text then
            and_then (d_take (unat arg) d') (\<lambda>(raw, d2).
              if \<not> utf8_valid raw then Inl (MalformedEnvelope (dpos d'))
              else if \<not> is_nfc (bytes_str raw) then Inl (NonDeterministic (dpos d') NonNfcText)
              else Inr d2)
          else if m = major_array then skip_n is_nfc (depth + 1) (unat arg) d'
          else if m = major_map then skip_pairs is_nfc (depth + 1) None (unat arg) d'
          else Inl (MalformedEnvelope (dpos d')))))"
| "skip_n is_nfc depth 0 d = Inr d"
| "skip_n is_nfc depth (Suc n) d =
     and_then (skip_one is_nfc depth d) (\<lambda>d'. skip_n is_nfc depth n d')"
| "skip_pairs is_nfc depth prev 0 d = Inr d"
| "skip_pairs is_nfc depth prev (Suc n) d =
     and_then (skip_one is_nfc depth d) (\<lambda>d1.
       let key = d_slice d d1 in
       if (case prev of None \<Rightarrow> False | Some p \<Rightarrow> key = p) then Inl (NonDeterministic (dpos d) DuplicateMapKey)
       else if (case prev of None \<Rightarrow> False | Some p \<Rightarrow> key < p) then Inl (NonDeterministic (dpos d) UnsortedMapKeys)
       else and_then (skip_one is_nfc depth d1) (\<lambda>d2. skip_pairs is_nfc depth (Some key) n d2))"
  by pat_completeness auto
termination
  by (relation "measures [\<lambda>x. case x of Inl (_, dep, _) \<Rightarrow> 130 - dep
                               | Inr (Inl (_, dep, _, _)) \<Rightarrow> 130 - dep
                               | Inr (Inr (_, dep, _, _, _)) \<Rightarrow> 130 - dep,
                          \<lambda>x. case x of Inl _ \<Rightarrow> 0 | Inr (Inl (_, _, n, _)) \<Rightarrow> n | Inr (Inr (_, _, _, n, _)) \<Rightarrow> n]")
     (auto simp: max_nesting_def)

declare skip_one.simps [simp del]

definition d_skip_item :: "(string \<Rightarrow> bool) \<Rightarrow> dec \<Rightarrow> codec_error + bytes \<times> dec" where
  "d_skip_item is_nfc d = and_then (skip_one is_nfc 0 d) (\<lambda>d'. Inr (d_slice d d', d'))"

subsection \<open>The grammar\<close>

datatype item =
    IUint u64
  | INeg u64
  | IBytes bytes
  | IText bytes
  | IArr "item list"
  | IMap "(item \<times> item) list"
  | IFloat f32
  | IBool bool

fun enc_item :: "item \<Rightarrow> bytes" where
  "enc_item (IUint v) = enc_head major_uint v"
| "enc_item (INeg v) = enc_head major_negint v"
| "enc_item (IBytes b) = enc_head major_bytes (word_of_nat (length b)) @ b"
| "enc_item (IText b) = enc_head major_text (word_of_nat (length b)) @ b"
| "enc_item (IArr xs) = enc_head major_array (word_of_nat (length xs)) @ concat (map enc_item xs)"
| "enc_item (IMap kvs) = enc_head major_map (word_of_nat (length kvs)) @
     concat (map (\<lambda>(k, v). enc_item k @ enc_item v) kvs)"
| "enc_item (IFloat v) = 0xFA # be_bytes 4 (unat v)"
| "enc_item (IBool b) = [if b then 0xF5 else 0xF4]"

abbreviation enc_pair :: "item \<times> item \<Rightarrow> bytes" where
  "enc_pair p \<equiv> (case p of (k, v) \<Rightarrow> enc_item k @ enc_item v)"

fun item_ok :: "(string \<Rightarrow> bool) \<Rightarrow> nat \<Rightarrow> item \<Rightarrow> bool" where
  "item_ok is_nfc room (IUint v) = True"
| "item_ok is_nfc room (INeg v) = True"
| "item_ok is_nfc room (IBytes b) = (length b < 2 ^ 64)"
| "item_ok is_nfc room (IText b) = (utf8_valid b \<and> is_nfc (bytes_str b) \<and> length b < 2 ^ 64)"
| "item_ok is_nfc room (IArr xs) =
     (length xs < 2 ^ 64 \<and> (xs = [] \<or> 0 < room) \<and> (\<forall>x\<in>set xs. item_ok is_nfc (room - 1) x))"
| "item_ok is_nfc room (IMap kvs) =
     (length kvs < 2 ^ 64 \<and> (kvs = [] \<or> 0 < room) \<and>
      (\<forall>p\<in>set kvs. item_ok is_nfc (room - 1) (fst p) \<and> item_ok is_nfc (room - 1) (snd p)) \<and>
      ascending (map (enc_item \<circ> fst) kvs))"
| "item_ok is_nfc room (IFloat v) = is_quantised v"
| "item_ok is_nfc room (IBool b) = True"

text \<open>Bytes that are one item in canonical form, nested at most 128 deep.\<close>

definition canonical_item :: "(string \<Rightarrow> bool) \<Rightarrow> bytes \<Rightarrow> bool" where
  "canonical_item is_nfc raw \<longleftrightarrow> (\<exists>it. item_ok is_nfc max_nesting it \<and> raw = enc_item it)"

lemma enc_head_peek:
  assumes "m < 8" "starts d (enc_head m arg)"
  obtains b where "d_peek d = Inr b" "drop_bit 5 b = m"
  using assms head_byte_iff [of m "head_info (unat arg)" "push_bit 5 m OR head_info (unat arg)"]
    head_info_less [of "unat arg"]
  by (auto simp: enc_head_parts starts_Cons)

lemma slice_move: "starts d bs \<Longrightarrow> d_slice d (d_move d (length bs)) = bs"
  by (simp add: d_slice_def starts_def)

text \<open>A string of bytes counted by a head, and a binary32 item.\<close>

lemma take_counted:
  assumes "buf_ok d" "m < 8" "d_head d = Inr ((m, arg), d1)" "d_take (unat arg) d1 = Inr (s, d')"
  shows "length s < 2 ^ 64 \<and> starts d (enc_head m (word_of_nat (length s)) @ s) \<and>
    d' = d_move d (length (enc_head m (word_of_nat (length s)) @ s))"
  using d_counted_Inr [OF assms(1,2), of s d'] assms by (auto simp: d_expect_def)

lemma counted_take:
  assumes "buf_ok d" "m < 8" "length s < 2 ^ 64" "starts d (enc_head m (word_of_nat (length s)) @ s)"
  shows "\<exists>n d1. d_head d = Inr ((m, n), d1) \<and>
    d_take (unat n) d1 = Inr (s, d_move d (length (enc_head m (word_of_nat (length s)) @ s)))"
proof -
  obtain n d1 where "d_expect m d = Inr (n, d1)"
      "d_take (unat n) d1 = Inr (s, d_move d (length (enc_head m (word_of_nat (length s)) @ s)))"
    using d_counted_Inr [OF assms(1,2), of s] assms(3,4) by blast
  then show ?thesis
    by (auto simp: d_expect_def and_then_Inr_iff split: if_splits)
qed

lemma skip_float:
  assumes "buf_ok d"
  shows "(\<exists>v. d_f32q d = Inr (v, d')) \<longleftrightarrow> d_peek d = Inr 0xFA \<and>
    and_then (d_take 4 (d_move d 1)) (\<lambda>(s, d').
      if \<not> is_quantised (word_of_nat (be_nat s)) then Inl (FloatError (dpos d)) else Inr d') = Inr d'"
  by (auto simp: d_f32q_def and_then_Inr_iff Let_def split: if_splits)

lemma enc_item_float: "is_quantised v \<Longrightarrow> enc_item (IFloat v) = enc_f32q v"
  by (simp add: enc_f32q_def quantise_fix)

subsection \<open>The validator accepts only canonical items\<close>

lemma unat_head_count:
  "length xs = unat (arg :: u64) \<Longrightarrow> word_of_nat (length xs) = arg \<and> length xs < 2 ^ 64"
  using unsigned_less [of arg] by simp

lemma skip_sound:
  "buf_ok d \<Longrightarrow> skip_one is_nfc dep d = Inr d' \<Longrightarrow>
     \<exists>it. dep \<le> max_nesting \<and> item_ok is_nfc (max_nesting - dep) it \<and> starts d (enc_item it) \<and>
       d' = d_move d (length (enc_item it))"
  "buf_ok d \<Longrightarrow> skip_n is_nfc dep n d = Inr d' \<Longrightarrow>
     \<exists>its. length its = n \<and> (n = 0 \<or> dep \<le> max_nesting) \<and>
       (\<forall>it\<in>set its. item_ok is_nfc (max_nesting - dep) it) \<and>
       starts d (concat (map enc_item its)) \<and> d' = d_move d (length (concat (map enc_item its)))"
  "buf_ok d \<Longrightarrow> skip_pairs is_nfc dep prev n d = Inr d' \<Longrightarrow>
     \<exists>kvs. length kvs = n \<and> (n = 0 \<or> dep \<le> max_nesting) \<and>
       (\<forall>p\<in>set kvs. item_ok is_nfc (max_nesting - dep) (fst p) \<and> item_ok is_nfc (max_nesting - dep) (snd p)) \<and>
       after prev (map (enc_item \<circ> fst) kvs) \<and>
       starts d (concat (map enc_pair kvs)) \<and> d' = d_move d (length (concat (map enc_pair kvs)))"
proof (induction is_nfc dep d and is_nfc dep n d and is_nfc dep prev n d arbitrary: d' and d' and d'
    rule: skip_one_skip_n_skip_pairs.induct)
  case (1 is_nfc depth d)
  have le: "depth \<le> max_nesting"
    using "1.prems" by (auto simp: skip_one.simps [of is_nfc depth d] split: if_splits)
  obtain b where b: "d_peek d = Inr b" "b \<noteq> 0xF6"
    using "1.prems" le by (cases "d_peek d") (auto simp: skip_one.simps [of is_nfc depth d] split: if_splits)
  let ?goal = "\<exists>it. depth \<le> max_nesting \<and> item_ok is_nfc (max_nesting - depth) it \<and> starts d (enc_item it) \<and>
       d' = d_move d (length (enc_item it))"
  note run = "1.prems"(2) [unfolded skip_one.simps [of is_nfc depth d]]
  show ?case
  proof (cases "drop_bit 5 b = major_simple")
    case True
    consider "b = 0xFA" | "b = 0xF4 \<or> b = 0xF5" "d' = d_move d 1" "b \<noteq> 0xFA"
      using run b True le by (auto split: if_splits)
    then show ?thesis
    proof cases
      case 1
      then have "\<exists>v. d_f32q d = Inr (v, d')"
        using run b True le skip_float [OF "1.prems"(1), of d'] by simp
      then obtain v where "is_quantised v" "starts d (enc_f32q v)" "d' = d_move d (length (enc_f32q v))"
        using f32q_item.read_iff [OF "1.prems"(1)] by blast
      then have "item_ok is_nfc (max_nesting - depth) (IFloat v) \<and> starts d (enc_item (IFloat v)) \<and>
          d' = d_move d (length (enc_item (IFloat v)))"
        by (simp add: enc_item_float del: enc_item.simps)
      then show ?thesis using le by blast
    next
      case 2
      then have "item_ok is_nfc (max_nesting - depth) (IBool (b = 0xF5)) \<and> starts d (enc_item (IBool (b = 0xF5))) \<and>
          d' = d_move d (length (enc_item (IBool (b = 0xF5))))"
        using b by (auto simp: starts_Cons)
      then show ?thesis using le by blast
    qed
  next
    case False
    then obtain m arg d1 where h: "d_head d = Inr ((m, arg), d1)"
      using run b le by (cases "d_head d") auto
    have st: "starts d (enc_head m arg)" and d1: "d1 = d_move d (length (enc_head m arg))" and m8: "m < 8"
      using h d_head_Inr [OF "1.prems"(1)] by simp_all
    have ok1: "buf_ok d1" using "1.prems"(1) d1 by simp
    have IH4: "\<exists>its. length its = unat arg \<and> (unat arg = 0 \<or> depth + 1 \<le> max_nesting) \<and>
        (\<forall>it\<in>set its. item_ok is_nfc (max_nesting - (depth + 1)) it) \<and>
        starts d1 (concat (map enc_item its)) \<and> d' = d_move d1 (length (concat (map enc_item its)))"
      if "m = major_array"
    proof (rule "1.IH"(1) [of b "((m, arg), d1)" "(m, arg)" d1 m arg])
      show "skip_n is_nfc (depth + 1) (unat arg) d1 = Inr d'"
        using run b le False h that by simp
    qed (use b le False h that ok1 in simp_all)
    have IH5: "\<exists>kvs. length kvs = unat arg \<and> (unat arg = 0 \<or> depth + 1 \<le> max_nesting) \<and>
        (\<forall>p\<in>set kvs. item_ok is_nfc (max_nesting - (depth + 1)) (fst p) \<and>
           item_ok is_nfc (max_nesting - (depth + 1)) (snd p)) \<and>
        after None (map (enc_item \<circ> fst) kvs) \<and>
        starts d1 (concat (map enc_pair kvs)) \<and> d' = d_move d1 (length (concat (map enc_pair kvs)))"
      if "m = major_map"
    proof (rule "1.IH"(2) [of b "((m, arg), d1)" "(m, arg)" d1 m arg])
      show "skip_pairs is_nfc (depth + 1) None (unat arg) d1 = Inr d'"
        using run b le False h that by simp
    qed (use b le False h that ok1 in simp_all)
    consider "m = major_uint" "d' = d1" | "m = major_negint" "d' = d1"
      | s where "m = major_bytes" "d_take (unat arg) d1 = Inr (s, d')"
      | s where "m = major_text" "d_take (unat arg) d1 = Inr (s, d')" "utf8_valid s" "is_nfc (bytes_str s)"
      | "m = major_array" | "m = major_map"
      using run b le False h by (auto simp: and_then_Inr_iff split: if_splits)
    then have "\<exists>it. item_ok is_nfc (max_nesting - depth) it \<and> starts d (enc_item it) \<and>
        d' = d_move d (length (enc_item it))"
    proof cases
      case 1
      with st d1 show ?thesis by (intro exI [of _ "IUint arg"]) simp
    next
      case 2
      with st d1 show ?thesis by (intro exI [of _ "INeg arg"]) simp
    next
      case 3
      with take_counted [OF "1.prems"(1), of major_bytes arg d1 s d'] h
      show ?thesis by (intro exI [of _ "IBytes s"]) simp
    next
      case 4
      with take_counted [OF "1.prems"(1), of major_text arg d1 s d'] h
      show ?thesis by (intro exI [of _ "IText s"]) simp
    next
      case 5
      from IH4 [OF 5] obtain its where its: "length its = unat arg" "unat arg = 0 \<or> depth + 1 \<le> max_nesting"
          "\<forall>it\<in>set its. item_ok is_nfc (max_nesting - (depth + 1)) it"
          "starts d1 (concat (map enc_item its))" "d' = d_move d1 (length (concat (map enc_item its)))"
        by blast
      have "max_nesting - (depth + 1) = max_nesting - depth - 1" by simp
      with its unat_head_count [OF its(1)] st d1 5
      show ?thesis by (intro exI [of _ "IArr its"]) auto
    next
      case 6
      from IH5 [OF 6] obtain kvs where kvs: "length kvs = unat arg" "unat arg = 0 \<or> depth + 1 \<le> max_nesting"
          "\<forall>p\<in>set kvs. item_ok is_nfc (max_nesting - (depth + 1)) (fst p) \<and>
             item_ok is_nfc (max_nesting - (depth + 1)) (snd p)"
          "after None (map (enc_item \<circ> fst) kvs)"
          "starts d1 (concat (map enc_pair kvs))" "d' = d_move d1 (length (concat (map enc_pair kvs)))"
        by blast
      have "max_nesting - (depth + 1) = max_nesting - depth - 1" by simp
      with kvs unat_head_count [OF kvs(1)] st d1 6
      show ?thesis by (intro exI [of _ "IMap kvs"]) auto
    qed
    with le show ?thesis by blast
  qed
next
  case (2 is_nfc depth d)
  then show ?case by simp
next
  case (3 is_nfc depth n d)
  from "3.prems" obtain d1 where d1: "skip_one is_nfc depth d = Inr d1" "skip_n is_nfc depth n d1 = Inr d'"
    by (auto simp: and_then_Inr_iff)
  obtain it where it: "depth \<le> max_nesting" "item_ok is_nfc (max_nesting - depth) it" "starts d (enc_item it)"
      "d1 = d_move d (length (enc_item it))"
    using "3.IH"(1) "3.prems"(1) d1(1) by blast
  have "buf_ok d1" using "3.prems"(1) it by simp
  then obtain its where "length its = n" "\<forall>it\<in>set its. item_ok is_nfc (max_nesting - depth) it"
      "starts d1 (concat (map enc_item its))" "d' = d_move d1 (length (concat (map enc_item its)))"
    using "3.IH"(2) d1 by blast
  with it show ?case by (intro exI [of _ "it # its"]) simp
next
  case (4 is_nfc depth prev d)
  then show ?case by simp
next
  case (5 is_nfc depth prev n d)
  from "5.prems" obtain d1 d2 where d1: "skip_one is_nfc depth d = Inr d1"
      and fol: "follows prev (d_slice d d1)" and d2: "skip_one is_nfc depth d1 = Inr d2"
      and d': "skip_pairs is_nfc depth (Some (d_slice d d1)) n d2 = Inr d'"
    by (auto simp: and_then_Inr_iff Let_def follows_def split: if_splits option.splits)
  obtain k where k: "depth \<le> max_nesting" "item_ok is_nfc (max_nesting - depth) k" "starts d (enc_item k)"
      "d1 = d_move d (length (enc_item k))"
    using "5.IH"(1) "5.prems"(1) d1 by blast
  have sl: "d_slice d d1 = enc_item k" using slice_move [OF k(3)] k(4) by simp
  have ok1: "buf_ok d1" using "5.prems"(1) k by simp
  have nprev: "\<not> (case prev of None \<Rightarrow> False | Some p \<Rightarrow> d_slice d d1 = p)"
      "\<not> (case prev of None \<Rightarrow> False | Some p \<Rightarrow> d_slice d d1 < p)"
    using fol by (auto simp: follows_def split: option.splits)
  obtain v where v: "item_ok is_nfc (max_nesting - depth) v" "starts d1 (enc_item v)"
      "d2 = d_move d1 (length (enc_item v))"
    using "5.IH"(2) [OF d1 refl nprev ok1 d2] by blast
  have ok2: "buf_ok d2" using ok1 v by simp
  obtain kvs where "length kvs = n"
      "\<forall>p\<in>set kvs. item_ok is_nfc (max_nesting - depth) (fst p) \<and> item_ok is_nfc (max_nesting - depth) (snd p)"
      "after (Some (d_slice d d1)) (map (enc_item \<circ> fst) kvs)"
      "starts d2 (concat (map enc_pair kvs))" "d' = d_move d2 (length (concat (map enc_pair kvs)))"
    using "5.IH"(3) [OF d1 refl nprev d2 ok2 d'] by blast
  with k v fol sl show ?case by (intro exI [of _ "(k, v) # kvs"]) (simp add: add.assoc o_def)
qed

subsection \<open>The validator accepts every canonical item\<close>

lemma skip_n_complete:
  assumes "\<And>x d. x \<in> set xs \<Longrightarrow> buf_ok d \<Longrightarrow> starts d (enc_item x) \<Longrightarrow>
      skip_one is_nfc dep d = Inr (d_move d (length (enc_item x)))"
    and "buf_ok d" "starts d (concat (map enc_item xs))"
  shows "skip_n is_nfc dep (length xs) d = Inr (d_move d (length (concat (map enc_item xs))))"
  using assms
proof (induction xs arbitrary: d)
  case (Cons x xs)
  then have "skip_one is_nfc dep d = Inr (d_move d (length (enc_item x)))" by simp
  moreover have "skip_n is_nfc dep (length xs) (d_move d (length (enc_item x))) =
      Inr (d_move (d_move d (length (enc_item x))) (length (concat (map enc_item xs))))"
    using Cons.prems by (intro Cons.IH) simp_all
  ultimately show ?case by simp
qed simp

lemma skip_pairs_complete:
  assumes "\<And>p d. p \<in> set kvs \<Longrightarrow> buf_ok d \<Longrightarrow> starts d (enc_item (fst p)) \<Longrightarrow>
      skip_one is_nfc dep d = Inr (d_move d (length (enc_item (fst p))))"
    and "\<And>p d. p \<in> set kvs \<Longrightarrow> buf_ok d \<Longrightarrow> starts d (enc_item (snd p)) \<Longrightarrow>
      skip_one is_nfc dep d = Inr (d_move d (length (enc_item (snd p))))"
    and "buf_ok d" "starts d (concat (map enc_pair kvs))" "after prev (map (enc_item \<circ> fst) kvs)"
  shows "skip_pairs is_nfc dep prev (length kvs) d = Inr (d_move d (length (concat (map enc_pair kvs))))"
  using assms
proof (induction kvs arbitrary: d prev)
  case (Cons p kvs)
  obtain k v where p: "p = (k, v)" by (cases p)
  let ?d1 = "d_move d (length (enc_item k))"
  let ?d2 = "d_move ?d1 (length (enc_item v))"
  have st: "starts d (enc_item k)" "starts ?d1 (enc_item v)" "starts ?d2 (concat (map enc_pair kvs))"
    and fol: "follows prev (enc_item k)" and aft: "after (Some (enc_item k)) (map (enc_item \<circ> fst) kvs)"
    using Cons.prems(4,5) by (simp_all add: p o_def)
  have k: "skip_one is_nfc dep d = Inr ?d1"
    using Cons.prems(1) [of p d] Cons.prems(3) st by (simp add: p)
  have v: "skip_one is_nfc dep ?d1 = Inr ?d2"
    using Cons.prems(2) [of p ?d1] Cons.prems(3) st by (simp add: p)
  have rest: "skip_pairs is_nfc dep (Some (enc_item k)) (length kvs) ?d2 =
      Inr (d_move ?d2 (length (concat (map enc_pair kvs))))"
    using Cons.prems st aft by (intro Cons.IH) (simp_all add: o_def)
  show ?case
    using k v rest fol slice_move [OF st(1)]
    by (auto simp: p Let_def follows_def add.assoc split: option.splits)
qed simp

lemma skip_head:
  assumes "buf_ok d" "m < 7" "starts d (enc_head m arg)" "dep \<le> max_nesting"
  shows "\<exists>b. d_peek d = Inr b \<and> b \<noteq> 0xF6 \<and> drop_bit 5 b \<noteq> major_simple"
    and "d_head d = Inr ((m, arg), d_move d (length (enc_head m arg)))"
proof -
  have m: "m < 8" using assms(2) by (simp add: word_less_nat_alt)
  show "d_head d = Inr ((m, arg), d_move d (length (enc_head m arg)))"
    using assms m by (simp add: d_head_Inr)
  obtain b where b: "d_peek d = Inr b" "drop_bit 5 b = m"
    using enc_head_peek [OF m assms(3)] .
  have "drop_bit 5 (0xF6 :: u8) = 7" by simp
  with b assms(2) show "\<exists>b. d_peek d = Inr b \<and> b \<noteq> 0xF6 \<and> drop_bit 5 b \<noteq> major_simple"
    by auto
qed

lemma skip_complete:
  "item_ok is_nfc (max_nesting - dep) it \<Longrightarrow> dep \<le> max_nesting \<Longrightarrow> buf_ok d \<Longrightarrow> starts d (enc_item it) \<Longrightarrow>
     skip_one is_nfc dep d = Inr (d_move d (length (enc_item it)))"
proof (induction it arbitrary: dep d)
  case (IUint v)
  with skip_head [of d major_uint v dep] show ?case by (auto simp: skip_one.simps [of is_nfc dep d])
next
  case (INeg v)
  with skip_head [of d major_negint v dep] show ?case by (auto simp: skip_one.simps [of is_nfc dep d])
next
  case (IBytes b)
  then obtain n d1 where h: "d_head d = Inr ((major_bytes, n), d1)"
      "d_take (unat n) d1 = Inr (b, d_move d (length (enc_item (IBytes b))))"
    using counted_take [of d major_bytes b] by auto
  from IBytes skip_head(1) [of d major_bytes "word_of_nat (length b)" dep] h
  show ?case by (auto simp: skip_one.simps [of is_nfc dep d])
next
  case (IText b)
  then obtain n d1 where h: "d_head d = Inr ((major_text, n), d1)"
      "d_take (unat n) d1 = Inr (b, d_move d (length (enc_item (IText b))))"
    using counted_take [of d major_text b] by auto
  from IText skip_head(1) [of d major_text "word_of_nat (length b)" dep] h
  show ?case by (auto simp: skip_one.simps [of is_nfc dep d])
next
  case (IArr xs)
  let ?h = "enc_head major_array (word_of_nat (length xs))" and ?d1 = "d_move d (length (enc_head major_array (word_of_nat (length xs))))"
  have st: "starts d ?h" "starts ?d1 (concat (map enc_item xs))"
    using IArr.prems by simp_all
  have n: "unat (word_of_nat (length xs) :: u64) = length xs"
    using IArr.prems by (intro unat_length64) simp
  have "skip_n is_nfc (dep + 1) (length xs) ?d1 = Inr (d_move ?d1 (length (concat (map enc_item xs))))"
  proof (rule skip_n_complete)
    fix x d assume x: "x \<in> set xs" "buf_ok d" "starts d (enc_item x)"
    show "skip_one is_nfc (dep + 1) d = Inr (d_move d (length (enc_item x)))"
      using x IArr.prems by (intro IArr.IH) auto
  qed (use st IArr.prems in simp_all)
  with skip_head [OF IArr.prems(3) _ st(1) IArr.prems(2)] n IArr.prems show ?case
    by (auto simp: skip_one.simps [of is_nfc dep d])
next
  case (IMap kvs)
  let ?h = "enc_head major_map (word_of_nat (length kvs))" and ?d1 = "d_move d (length (enc_head major_map (word_of_nat (length kvs))))"
  have st: "starts d ?h" "starts ?d1 (concat (map enc_pair kvs))"
    using IMap.prems by simp_all
  have n: "unat (word_of_nat (length kvs) :: u64) = length kvs"
    using IMap.prems by (intro unat_length64) simp
  have "skip_pairs is_nfc (dep + 1) None (length kvs) ?d1 = Inr (d_move ?d1 (length (concat (map enc_pair kvs))))"
  proof (rule skip_pairs_complete)
    fix p d assume x: "p \<in> set kvs" "buf_ok d" "starts d (enc_item (fst p))"
    show "skip_one is_nfc (dep + 1) d = Inr (d_move d (length (enc_item (fst p))))"
      using x IMap.prems by (intro IMap.IH(1) [of p]) (auto simp: fsts.simps prod_set_defs)
  next
    fix p d assume x: "p \<in> set kvs" "buf_ok d" "starts d (enc_item (snd p))"
    show "skip_one is_nfc (dep + 1) d = Inr (d_move d (length (enc_item (snd p))))"
      using x IMap.prems by (intro IMap.IH(2) [of p]) (auto simp: snds.simps prod_set_defs)
  qed (use st IMap.prems in simp_all)
  with skip_head [OF IMap.prems(3) _ st(1) IMap.prems(2)] n IMap.prems show ?case
    by (auto simp: skip_one.simps [of is_nfc dep d])
next
  case (IFloat v)
  then have "d_f32q d = Inr (v, d_move d (length (enc_f32q v)))"
    using f32q_item.read_iff by (simp add: enc_item_float del: enc_item.simps)
  then have "d_peek d = Inr 0xFA \<and> and_then (d_take 4 (d_move d 1)) (\<lambda>(s, d').
      if \<not> is_quantised (word_of_nat (be_nat s)) then Inl (FloatError (dpos d)) else Inr d') =
      Inr (d_move d (length (enc_f32q v)))"
    using skip_float [OF IFloat.prems(3)] by blast
  moreover have "enc_item (IFloat v) = enc_f32q v" using IFloat by (simp add: enc_item_float del: enc_item.simps)
  ultimately show ?case using IFloat.prems(2) by (simp add: skip_one.simps [of is_nfc dep d] del: enc_item.simps)
next
  case (IBool b)
  then show ?case by (auto simp: skip_one.simps [of is_nfc dep d] starts_Cons)
qed

interpretation raw_item: item_codec "d_skip_item is_nfc" "\<lambda>raw. raw" "canonical_item is_nfc" for is_nfc
proof
  fix d x d'
  assume ok: "buf_ok d"
  show "d_skip_item is_nfc d = Inr (x, d') \<longleftrightarrow> canonical_item is_nfc x \<and> starts d x \<and> d' = d_move d (length x)"
  proof
    assume "d_skip_item is_nfc d = Inr (x, d')"
    then have run: "skip_one is_nfc 0 d = Inr d'" and x: "x = d_slice d d'"
      by (auto simp: d_skip_item_def and_then_Inr_iff)
    from skip_sound(1) [OF ok run] obtain it where "item_ok is_nfc max_nesting it" "starts d (enc_item it)"
        "d' = d_move d (length (enc_item it))" by auto
    with x slice_move show "canonical_item is_nfc x \<and> starts d x \<and> d' = d_move d (length x)"
      by (auto simp: canonical_item_def)
  next
    assume a: "canonical_item is_nfc x \<and> starts d x \<and> d' = d_move d (length x)"
    then obtain it where "item_ok is_nfc max_nesting it" "x = enc_item it" by (auto simp: canonical_item_def)
    with a ok skip_complete [of is_nfc 0 it d] slice_move [of d x]
    show "d_skip_item is_nfc d = Inr (x, d')" by (simp add: d_skip_item_def)
  qed
qed

subsection \<open>An encoding names one item\<close>

lemma enc_head_prefix:
  assumes "m < 8" "m' < 8" "enc_head m a @ r = enc_head m' a' @ s" "length (enc_head m a @ r) < 2 ^ 64"
  shows "m = m' \<and> a = a' \<and> r = s"
proof -
  have "d_head (dec_new (enc_head m a @ r)) = Inr ((m, a), d_move (dec_new (enc_head m a @ r)) (length (enc_head m a)))"
    using assms(1,4) by (simp only: d_head_Inr buf_ok_new) (simp only: starts_new)
  moreover have "d_head (dec_new (enc_head m' a' @ s)) =
      Inr ((m', a'), d_move (dec_new (enc_head m' a' @ s)) (length (enc_head m' a')))"
    using assms(2,3,4) by (simp only: d_head_Inr buf_ok_new) (simp only: starts_new)
  ultimately have "m = m'" "a = a'" using assms(3) by simp_all
  with assms(3) show ?thesis by simp
qed

lemma concat_prefix:
  assumes "\<And>x y r s. x \<in> set xs \<Longrightarrow> y \<in> set ys \<Longrightarrow> f x @ r = f y @ s \<Longrightarrow> length (f x @ r) < 2 ^ 64 \<Longrightarrow> x = y"
    and "length xs = length ys" "concat (map f xs) @ r = concat (map f ys) @ s"
    and "length (concat (map f xs) @ r) < 2 ^ 64"
  shows "xs = ys"
  using assms(2,1,3,4)
proof (induction xs ys rule: list_induct2)
  case (Cons x xs y ys)
  have xy: "x = y"
    using Cons.prems(1) [of x y "concat (map f xs) @ r" "concat (map f ys) @ s"] Cons.prems(2,3) by simp
  moreover have "xs = ys"
    using Cons.prems xy by (intro Cons.IH) simp_all
  ultimately show ?case by simp
qed simp

lemma head_not_simple:
  assumes "m < 7" "enc_head m a @ r = b # s" "drop_bit 5 b = 7"
  shows False
proof -
  have m: "m < 8" "m \<noteq> 7" using assms(1) by (auto simp: word_less_nat_alt)
  then have "drop_bit 5 (push_bit 5 m OR head_info (unat a)) = m"
    using head_byte_iff [of m "head_info (unat a)" "push_bit 5 m OR head_info (unat a)"] head_info_less by simp
  with assms m show False by (simp add: enc_head_parts)
qed

fun item_major :: "item \<Rightarrow> u8" where
  "item_major (IUint v) = 0"
| "item_major (INeg v) = 1"
| "item_major (IBytes b) = 2"
| "item_major (IText b) = 3"
| "item_major (IArr xs) = 4"
| "item_major (IMap kvs) = 5"
| "item_major (IFloat v) = 7"
| "item_major (IBool b) = 7"

fun item_arg :: "item \<Rightarrow> u64" where
  "item_arg (IUint v) = v"
| "item_arg (INeg v) = v"
| "item_arg (IBytes b) = word_of_nat (length b)"
| "item_arg (IText b) = word_of_nat (length b)"
| "item_arg (IArr xs) = word_of_nat (length xs)"
| "item_arg (IMap kvs) = word_of_nat (length kvs)"
| "item_arg _ = 0"

fun item_tail :: "item \<Rightarrow> bytes" where
  "item_tail (IBytes b) = b"
| "item_tail (IText b) = b"
| "item_tail (IArr xs) = concat (map enc_item xs)"
| "item_tail (IMap kvs) = concat (map enc_pair kvs)"
| "item_tail _ = []"

lemma enc_item_parts:
  "item_major it \<noteq> 7 \<Longrightarrow>
     item_major it < 7 \<and> enc_item it = enc_head (item_major it) (item_arg it) @ item_tail it"
  by (cases it) simp_all

lemma enc_item_simple: "item_major it = 7 \<Longrightarrow> \<exists>b t. enc_item it = b # t \<and> drop_bit 5 b = 7"
  by (cases it) auto

lemma enc_item_step:
  assumes eq: "enc_item it @ r = enc_item it' @ s" and len: "length (enc_item it @ r) < 2 ^ 64"
  shows "item_major it = item_major it'"
    and "item_major it \<noteq> 7 \<Longrightarrow> item_arg it = item_arg it' \<and> item_tail it @ r = item_tail it' @ s"
proof -
  have lt8: "m < 7 \<Longrightarrow> m < 8" for m :: u8 by (simp add: word_less_nat_alt)
  have mixed: False if a: "item_major i \<noteq> 7" "item_major j = 7" "enc_item i @ u = enc_item j @ v" for i j u v
  proof -
    obtain b t where b: "enc_item j = b # t" "drop_bit 5 b = 7"
      using enc_item_simple [OF a(2)] by blast
    show False
      using enc_item_parts [OF a(1)] a(3) b head_not_simple [of "item_major i" "item_arg i" "item_tail i @ u" b "t @ v"]
      by simp
  qed
  have both: "item_major it = item_major it' \<and> item_arg it = item_arg it' \<and> item_tail it @ r = item_tail it' @ s"
    if "item_major it \<noteq> 7" "item_major it' \<noteq> 7"
    using enc_head_prefix [of "item_major it" "item_major it'" "item_arg it" "item_tail it @ r" "item_arg it'" "item_tail it' @ s"]
      enc_item_parts [OF that(1)] enc_item_parts [OF that(2)] eq len lt8 by simp
  show "item_major it = item_major it'"
    using both mixed [OF _ _ eq] mixed [OF _ _ eq [symmetric]] by metis
  then show "item_major it \<noteq> 7 \<Longrightarrow> item_arg it = item_arg it' \<and> item_tail it @ r = item_tail it' @ s"
    using both by metis
qed

lemma word_of_nat_length_eq:
  "(word_of_nat (length xs) :: u64) = word_of_nat (length ys) \<Longrightarrow>
     length xs < 2 ^ 64 \<Longrightarrow> length ys < 2 ^ 64 \<Longrightarrow> length xs = length ys"
  by (metis unat_length64)

lemma enc_item_prefix:
  assumes "item_ok is_nfc n it" "item_ok is_nfc n' it'" "enc_item it @ r = enc_item it' @ s"
    "length (enc_item it @ r) < 2 ^ 64"
  shows "it = it'"
  using assms
proof (induction it arbitrary: n n' it' r s)
  case (IUint v)
  with enc_item_step [OF IUint.prems(3,4)] show ?case by (cases it') simp_all
next
  case (INeg v)
  with enc_item_step [OF INeg.prems(3,4)] show ?case by (cases it') simp_all
next
  case (IBytes b)
  with enc_item_step [OF IBytes.prems(3,4)] show ?case
    by (cases it') (auto dest: word_of_nat_length_eq)
next
  case (IText b)
  with enc_item_step [OF IText.prems(3,4)] show ?case
    by (cases it') (auto dest: word_of_nat_length_eq)
next
  case (IArr xs)
  note st = enc_item_step [OF IArr.prems(3,4)]
  from st(1) obtain ys where it': "it' = IArr ys" by (cases it') simp_all
  have len: "length xs = length ys"
    using st(2) IArr.prems(1,2) by (intro word_of_nat_length_eq) (simp_all add: it')
  have "xs = ys"
  proof (rule concat_prefix [where f = enc_item])
    fix x y r s
    assume "x \<in> set xs" "y \<in> set ys" "enc_item x @ r = enc_item y @ s" "length (enc_item x @ r) < 2 ^ 64"
    then show "x = y"
      using IArr.prems(1,2) by (intro IArr.IH [of x "n - 1" "n' - 1" y r s]) (auto simp: it')
  next
    show "length (concat (map enc_item xs) @ r) < 2 ^ 64" using IArr.prems(4) by simp
  qed (use st(2) len in \<open>simp_all add: it'\<close>)
  with it' show ?case by simp
next
  case (IMap kvs)
  note st = enc_item_step [OF IMap.prems(3,4)]
  from st(1) obtain lvs where it': "it' = IMap lvs" by (cases it') simp_all
  have len: "length kvs = length lvs"
    using st(2) IMap.prems(1,2) by (intro word_of_nat_length_eq) (simp_all add: it')
  have "kvs = lvs"
  proof (rule concat_prefix [where f = enc_pair])
    fix p q r s
    assume p: "p \<in> set kvs" and q: "q \<in> set lvs"
      and eq: "enc_pair p @ r = enc_pair q @ s" "length (enc_pair p @ r) < 2 ^ 64"
    have ok: "item_ok is_nfc (n - 1) (fst p)" "item_ok is_nfc (n - 1) (snd p)"
        "item_ok is_nfc (n' - 1) (fst q)" "item_ok is_nfc (n' - 1) (snd q)"
      using IMap.prems(1,2) p q by (auto simp: it')
    have eq': "enc_item (fst p) @ enc_item (snd p) @ r = enc_item (fst q) @ enc_item (snd q) @ s"
        "length (enc_item (fst p) @ enc_item (snd p) @ r) < 2 ^ 64"
      using eq by (cases p; cases q; simp)+
    have "fst p = fst q"
      by (rule IMap.IH(1) [OF p _ ok(1) ok(3) eq']) (auto simp: fsts.simps prod_set_defs)
    moreover have eq'': "enc_item (snd p) @ r = enc_item (snd q) @ s" "length (enc_item (snd p) @ r) < 2 ^ 64"
      using eq' calculation by simp_all
    have "snd p = snd q"
      by (rule IMap.IH(2) [OF p _ ok(2) ok(4) eq'']) (auto simp: snds.simps prod_set_defs)
    ultimately show "p = q" by (simp add: prod_eq_iff)
  next
    show "length (concat (map enc_pair kvs) @ r) < 2 ^ 64" using IMap.prems(4) by simp
  qed (use st(2) len in \<open>simp_all add: it'\<close>)
  with it' show ?case by simp
next
  case (IFloat v)
  from enc_item_step(1) [OF IFloat.prems(3,4)] IFloat.prems(3) show ?case
  proof (cases it')
    case (IFloat w)
    then have "be_bytes 4 (unat v) = be_bytes 4 (unat w)" using IFloat.prems(3) \<open>enc_item _ @ r = _\<close> by simp
    then have "unat v mod 256 ^ 4 = unat w mod 256 ^ 4" by (metis be_nat_be_bytes)
    moreover have "unat v < 256 ^ 4" "unat w < 256 ^ 4"
      using unsigned_less [of v] unsigned_less [of w] by simp_all
    ultimately show ?thesis using IFloat by (simp add: word_unat_eq_iff)
  qed (simp_all split: if_splits)
next
  case (IBool b)
  from enc_item_step(1) [OF IBool.prems(3,4)] IBool.prems(3) show ?case
    by (cases it') (auto split: if_splits)
qed

subsection \<open>Properties\<close>

text \<open>
  C13. Skipping a value accepts exactly the canonical items: \<open>skip_item\<close> succeeds if and only if the
  bytes at the cursor are the encoding of some well-formed item nested at most 128 deep (shortest
  heads, valid normalised text, quantised floats, strictly ascending map keys), it returns those
  bytes, and it moves the cursor past them and no further.
\<close>

theorem skip_item_canonical:
  assumes "length (dbuf d) < 2 ^ 64"
  shows "d_skip_item is_nfc d = Inr (raw, d') \<longleftrightarrow>
    (\<exists>it. item_ok is_nfc 128 it \<and> raw = enc_item it) \<and>
    take (length raw) (drop (dpos d) (dbuf d)) = raw \<and> d' = d\<lparr>dpos := dpos d + length raw\<rparr>"
  using raw_item.read_iff [of d is_nfc raw d'] assms
  by (simp add: buf_ok_def canonical_item_def max_nesting_def starts_def d_move_def)

theorem skip_item_canonical_witness:
  "d_skip_item (\<lambda>_. True) (dec_new (enc_item (IMap [(IUint 1, IBool True)]) @ [0])) =
     Inr (enc_item (IMap [(IUint 1, IBool True)]), (dec_new (enc_item (IMap [(IUint 1, IBool True)]) @ [0]))\<lparr>dpos := 3\<rparr>)"
proof -
  let ?i = "IMap [(IUint 1, IBool True)]"
  have i: "enc_item ?i = [0xA1, 0x01, 0xF5]"
    by (simp add: enc_head_def Let_def)
  have "\<exists>it. item_ok (\<lambda>_. True) 128 it \<and> enc_item ?i = enc_item it"
    by (rule exI [of _ ?i]) simp
  then show ?thesis
    unfolding i by (intro skip_item_canonical [THEN iffD2]) (simp_all add: dec_new_def)
qed

end
