(* ===== verification/Cbor_Maps.thy ===== *)
theory Cbor_Maps
  imports Cbor_Canon
begin

section \<open>Record maps\<close>

text \<open>
  \<open>Enc::map\<close> with \<open>MapBuilder\<close>, \<open>Dec::map_key\<close>, \<open>Dec::reject_null\<close>, and \<open>read_map\<close> of
  \<open>envelope.rs\<close>, the loop under every record decoder: known keys go to the record's handler, the
  value of an unknown key is kept as its raw bytes. The locale \<open>record_fields\<close> states what a
  handler owes the loop and proves once which byte strings a record decoder accepts.
\<close>

type_synonym entries = "(u16 \<times> bytes) list"
type_synonym extra = "(u16, bytes) bmap"

subsection \<open>Writing\<close>

definition enc_entry :: "u16 \<times> bytes \<Rightarrow> bytes" where
  "enc_entry p = enc_uint (ucast (fst p)) @ snd p"

definition enc_map :: "entries \<Rightarrow> bytes" where
  "enc_map entries =
     enc_head major_map (word_of_nat (length entries)) @ concat (map enc_entry (sort_key fst entries))"

definition mb_put :: "u16 \<Rightarrow> bytes \<Rightarrow> entries \<Rightarrow> entries" where
  "mb_put k v m = m @ [(k, v)]"

definition mb_put_opt :: "u16 \<Rightarrow> 'a option \<Rightarrow> ('a \<Rightarrow> bytes) \<Rightarrow> entries \<Rightarrow> entries" where
  "mb_put_opt k v f m = (case v of Some x \<Rightarrow> m @ [(k, f x)] | None \<Rightarrow> m)"

definition mb_put_uid_set :: "u16 \<Rightarrow> uid list \<Rightarrow> entries \<Rightarrow> entries" where
  "mb_put_uid_set k us m = (if length us > 0 then m @ [(k, enc_uid_set us)] else m)"

definition mb_put_sorted_set :: "u16 \<Rightarrow> bytes list \<Rightarrow> entries \<Rightarrow> entries" where
  "mb_put_sorted_set k items m = (if items \<noteq> [] then m @ [(k, enc_sorted_array items)] else m)"

definition mb_put_array :: "u16 \<Rightarrow> bytes list \<Rightarrow> entries \<Rightarrow> entries" where
  "mb_put_array k items m = (if items \<noteq> [] then m @ [(k, enc_array items)] else m)"

definition mb_put_extra :: "extra \<Rightarrow> entries \<Rightarrow> entries" where
  "mb_put_extra extra m = m @ extra"

definition mb_into_bytes :: "entries \<Rightarrow> bytes" where
  "mb_into_bytes m = enc_map m"

subsection \<open>Reading\<close>

definition d_map_head :: "dec \<Rightarrow> codec_error + nat \<times> dec" where
  "d_map_head d = and_then (d_expect major_map d) (\<lambda>(n, d'). Inr (unat n, d'))"

definition d_map_key :: "u16 option \<Rightarrow> dec \<Rightarrow> codec_error + u16 \<times> dec" where
  "d_map_key prev d =
     and_then (d_uint d) (\<lambda>(k64, d').
       if unat k64 > 65535 then Inl (MalformedEnvelope (dpos d))
       else let k = ucast k64 in
         (case prev of
            Some p \<Rightarrow>
              if k = p then Inl (NonDeterministic (dpos d) DuplicateMapKey)
              else if k < p then Inl (NonDeterministic (dpos d) UnsortedMapKeys)
              else Inr (k, d')
          | None \<Rightarrow> Inr (k, d')))"

definition d_reject_null :: "dec \<Rightarrow> codec_error + unit" where
  "d_reject_null d =
     and_then (d_peek d) (\<lambda>b. if b = 0xF6 then Inl (NonDeterministic (dpos d) NullOptional) else Inr ())"

text \<open>A handler changes the state and says whether it knows the key; if not, it reads nothing.\<close>

type_synonym 's handler = "'s \<Rightarrow> u16 \<Rightarrow> dec \<Rightarrow> codec_error + (bool \<times> 's) \<times> dec"

text \<open>One entry: a null is refused, a known key is handled, the bytes of an unknown value are kept.\<close>

definition read_value ::
  "(string \<Rightarrow> bool) \<Rightarrow> 's handler \<Rightarrow> u16 \<Rightarrow> 's \<times> extra \<Rightarrow> dec \<Rightarrow> codec_error + ('s \<times> extra) \<times> dec" where
  "read_value is_nfc f k st d =
     and_then (d_reject_null d) (\<lambda>_.
     and_then (f (fst st) k d) (\<lambda>((known, s'), d1).
       if known then Inr ((s', snd st), d1)
       else and_then (d_skip_item is_nfc d1) (\<lambda>(raw, d2). Inr ((s', bm_insert k raw (snd st)), d2))))"

fun read_entries ::
  "(string \<Rightarrow> bool) \<Rightarrow> 's handler \<Rightarrow> u16 option \<Rightarrow> nat \<Rightarrow> 's \<times> extra \<Rightarrow> dec \<Rightarrow> codec_error + ('s \<times> extra) \<times> dec"
where
  "read_entries is_nfc f prev 0 st d = Inr (st, d)"
| "read_entries is_nfc f prev (Suc n) st d =
     and_then (d_map_key prev d) (\<lambda>(k, d1).
     and_then (read_value is_nfc f k st d1) (\<lambda>(st', d2).
       read_entries is_nfc f (Some k) n st' d2))"

definition read_map :: "(string \<Rightarrow> bool) \<Rightarrow> 's handler \<Rightarrow> 's \<Rightarrow> dec \<Rightarrow> codec_error + ('s \<times> extra) \<times> dec" where
  "read_map is_nfc f s d = and_then (d_map_head d) (\<lambda>(n, d'). read_entries is_nfc f None n (s, []) d')"

subsection \<open>Keys\<close>

lemma d_map_head_Inr:
  assumes "buf_ok d"
  shows "d_map_head d = Inr (n, d') \<longleftrightarrow>
    n < 2 ^ 64 \<and> starts d (enc_head major_map (word_of_nat n)) \<and>
    d' = d_move d (length (enc_head major_map (word_of_nat n)))"
proof
  assume "d_map_head d = Inr (n, d')"
  then obtain w where w: "d_expect major_map d = Inr (w, d')" "n = unat w"
    by (auto simp: d_map_head_def and_then_Inr_iff)
  then have "n < 2 ^ 64" using unsigned_less [of w] by simp
  with w assms show "n < 2 ^ 64 \<and> starts d (enc_head major_map (word_of_nat n)) \<and>
      d' = d_move d (length (enc_head major_map (word_of_nat n)))"
    by (simp add: d_expect_Inr)
next
  assume a: "n < 2 ^ 64 \<and> starts d (enc_head major_map (word_of_nat n)) \<and>
      d' = d_move d (length (enc_head major_map (word_of_nat n)))"
  then have "d_expect major_map d = Inr (word_of_nat n, d')"
    using assms by (simp add: d_expect_Inr)
  with a show "d_map_head d = Inr (n, d')"
    using unat_length64 [of n] by (simp add: d_map_head_def)
qed

lemma ucast_u16_u64:
  fixes k :: u16 and w :: u64
  shows "unat w \<le> 65535 \<and> ucast w = k \<longleftrightarrow> w = ucast k"
proof -
  have kb: "unat k < 65536" using unsigned_less [of k] by simp
  have k: "unat (ucast k :: u64) = unat k"
    using kb by (simp only: unsigned_ucast_eq) (simp add: take_bit_nat_eq_self)
  have w: "unat w \<le> 65535 \<Longrightarrow> unat (ucast w :: u16) = unat w"
    by (simp only: unsigned_ucast_eq) (simp add: take_bit_nat_eq_self)
  have "unat w \<le> 65535 \<and> ucast w = k \<longleftrightarrow> unat w = unat k"
    using kb w by (auto simp: word_unat_eq_iff)
  also have "\<dots> \<longleftrightarrow> w = ucast k"
    using k by (metis word_unat_eq_iff)
  finally show ?thesis .
qed

lemma d_map_key_Inr:
  assumes "buf_ok d"
  shows "d_map_key prev d = Inr (k, d') \<longleftrightarrow>
    follows prev k \<and> starts d (enc_uint (ucast k)) \<and> d' = d_move d (length (enc_uint (ucast k)))"
proof -
  have "d_map_key prev d = Inr (k, d') \<longleftrightarrow>
      (\<exists>w. d_uint d = Inr (w, d') \<and> (unat w \<le> 65535 \<and> ucast w = k) \<and> follows prev k)"
    by (auto simp: d_map_key_def and_then_Inr_iff Let_def follows_def not_less split: if_splits option.splits)
  also have "\<dots> \<longleftrightarrow> follows prev k \<and> d_uint d = Inr (ucast k, d')"
    unfolding ucast_u16_u64 by blast
  finally show ?thesis using uint_item.read_iff [OF assms] by blast
qed

text \<open>No value of the profile begins with the byte of null.\<close>

definition not_null :: "bytes \<Rightarrow> bool" where
  "not_null bs \<longleftrightarrow> (\<exists>b r. bs = b # r \<and> b \<noteq> 0xF6)"

lemma not_null_append [simp]: "not_null a \<Longrightarrow> not_null (a @ b)"
  by (auto simp: not_null_def)

lemma not_null_head [simp]: "m < 7 \<Longrightarrow> not_null (enc_head m arg)"
proof -
  assume "m < 7"
  then have "m < 8" "m \<noteq> 7" by (auto simp: word_less_nat_alt)
  moreover have "drop_bit 5 (0xF6 :: u8) = 7" by simp
  ultimately show ?thesis
    using head_byte_iff [of m "head_info (unat arg)" "0xF6"] head_info_less [of "unat arg"]
    by (auto simp: not_null_def enc_head_parts)
qed

lemma not_null_item: "not_null (enc_item it)"
proof (cases it)
  case (IFloat v)
  then show ?thesis by (simp add: not_null_def)
next
  case (IBool b)
  then show ?thesis by (simp add: not_null_def)
qed simp_all

lemma not_null_canonical: "canonical_item is_nfc raw \<Longrightarrow> not_null raw"
  by (auto simp: canonical_item_def not_null_item)

lemma not_null_scalars [simp]:
  "not_null (enc_uint v)" "not_null (enc_int i)" "not_null (enc_bytes b)"
  "not_null (enc_text is_nfc nfc s)" "not_null (enc_f32q f)" "not_null (enc_uid u)"
  "not_null (enc_uid_set us)" "not_null (enc_array items)" "not_null (enc_sorted_array items)"
  by (auto simp: enc_uint_def enc_int_def enc_bytes_def enc_text_def enc_uid_def enc_uid_set_def
      enc_array_def enc_sorted_array_def enc_array_head_def enc_f32q_def not_null_def [of "_ # _"])

lemma d_reject_null_starts: "starts d bs \<Longrightarrow> not_null bs \<Longrightarrow> d_reject_null d = Inr ()"
  by (auto simp: not_null_def d_reject_null_def starts_Cons)

subsection \<open>Fields\<close>

text \<open>
  \<open>field\<close> is an arm of a decoder's \<open>match\<close>: read a value, store it, \<open>Ok(true)\<close>; \<open>pass\<close> is its last
  arm. \<open>d_via\<close> is a read followed by a conversion whose failure is \<open>bad(at)\<close>.
\<close>

definition field :: "(dec \<Rightarrow> codec_error + 'x \<times> dec) \<Rightarrow> ('x \<Rightarrow> 's \<Rightarrow> 's) \<Rightarrow> 's \<Rightarrow> dec \<Rightarrow> codec_error + (bool \<times> 's) \<times> dec" where
  "field rd store s d = and_then (rd d) (\<lambda>(x, d'). Inr ((True, store x s), d'))"

definition pass :: "'s \<Rightarrow> dec \<Rightarrow> codec_error + (bool \<times> 's) \<times> dec" where
  "pass s d = Inr ((False, s), d)"

definition d_via :: "nat \<Rightarrow> ('x \<Rightarrow> 'y option) \<Rightarrow> (dec \<Rightarrow> codec_error + 'x \<times> dec) \<Rightarrow> dec \<Rightarrow> codec_error + 'y \<times> dec" where
  "d_via at p rd d =
     and_then (rd d) (\<lambda>(x, d'). case p x of None \<Rightarrow> Inl (MalformedEnvelope at) | Some y \<Rightarrow> Inr (y, d'))"

text \<open>What a writer puts under a key: always, for \<open>Some\<close>, or under a condition; with what reading it does.\<close>

type_synonym 's put = "u16 \<times> (bytes \<times> ('s \<Rightarrow> 's)) option"

definition must :: "u16 \<Rightarrow> bytes \<Rightarrow> ('s \<Rightarrow> 's) \<Rightarrow> 's put" where
  "must k b g = (k, Some (b, g))"

definition may :: "u16 \<Rightarrow> 'a option \<Rightarrow> ('a \<Rightarrow> bytes) \<Rightarrow> ('a option \<Rightarrow> 's \<Rightarrow> 's) \<Rightarrow> 's put" where
  "may k v e g = (k, map_option (\<lambda>x. (e x, g (Some x))) v)"

definition unless_nil :: "u16 \<Rightarrow> 'a list \<Rightarrow> bytes \<Rightarrow> ('a list \<Rightarrow> 's \<Rightarrow> 's) \<Rightarrow> 's put" where
  "unless_nil k xs b g = (k, if xs = [] then None else Some (b, g xs))"

definition put_entry :: "'s put \<Rightarrow> entries" where
  "put_entry p = (case snd p of None \<Rightarrow> [] | Some (b, _) \<Rightarrow> [(fst p, b)])"

definition put_run :: "'s put \<Rightarrow> 's \<Rightarrow> 's" where
  "put_run p = (case snd p of None \<Rightarrow> id | Some (_, g) \<Rightarrow> g)"

lemma put_key [simp]:
  "fst (must k b g) = k" "fst (may k v e h) = k" "fst (unless_nil k xs b g') = k"
  by (simp_all add: must_def may_def unless_nil_def)

lemma put_entry_simps [simp]:
  "put_entry (must k b g) = [(k, b)]"
  "put_entry (may k v e h) = (case v of None \<Rightarrow> [] | Some x \<Rightarrow> [(k, e x)])"
  "put_entry (unless_nil k xs b g') = (if xs = [] then [] else [(k, b)])"
  by (simp_all add: put_entry_def must_def may_def unless_nil_def split: option.splits)

lemma put_run_simps [simp]:
  "put_run (must k b g) s = g s"
  "h None s = s \<Longrightarrow> put_run (may k v e h) s = h v s"
  "g' [] s = s \<Longrightarrow> put_run (unless_nil k xs b g') s = g' xs s"
  by (simp_all add: put_run_def must_def may_def unless_nil_def split: option.splits)

lemma mb_puts:
  "mb_put k b m = m @ [(k, b)]"
  "mb_put_opt k v e m = m @ (case v of None \<Rightarrow> [] | Some x \<Rightarrow> [(k, e x)])"
  "mb_put_uid_set k us m = m @ (if us = [] then [] else [(k, enc_uid_set us)])"
  "mb_put_array k items m = m @ (if items = [] then [] else [(k, enc_array items)])"
  "mb_put_sorted_set k items m = m @ (if items = [] then [] else [(k, enc_sorted_array items)])"
  by (simp_all add: mb_put_def mb_put_opt_def mb_put_uid_set_def mb_put_array_def mb_put_sorted_set_def
      split: option.splits)

lemma map_insort_key: "(\<And>x. f (g x) = f' x) \<Longrightarrow> map g (insort_key f' x xs) = insort_key f (g x) (map g xs)"
  by (induction xs) auto

lemma map_sort_key: "(\<And>x. f (g x) = f' x) \<Longrightarrow> map g (sort_key f' xs) = sort_key f (map g xs)"
  by (induction xs) (simp_all add: map_insort_key [of f g])

subsection \<open>Readable values of fields\<close>

definition reads :: "'s handler \<Rightarrow> u16 \<Rightarrow> bytes \<Rightarrow> ('s \<Rightarrow> 's) \<Rightarrow> bool" where
  "reads f k b g \<longleftrightarrow> not_null b \<and>
     (\<forall>s d. buf_ok d \<longrightarrow> starts d b \<longrightarrow> f s k d = Inr ((True, g s), d_move d (length b)))"

definition put_ok :: "'s handler \<Rightarrow> 's put \<Rightarrow> bool" where
  "put_ok f p \<longleftrightarrow> (case snd p of None \<Rightarrow> True | Some (b, g) \<Rightarrow> reads f (fst p) b g)"

lemma put_ok_simps [simp]:
  "put_ok f (must k b g) \<longleftrightarrow> reads f k b g"
  "put_ok f (may k v e h) \<longleftrightarrow> (\<forall>x. v = Some x \<longrightarrow> reads f k (e x) (h (Some x)))"
  "put_ok f (unless_nil k xs b g') \<longleftrightarrow> (xs \<noteq> [] \<longrightarrow> reads f k b (g' xs))"
  by (auto simp: put_ok_def must_def may_def unless_nil_def split: option.splits)

context reader
begin

lemma field_ok: "field rd store s d = Inr ((b, s'), d') \<Longrightarrow> buf_ok d \<Longrightarrow>
    b \<and> moves d d' \<and> (\<exists>x. ok x \<and> s' = store x s)"
  by (auto simp: field_def and_then_Inr_iff dest: reads_ok)

lemma field_keeps: "field rd store s d = Inr ((b, s'), d') \<Longrightarrow> buf_ok d \<Longrightarrow> (\<And>x. ok x \<Longrightarrow> keep (store x s)) \<Longrightarrow>
    b \<and> keep s' \<and> moves d d'"
  by (auto dest!: field_ok)

lemma via_reader:
  assumes "\<And>x y. ok x \<Longrightarrow> p x = Some y \<Longrightarrow> ok' y"
  shows "reader (d_via at p rd) ok'"
  by unfold_locales (use assms reads_ok in \<open>fastforce simp: d_via_def and_then_Inr_iff split: option.splits\<close>)

end

context writable
begin

lemma reads_field:
  assumes "\<And>s d. f s k d = field rd store s d" "ok x" "not_null (wr x)"
  shows "reads f k (wr x) (store x)"
  using assms by (simp add: reads_def field_def written)

lemma put_must:
  assumes "\<And>s d. f s k d = field rd store s d" "ok x" "not_null (wr x)"
  shows "put_ok f (must k (wr x) (store x))"
  using reads_field [of f k store x] assms by simp

lemma put_may:
  assumes "\<And>s d. f s k d = field rd (\<lambda>x. store (Some x)) s d" "pred_option ok v" "\<And>x. ok x \<Longrightarrow> not_null (wr x)"
  shows "put_ok f (may k v wr store)"
  using reads_field [of f k "\<lambda>x. store (Some x)"] assms by (auto simp: option.pred_set)

end

context readable
begin

lemma via_readable:
  assumes "\<And>x y. ok x \<Longrightarrow> p x = Some y \<Longrightarrow> ok' y" "\<And>y. ok' y \<Longrightarrow> ok (q y) \<and> p (q y) = Some y"
  shows "readable (d_via at p rd) ok' (\<lambda>y. wr (q y))"
proof (intro readable.intro via_reader writable.intro)
  fix x d
  assume "ok' x" "starts d (wr (q x))" "buf_ok d"
  then show "d_via at p rd d = Inr (x, d_move d (length (wr (q x))))"
    using assms(2) [of x] written [of "q x" d] by (simp add: d_via_def)
qed (rule assms(1))

end

lemma put_unless_nil:
  assumes "writable rd ok wr" and "\<And>s d. f s k d = field rd store s d" "ok xs" "not_null (wr xs)"
  shows "put_ok f (unless_nil k xs (wr xs) store)"
  using writable.reads_field [of rd ok wr f k store xs] assms by simp

context item_codec
begin

lemma via_codec:
  assumes "\<And>x y. ok x \<Longrightarrow> p x = Some y \<longleftrightarrow> x = q y \<and> ok' y" "\<And>y. ok' y \<Longrightarrow> ok (q y)"
  shows "item_codec (d_via at p rd) (\<lambda>y. wr (q y)) ok'"
proof
  fix d x d'
  assume "buf_ok d"
  have "d_via at p rd d = Inr (x, d') \<longleftrightarrow> (\<exists>y. rd d = Inr (y, d') \<and> p y = Some x)"
    by (auto simp: d_via_def and_then_Inr_iff split: option.splits)
  also have "\<dots> \<longleftrightarrow> ok' x \<and> starts d (wr (q x)) \<and> d' = d_move d (length (wr (q x)))"
    using assms \<open>buf_ok d\<close> by (auto simp: read_iff)
  finally show "d_via at p rd d = Inr (x, d') \<longleftrightarrow> ok' x \<and> starts d (wr (q x)) \<and> d' = d_move d (length (wr (q x)))" .
qed

end

lemma pass_ok [simp]: "pass s d = Inr ((b, s'), d') \<longleftrightarrow> \<not> b \<and> s' = s \<and> d' = d"
  by (auto simp: pass_def)

subsection \<open>What a handler owes the loop\<close>

text \<open>
  The contract of a record decoder's handler: it knows a fixed set of keys, consumes nothing of an
  unknown one, and keeps the invariant of its state. The client, \<open>read_map\<close>, then reads back what
  any writer of known fields and preserved unknown entries wrote, whatever the order of the known
  and unknown keys, and whatever it accepts satisfies the invariant and keeps only canonical values
  of unknown keys.
\<close>

definition extra_ok :: "u16 \<Rightarrow> (string \<Rightarrow> bool) \<Rightarrow> extra \<Rightarrow> bool" where
  "extra_ok highest is_nfc e \<longleftrightarrow> bm_ok e \<and> (\<forall>(k, raw) \<in> set e. highest < k \<and> canonical_item is_nfc raw)"

locale record_map =
  fixes f :: "'s handler"
    and highest :: u16
    and inv :: "'s \<Rightarrow> bool"
  assumes unknown: "highest < k \<Longrightarrow> f s k d = Inr ((False, s), d)"
    and keeps: "f s k d = Inr ((b, s'), d') \<Longrightarrow> buf_ok d \<Longrightarrow> inv s \<Longrightarrow> (b \<longleftrightarrow> k \<le> highest) \<and> inv s' \<and> moves d d'"
begin

lemma extra_ok_insert: "extra_ok highest is_nfc e \<Longrightarrow> highest < k \<Longrightarrow> canonical_item is_nfc raw \<Longrightarrow> extra_ok highest is_nfc (bm_insert k raw e)"
  using bm_get_insert [of e k raw] bm_ok_insert [of e k raw]
  by (auto simp: extra_ok_def simp flip: bm_get_Some_iff dest!: map_of_SomeD split: if_splits)

lemma read_value_ok:
  assumes "read_value is_nfc f k st d = Inr (st', d')" "buf_ok d" "inv (fst st)" "extra_ok highest is_nfc (snd st)"
  shows "moves d d' \<and> inv (fst st') \<and> extra_ok highest is_nfc (snd st')"
proof -
  from assms(1) obtain b s' d1 where h: "f (fst st) k d = Inr ((b, s'), d1)"
    and go: "(if b then Inr ((s', snd st), d1)
      else and_then (d_skip_item is_nfc d1) (\<lambda>(raw, d2). Inr ((s', bm_insert k raw (snd st)), d2))) = Inr (st', d')"
    by (auto simp: read_value_def and_then_Inr_iff)
  from keeps [OF h assms(2,3)] have k: "b \<longleftrightarrow> k \<le> highest" "inv s'" "moves d d1" by blast+
  show ?thesis
  proof (cases b)
    case True
    with go k assms(4) show ?thesis by auto
  next
    case False
    with go obtain raw where "d_skip_item is_nfc d1 = Inr (raw, d')" "st' = (s', bm_insert k raw (snd st))"
      by (auto simp: and_then_Inr_iff)
    with False k assms(4) show ?thesis by (auto simp: extra_ok_insert dest!: raw_item.reads_ok)
  qed
qed

lemma read_entries_ok:
  "read_entries is_nfc f prev n st d = Inr (st', d') \<Longrightarrow> buf_ok d \<Longrightarrow> inv (fst st) \<Longrightarrow> extra_ok highest is_nfc (snd st) \<Longrightarrow>
   moves d d' \<and> inv (fst st') \<and> extra_ok highest is_nfc (snd st')"
proof (induction n arbitrary: prev st d)
  case (Suc n)
  then obtain k d1 st1 d2 where k: "d_map_key prev d = Inr (k, d1)" and v: "read_value is_nfc f k st d1 = Inr (st1, d2)"
    and r: "read_entries is_nfc f (Some k) n st1 d2 = Inr (st', d')"
    by (auto simp: and_then_Inr_iff)
  have d1: "moves d d1"
    using k Suc.prems(2) moves_written [of d "enc_uint (ucast k)"] by (simp add: d_map_key_Inr)
  then have s: "moves d1 d2 \<and> inv (fst st1) \<and> extra_ok highest is_nfc (snd st1)"
    using read_value_ok [OF v _ Suc.prems(3,4)] by blast
  then have "moves d2 d' \<and> inv (fst st') \<and> extra_ok highest is_nfc (snd st')"
    using Suc.IH [OF r] by blast
  with d1 s show ?case by auto
qed simp

lemma read_map_ok:
  assumes "read_map is_nfc f s d = Inr ((s', e), d')" "buf_ok d" "inv s"
  shows "inv s' \<and> extra_ok highest is_nfc e \<and> moves d d'"
proof -
  from assms(1) obtain n d1 where h: "d_map_head d = Inr (n, d1)" "read_entries is_nfc f None n (s, []) d1 = Inr ((s', e), d')"
    by (auto simp: read_map_def and_then_Inr_iff)
  then have "moves d d1"
    using assms(2) moves_written [of d "enc_head major_map (word_of_nat n)"] by (simp add: d_map_head_Inr)
  with read_entries_ok [OF h(2)] assms(3) show ?thesis by (auto simp: extra_ok_def)
qed

text \<open>A written entry as an event: a known key with its effect, or an unknown key with its raw bytes.\<close>

definition event_bytes :: "u16 \<times> (bytes \<times> ('s \<Rightarrow> 's) + bytes) \<Rightarrow> u16 \<times> bytes" where
  "event_bytes v = (fst v, case snd v of Inl (b, _) \<Rightarrow> b | Inr raw \<Rightarrow> raw)"

definition event_run :: "u16 \<times> (bytes \<times> ('s \<Rightarrow> 's) + bytes) \<Rightarrow> 's \<times> extra \<Rightarrow> 's \<times> extra" where
  "event_run v st = (case snd v of Inl (_, g) \<Rightarrow> (g (fst st), snd st) | Inr raw \<Rightarrow> (fst st, bm_insert (fst v) raw (snd st)))"

definition event_ok :: "(string \<Rightarrow> bool) \<Rightarrow> u16 \<times> (bytes \<times> ('s \<Rightarrow> 's) + bytes) \<Rightarrow> bool" where
  "event_ok is_nfc v \<longleftrightarrow> (case snd v of Inl (b, g) \<Rightarrow> reads f (fst v) b g
     | Inr raw \<Rightarrow> highest < fst v \<and> canonical_item is_nfc raw)"

lemma read_value_written:
  assumes "event_ok is_nfc v" "starts d (snd (event_bytes v))" "buf_ok d"
  shows "read_value is_nfc f (fst v) st d = Inr (event_run v st, d_move d (length (snd (event_bytes v))))"
proof (cases "snd v")
  case (Inl p)
  obtain b g where p: "p = (b, g)" by fastforce
  with Inl assms have "not_null b" "starts d b"
    "f (fst st) (fst v) d = Inr ((True, g (fst st)), d_move d (length b))"
    by (auto simp: event_ok_def event_bytes_def reads_def)
  then show ?thesis
    using Inl p by (simp add: read_value_def d_reject_null_starts event_run_def event_bytes_def)
next
  case (Inr raw)
  with assms have "highest < fst v" "canonical_item is_nfc raw" "starts d raw"
    by (auto simp: event_ok_def event_bytes_def)
  then show ?thesis
    using Inr assms(3) raw_item.written [of is_nfc raw d] unknown [of "fst v" "fst st" d]
    by (simp add: read_value_def d_reject_null_starts not_null_canonical event_run_def event_bytes_def)
qed

lemma read_entries_written:
  "after prev (map fst vs) \<Longrightarrow> list_all (event_ok is_nfc) vs \<Longrightarrow>
   starts d (concat (map (enc_entry \<circ> event_bytes) vs)) \<Longrightarrow> buf_ok d \<Longrightarrow>
   read_entries is_nfc f prev (length vs) st d =
     Inr (fold event_run vs st, d_move d (length (concat (map (enc_entry \<circ> event_bytes) vs))))"
proof (induction vs arbitrary: prev st d)
  case (Cons v vs)
  have e: "enc_entry (event_bytes v) = enc_uint (ucast (fst v)) @ snd (event_bytes v)"
    by (simp add: enc_entry_def event_bytes_def)
  have "d_map_key prev d = Inr (fst v, d_move d (length (enc_uint (ucast (fst v)))))"
    using Cons.prems e by (simp add: d_map_key_Inr)
  moreover have "read_value is_nfc f (fst v) st (d_move d (length (enc_uint (ucast (fst v))))) =
      Inr (event_run v st, d_move d (length (enc_entry (event_bytes v))))"
    using Cons.prems read_value_written [of is_nfc v "d_move d (length (enc_uint (ucast (fst v))))" st]
    by (simp add: e)
  ultimately show ?case
    using Cons.prems Cons.IH [of "Some (fst v)" "d_move d (length (enc_entry (event_bytes v)))" "event_run v st"]
    by (simp add: e)
qed simp

definition put_event :: "'s put \<Rightarrow> (u16 \<times> (bytes \<times> ('s \<Rightarrow> 's) + bytes)) list" where
  "put_event p = (case snd p of None \<Rightarrow> [] | Some q \<Rightarrow> [(fst p, Inl q)])"

definition events :: "'s put list \<Rightarrow> extra \<Rightarrow> (u16 \<times> (bytes \<times> ('s \<Rightarrow> 's) + bytes)) list" where
  "events ps e = concat (map put_event ps) @ map (\<lambda>(k, raw). (k, Inr raw)) e"

lemma events_bytes: "map event_bytes (events ps e) = concat (map put_entry ps) @ e"
proof -
  have "map event_bytes (map (\<lambda>(k, raw). (k, Inr raw)) e) = e"
    by (induction e) (auto simp: event_bytes_def)
  moreover have "map event_bytes (concat (map put_event ps)) = concat (map put_entry ps)"
    by (induction ps) (auto simp: put_event_def put_entry_def event_bytes_def split: option.splits)
  ultimately show ?thesis by (simp add: events_def)
qed

definition run_known :: "u16 \<times> (bytes \<times> ('s \<Rightarrow> 's) + bytes) \<Rightarrow> 's \<Rightarrow> 's" where
  "run_known v = (case snd v of Inl (_, g) \<Rightarrow> g | Inr _ \<Rightarrow> id)"

definition run_unknown :: "u16 \<times> (bytes \<times> ('s \<Rightarrow> 's) + bytes) \<Rightarrow> extra \<Rightarrow> extra" where
  "run_unknown v = (case snd v of Inl _ \<Rightarrow> id | Inr raw \<Rightarrow> bm_insert (fst v) raw)"

lemma fold_events: "fold event_run vs (s, e) = (fold run_known vs s, fold run_unknown vs e)"
  by (induction vs arbitrary: s e) (auto simp: event_run_def run_known_def run_unknown_def split: sum.splits)

lemma fold_filter_id: "(\<And>v. \<not> P v \<Longrightarrow> g v = id) \<Longrightarrow> fold g vs = fold g (filter P vs)"
  by (induction vs) auto

lemma filter_known_events:
  "filter (isl \<circ> snd) (events ps e) = concat (map put_event ps)"
  "filter (Not \<circ> isl \<circ> snd) (events ps e) = map (\<lambda>(k, raw). (k, Inr raw)) e"
proof -
  have "filter (isl \<circ> snd) (concat (map put_event ps)) = concat (map put_event ps)"
    "filter (Not \<circ> isl \<circ> snd) (concat (map put_event ps)) = []"
    by (induction ps) (auto simp: put_event_def split: option.splits)
  moreover have "filter (isl \<circ> snd) (map (\<lambda>(k, raw). (k, Inr raw)) e) = []"
    "filter (Not \<circ> isl \<circ> snd) (map (\<lambda>(k, raw). (k, Inr raw)) e) = map (\<lambda>(k, raw). (k, Inr raw)) e"
    by (induction e) auto
  ultimately show "filter (isl \<circ> snd) (events ps e) = concat (map put_event ps)"
    "filter (Not \<circ> isl \<circ> snd) (events ps e) = map (\<lambda>(k, raw). (k, Inr raw)) e"
    by (simp_all add: events_def)
qed

lemma run_puts: "fold run_known (concat (map put_event ps)) s = fold put_run ps s"
  by (induction ps arbitrary: s) (auto simp: put_event_def put_run_def run_known_def split: option.splits)

lemma put_event_key: "v \<in> set (put_event p) \<Longrightarrow> fst v = fst p"
  by (auto simp: put_event_def split: option.splits)

lemma put_keys_subset: "k \<in> set (map fst (concat (map put_event ps))) \<Longrightarrow> k \<in> set (map fst ps)"
  by (auto dest: put_event_key)

lemma put_keys_ascending: "ascending (map fst ps) \<Longrightarrow> ascending (map fst (concat (map put_event ps)))"
proof (induction ps)
  case (Cons p ps)
  have "\<forall>k \<in> set (map fst (concat (map put_event ps))). fst p < k"
  proof
    fix k assume "k \<in> set (map fst (concat (map put_event ps)))"
    then have "k \<in> set (map fst ps)" by (rule put_keys_subset)
    then show "fst p < k" using Cons.prems by auto
  qed
  then show ?case using Cons by (auto simp: put_event_def split: option.splits)
qed simp

lemma bm_collect_same: "bm_ok e \<Longrightarrow> bm_collect e = e"
proof (rule bm_ext)
  fix k assume "bm_ok e"
  then have "distinct (map fst e)" by (simp add: bm_ok_def ascending_distinct)
  then have "map_of (rev e) = map_of e"
    by (metis map_of_inject_set distinct_rev rev_map set_rev)
  then show "bm_get (bm_collect e) k = bm_get e k" by (simp add: bm_get_collect)
qed simp_all

lemma run_extra: "bm_ok e \<Longrightarrow> fold run_unknown (map (\<lambda>(k, raw). (k, Inr raw)) e) [] = e"
proof -
  assume "bm_ok e"
  have "fold run_unknown (map (\<lambda>(k, raw). (k, Inr raw)) e) m = fold (\<lambda>(k, v). bm_insert k v) e m" for m
    by (induction e arbitrary: m) (auto simp: run_unknown_def)
  then show ?thesis using bm_collect_same [OF \<open>bm_ok e\<close>] by (simp add: bm_collect_def)
qed

text \<open>What the loop reads of a written map.\<close>

lemma read_map_written:
  assumes puts: "ascending (map fst ps)" "list_all (put_ok f) ps" "list_all (\<lambda>p. fst p \<le> highest) ps"
    and extra: "extra_ok highest is_nfc e"
    and at: "starts d (enc_map (concat (map put_entry ps) @ e))" "buf_ok d"
  shows "read_map is_nfc f s d =
    Inr ((fold put_run ps s, e), d_move d (length (enc_map (concat (map put_entry ps) @ e))))"
proof -
  define vs where "vs = sort_key fst (events ps e)"
  have keys: "distinct (map fst (events ps e))"
  proof -
    have "k \<notin> fst ` set e" if "k \<in> set (map fst (concat (map put_event ps)))" for k
    proof -
      have "k \<le> highest" using put_keys_subset [OF that] puts(3) by (auto simp: list_all_iff)
      then show ?thesis using extra by (auto simp: extra_ok_def)
    qed
    then show ?thesis
      using put_keys_ascending [OF puts(1)] extra
      by (auto simp: events_def extra_ok_def bm_ok_def ascending_distinct comp_def split_def)
  qed
  then have asc: "ascending (map fst vs)"
    by (simp add: vs_def strict_sorted_iff distinct_map)
  have n: "length vs = length (concat (map put_entry ps) @ e)"
    by (metis events_bytes length_map length_sort vs_def)
  have sorted: "map event_bytes vs = sort_key fst (concat (map put_entry ps) @ e)"
    unfolding vs_def events_bytes [symmetric] by (rule map_sort_key) (simp add: event_bytes_def)
  have bytes: "enc_map (concat (map put_entry ps) @ e) =
      enc_head major_map (word_of_nat (length vs)) @ concat (map (enc_entry \<circ> event_bytes) vs)"
    by (simp add: enc_map_def n flip: sorted)
  have len: "length vs < 2 ^ 64"
  proof -
    have "card (set (map fst vs)) = length (map fst vs)"
      using asc by (intro distinct_card ascending_distinct)
    moreover have "card (set (map fst vs)) \<le> card (UNIV :: u16 set)" by (rule card_mono) simp_all
    ultimately have "length vs \<le> 2 ^ 16" by (simp add: card_word)
    then show ?thesis by simp
  qed
  moreover have "list_all (event_ok is_nfc) vs"
  proof -
    have "list_all (event_ok is_nfc) (concat (map put_event ps))"
      using puts(2) by (induction ps) (auto simp: event_ok_def put_event_def put_ok_def split: option.splits)
    moreover have "list_all (event_ok is_nfc) (map (\<lambda>(k, raw). (k, Inr raw)) e)"
      using extra by (auto simp: event_ok_def extra_ok_def list_all_iff)
    ultimately have "list_all (event_ok is_nfc) (events ps e)" by (simp add: events_def)
    then show ?thesis by (simp add: vs_def list_all_iff)
  qed
  moreover have "fold event_run vs (s, []) = (fold put_run ps s, e)"
  proof -
    have "filter (isl \<circ> snd) vs = concat (map put_event ps)"
      unfolding vs_def filter_sort filter_known_events
      using put_keys_ascending [OF puts(1)] by (simp add: ascending_sorted sort_key_id_if_sorted)
    moreover have "filter (Not \<circ> isl \<circ> snd) vs = map (\<lambda>(k, raw). (k, Inr raw)) e"
    proof -
      have "map fst (map (\<lambda>(k, raw). (k, Inr raw)) e) = map fst e" by auto
      moreover have "sorted (map fst e)"
        using extra by (simp add: extra_ok_def bm_ok_def ascending_sorted)
      ultimately have "sorted (map fst (map (\<lambda>(k, raw). (k, Inr raw)) e))" by metis
      then show ?thesis
        unfolding vs_def filter_sort filter_known_events by (rule sort_key_id_if_sorted)
    qed
    moreover have "fold run_known vs s = fold run_known (filter (isl \<circ> snd) vs) s"
      by (subst fold_filter_id [of "isl \<circ> snd"]) (auto simp: run_known_def split: sum.splits)
    moreover have "fold run_unknown vs [] = fold run_unknown (filter (Not \<circ> isl \<circ> snd) vs) []"
      by (subst fold_filter_id [of "Not \<circ> isl \<circ> snd"]) (auto simp: run_unknown_def split: sum.splits)
    ultimately show ?thesis
      using run_extra extra by (simp add: fold_events run_puts extra_ok_def)
  qed
  moreover from len at have "d_map_head d =
      Inr (length vs, d_move d (length (enc_head major_map (word_of_nat (length vs)))))"
    unfolding bytes by (simp add: d_map_head_Inr)
  ultimately show ?thesis
    using at asc len read_entries_written [of None vs is_nfc "d_move d (length (enc_head major_map (word_of_nat (length vs))))" "(s, [])"]
    unfolding bytes by (simp add: read_map_def)
qed

end

subsection \<open>Record decoders\<close>

text \<open>
  The shape every record decoder has: read the map from an empty state, then build the record from
  what was read, \<open>bad(at)\<close> when a required field is missing or the fields do not fit together.
\<close>

definition dec_record :: "(string \<Rightarrow> bool) \<Rightarrow> (nat \<Rightarrow> 's handler) \<Rightarrow> 's \<Rightarrow> ('s \<Rightarrow> extra \<Rightarrow> 'r option) \<Rightarrow> dec \<Rightarrow> codec_error + 'r \<times> dec" where
  "dec_record is_nfc f new finish d =
     and_then (read_map is_nfc (f (dpos d)) new d) (\<lambda>((s, e), d').
     and_then (ok_or (finish s e) (MalformedEnvelope (dpos d))) (\<lambda>r. Inr (r, d')))"

lemma record_reader:
  assumes "\<And>at. record_map (f at) highest keep" "keep new"
    and "\<And>s e x. keep s \<Longrightarrow> extra_ok highest is_nfc e \<Longrightarrow> finish s e = Some x \<Longrightarrow> ok x"
  shows "reader (dec_record is_nfc f new finish) ok"
proof
  fix d x d'
  assume "dec_record is_nfc f new finish d = Inr (x, d')" and d: "buf_ok d"
  then obtain s e where m: "read_map is_nfc (f (dpos d)) new d = Inr ((s, e), d')" and x: "finish s e = Some x"
    by (auto simp: dec_record_def and_then_Inr_iff)
  from record_map.read_map_ok [OF assms(1) m d assms(2)] assms(3) [OF _ _ x]
  show "ok x \<and> moves d d'" by blast
qed

lemma record_writable:
  assumes map: "\<And>at. record_map (f at) highest keep"
    and bytes: "\<And>x. wr x = enc_map (concat (map put_entry (puts x)) @ extra x)"
    and puts: "\<And>x at. ok x \<Longrightarrow> list_all (put_ok (f at)) (puts x)"
      "\<And>x. ascending (map fst (puts x)) \<and> list_all (\<lambda>p. fst p \<le> highest) (puts x)"
    and extra: "\<And>x. ok x \<Longrightarrow> extra_ok highest is_nfc (extra x)"
    and finish: "\<And>x. ok x \<Longrightarrow> finish (fold put_run (puts x) new) (extra x) = Some x"
  shows "writable (dec_record is_nfc f new finish) ok wr"
proof
  fix x d
  assume x: "ok x" and d: "starts d (wr x)" "buf_ok d"
  have "read_map is_nfc (f (dpos d)) new d = Inr ((fold put_run (puts x) new, extra x),
      d_move d (length (enc_map (concat (map put_entry (puts x)) @ extra x))))"
    using puts(2) [of x] d by (intro record_map.read_map_written [OF map _ puts(1) [OF x] _ extra [OF x]]) (simp_all add: bytes)
  then have "read_map is_nfc (f (dpos d)) new d = Inr ((fold put_run (puts x) new, extra x), d_move d (length (wr x)))"
    by (simp only: bytes)
  then show "dec_record is_nfc f new finish d = Inr (x, d_move d (length (wr x)))"
    using finish [OF x] by (simp add: dec_record_def)
qed

lemmas record_readable = readable.intro [OF _ record_writable]

end
