(* ===== verification/Records.thy ===== *)
theory Records
  imports Vocabulary Dates Uids Quantise "HOL-Library.Char_ord"
begin

section \<open>The records of a store\<close>

text \<open>
  The data model of \<open>smysl-core/src/types\<close>: sources, unit cores with the shape rules of
  \<open>UnitCore::new\<close>, units, attestations, relations, the lifecycle records and contentions. A
  \<open>BTreeSet\<close> whose iteration order nothing observes is a HOL set; identities are ascending lists,
  because their order reaches the wire. The hash (BLAKE3) and Unicode normalisation are third-party
  code and are arguments of what uses them.
\<close>

type_synonym digest = bytes
type_synonym extra_fields = "(u16, bytes) bmap"
type_synonym hasher = "bytes \<Rightarrow> bytes"

subsection \<open>Sources\<close>

record source_ref =
  sr_kind :: source_kind
  sr_reference :: string
  sr_captured :: "date option"
  sr_observed :: "u64 option"
  sr_published :: "string option"
  sr_span :: "(u64 \<times> u64) option"
  sr_manifest :: "digest option"
  sr_extra :: extra_fields
  sr_kind_code :: "u8 option"

definition normalise :: "(string \<Rightarrow> bool) \<Rightarrow> (string \<Rightarrow> string) \<Rightarrow> string \<Rightarrow> string" where
  "normalise is_nfc nfc s = (if is_nfc s then s else nfc s)"

definition source_ref_new :: "(string \<Rightarrow> bool) \<Rightarrow> (string \<Rightarrow> string) \<Rightarrow> source_kind \<Rightarrow> string \<Rightarrow> source_ref" where
  "source_ref_new is_nfc nfc kind reference =
     \<lparr>sr_kind = kind, sr_reference = normalise is_nfc nfc reference, sr_captured = None,
      sr_observed = None, sr_published = None, sr_span = None, sr_manifest = None, sr_extra = [],
      sr_kind_code = None\<rparr>"

definition source_kind_code_of :: "source_ref \<Rightarrow> u8" where
  "source_kind_code_of s = (case sr_kind_code s of Some c \<Rightarrow> c | None \<Rightarrow> source_kind_as_u8 (sr_kind s))"

definition source_with_unknown_kind :: "u8 \<Rightarrow> source_ref \<Rightarrow> source_ref option" where
  "source_with_unknown_kind code s =
     (if code = 255 \<or> source_kind_from_u8 code \<noteq> None then None
      else Some (s\<lparr>sr_kind := SkUnknown, sr_kind_code := Some code\<rparr>))"

definition source_in_part :: "u64 \<Rightarrow> u64 \<Rightarrow> digest \<Rightarrow> source_ref \<Rightarrow> source_ref option" where
  "source_in_part start stop mid s =
     (if start \<ge> stop then None else Some (s\<lparr>sr_span := Some (start, stop), sr_manifest := Some mid\<rparr>))"

datatype source_policy = FillMissing | Override

fun source_policy_apply ::
  "source_policy \<Rightarrow> source_ref \<Rightarrow> source_ref option \<Rightarrow> source_ref option \<times> source_ref option" where
  "source_policy_apply FillMissing caller (Some own) = (Some own, None)"
| "source_policy_apply Override caller (Some own) =
     (if own \<noteq> caller then (Some caller, Some own) else (Some caller, None))"
| "source_policy_apply policy caller None = (Some caller, None)"

subsection \<open>Units\<close>

datatype shape_error =
    MissingGist | GistTooLong nat nat | DetailWithoutBody | GroundsRequired | SourceRequired
  | UnfoundedAuthored

record unit_core =
  uc_schema :: schema_id
  uc_gist :: string
  uc_body :: "string option"
  uc_detail :: "string option"
  uc_deps :: "uid list"
  uc_grounds :: "uid list"
  uc_status :: status
  uc_source :: "source_ref option"
  uc_payload :: "bytes option"
  uc_lang :: "string option"
  uc_extra :: extra_fields

text \<open>\<open>UnitCoreBuilder\<close> has the fields of \<open>UnitCore\<close>; \<open>build\<close> is \<open>UnitCore::new\<close>.\<close>

definition unit_builder_new :: "schema_id \<Rightarrow> string \<Rightarrow> status \<Rightarrow> unit_core" where
  "unit_builder_new schema gist status =
     \<lparr>uc_schema = schema, uc_gist = gist, uc_body = None, uc_detail = None, uc_deps = [],
      uc_grounds = [], uc_status = status, uc_source = None, uc_payload = None, uc_lang = None,
      uc_extra = []\<rparr>"

text \<open>
  \<open>s.trim().is_empty()\<close>: every character is white space in Unicode's sense, on the UTF-8 bytes.
\<close>

fun all_white :: "nat list \<Rightarrow> bool" where
  "all_white [] = True"
| "all_white (b # bs) =
     (if b = 32 \<or> (9 \<le> b \<and> b \<le> 13) then all_white bs
      else if b = 0xC2 then
        (case bs of c # bs' \<Rightarrow> c \<in> {0x85, 0xA0} \<and> all_white bs' | [] \<Rightarrow> False)
      else
        (case bs of
           c # e # bs' \<Rightarrow>
             ((b = 0xE1 \<and> c = 0x9A \<and> e = 0x80) \<or>
              (b = 0xE2 \<and> c = 0x80 \<and> (0x80 \<le> e \<and> e \<le> 0x8A \<or> e \<in> {0xA8, 0xA9, 0xAF})) \<or>
              (b = 0xE2 \<and> c = 0x81 \<and> e = 0x9F) \<or>
              (b = 0xE3 \<and> c = 0x80 \<and> e = 0x80)) \<and> all_white bs'
         | _ \<Rightarrow> False))"

definition is_blank :: "string \<Rightarrow> bool" where
  "is_blank s \<longleftrightarrow> all_white (map char_code s)"

definition non_empty_text :: "(string \<Rightarrow> string) \<Rightarrow> string option \<Rightarrow> string option" where
  "non_empty_text norm x =
     (case map_option norm x of Some s \<Rightarrow> if s = [] then None else Some s | None \<Rightarrow> None)"

definition unit_core_new ::
  "(string \<Rightarrow> bool) \<Rightarrow> (string \<Rightarrow> string) \<Rightarrow> unit_core \<Rightarrow> shape_error + unit_core" where
  "unit_core_new is_nfc nfc b =
     (let norm = normalise is_nfc nfc; gist = norm (uc_gist b) in
      if is_blank gist then Inl MissingGist
      else
        (let body = non_empty_text norm (uc_body b); detail = non_empty_text norm (uc_detail b) in
         if detail \<noteq> None \<and> body = None then Inl DetailWithoutBody
         else if uc_status b = StUnfounded then Inl UnfoundedAuthored
         else if requires_source (uc_status b) \<and> uc_source b = None then Inl SourceRequired
         else if requires_grounds (uc_status b) \<and> uc_grounds b = [] then Inl GroundsRequired
         else Inr (b\<lparr>uc_gist := gist, uc_body := body, uc_detail := detail\<rparr>)))"

definition unit_text_at :: "unit_core \<Rightarrow> lod \<Rightarrow> string option" where
  "unit_text_at u l = (case l of L0 \<Rightarrow> Some (uc_gist u) | L1 \<Rightarrow> uc_body u | L2 \<Rightarrow> uc_detail u)"

definition unit_max_lod :: "unit_core \<Rightarrow> lod" where
  "unit_max_lod u = (if uc_detail u \<noteq> None then L2 else if uc_body u \<noteq> None then L1 else L0)"

definition unit_references :: "unit_core \<Rightarrow> uid list" where
  "unit_references u = uc_deps u @ uc_grounds u"

definition unit_is_gist_only :: "unit_core \<Rightarrow> bool" where
  "unit_is_gist_only u \<longleftrightarrow> uc_body u = None \<and> uc_detail u = None"

subsection \<open>Attestations and relations\<close>

record attestation =
  at_uid :: uid
  at_agent :: string
  at_hop :: u32
  at_parents :: "uid list"
  at_ts :: hlc
  at_op :: op_kind
  at_rung :: rung
  at_recipe :: "digest option"
  at_family :: "digest option"
  at_sig :: "bytes option"
  at_extra :: extra_fields

definition attestation_new :: "uid \<Rightarrow> string \<Rightarrow> op_kind \<Rightarrow> rung \<Rightarrow> hlc \<Rightarrow> attestation" where
  "attestation_new uid agent op r ts =
     \<lparr>at_uid = uid, at_agent = agent, at_hop = 0, at_parents = [], at_ts = ts, at_op = op,
      at_rung = r, at_recipe = None, at_family = None, at_sig = None, at_extra = []\<rparr>"

definition corroboration_key :: "attestation \<Rightarrow> string \<times> digest option" where
  "corroboration_key a = (at_agent a, at_recipe a)"

record smy_unit =
  un_core :: unit_core
  un_attestations :: "attestation set"
  un_salience :: "f32 option"
  un_labels :: "string set"

definition unit_new :: "unit_core \<Rightarrow> smy_unit" where
  "unit_new core = \<lparr>un_core = core, un_attestations = {}, un_salience = None, un_labels = {}\<rparr>"

definition min_hop :: "attestation set \<Rightarrow> u32 option" where
  "min_hop A = (if A = {} then None else Some (Min (at_hop ` A)))"

definition unit_first_hop :: "smy_unit \<Rightarrow> u32 option" where
  "unit_first_hop u = min_hop (un_attestations u)"

definition corroboration_groups :: "smy_unit \<Rightarrow> nat" where
  "corroboration_groups u = card (corroboration_key ` un_attestations u)"

record relation =
  rl_kind :: rel_kind
  rl_from :: uid
  rl_to :: uid
  rl_weight :: "f32 option"
  rl_note :: "uid option"
  rl_attestations :: "attestation set"
  rl_extra :: extra_fields

definition relation_new :: "rel_kind \<Rightarrow> uid \<Rightarrow> uid \<Rightarrow> relation" where
  "relation_new kind from to =
     \<lparr>rl_kind = kind, rl_from = from, rl_to = to, rl_weight = None, rl_note = None,
      rl_attestations = {}, rl_extra = []\<rparr>"

definition relation_key :: "relation \<Rightarrow> rel_kind \<times> uid \<times> uid" where
  "relation_key r = (rl_kind r, rl_from r, rl_to r)"

definition relation_preimage :: "rel_kind \<Rightarrow> uid \<Rightarrow> uid \<Rightarrow> bytes" where
  "relation_preimage kind from to =
     0x03 # map (\<lambda>c. word_of_nat (char_code c)) (rel_as_str kind) @ 0 # uid_bytes from @ uid_bytes to"

definition relation_uid :: "hasher \<Rightarrow> relation \<Rightarrow> uid" where
  "relation_uid hash r = Uid (hash (relation_preimage (rl_kind r) (rl_from r) (rl_to r)))"

definition relation_hop :: "relation \<Rightarrow> u32 option" where
  "relation_hop r = min_hop (rl_attestations r)"

definition relation_rebuts :: "relation \<Rightarrow> uid \<Rightarrow> bool" where
  "relation_rebuts r u \<longleftrightarrow> rl_kind r = Rebuts \<and> rl_to r = u"

subsection \<open>Lifecycle and annex records\<close>

record withdrawal =
  wd_relation :: uid
  wd_agent :: string
  wd_ts :: hlc
  wd_reason :: "uid option"
  wd_extra :: extra_fields

datatype resolution_target = RtContention string | RtRelation uid

record resolution =
  rs_target :: resolution_target
  rs_agent :: string
  rs_ts :: hlc
  rs_note :: "uid option"
  rs_extra :: extra_fields

record commit =
  cm_unit :: uid
  cm_level :: commitment
  cm_agent :: string
  cm_ts :: hlc
  cm_note :: "uid option"
  cm_extra :: extra_fields

record detected =
  dt_kind :: detection_kind
  dt_ts :: hlc
  dt_kind_code :: "u8 option"

definition detected_kind_code :: "detected \<Rightarrow> u8" where
  "detected_kind_code d = (case dt_kind_code d of Some c \<Rightarrow> c | None \<Rightarrow> detection_kind_as_u8 (dt_kind d))"

definition detected_with_unknown_kind :: "u8 \<Rightarrow> detected \<Rightarrow> detected option" where
  "detected_with_unknown_kind code d =
     (if code = 255 \<or> detection_kind_from_u8 code \<noteq> None then None
      else Some (d\<lparr>dt_kind := DkUnknown, dt_kind_code := Some code\<rparr>))"

record contention =
  ct_id :: string
  ct_over :: uid
  ct_positions :: "uid list"
  ct_detected :: detected
  ct_status :: contention_status
  ct_extra :: extra_fields

definition contention_new :: "string \<Rightarrow> uid \<Rightarrow> uid list \<Rightarrow> detected \<Rightarrow> contention" where
  "contention_new i over positions det =
     \<lparr>ct_id = i, ct_over = over, ct_positions = positions, ct_detected = det, ct_status = CsOpen, ct_extra = []\<rparr>"

definition contention_is_open :: "contention \<Rightarrow> bool" where
  "contention_is_open c \<longleftrightarrow> ct_status c = CsOpen"

definition contention_pins :: "contention \<Rightarrow> uid \<Rightarrow> bool" where
  "contention_pins c u \<longleftrightarrow> contention_is_open c \<and> (ct_over c = u \<or> u \<in> set (ct_positions c))"

definition contention_preimage :: "detection_kind \<Rightarrow> uid \<Rightarrow> uid list \<Rightarrow> bytes" where
  "contention_preimage kind over positions =
     detection_kind_as_u8 kind # uid_bytes over @ concat (map uid_bytes (sort_dedup positions))"

definition contention_derive :: "hasher \<Rightarrow> detection_kind \<Rightarrow> uid \<Rightarrow> uid list \<Rightarrow> string" where
  "contention_derive hash kind over positions =
     ''k/c'' @ drop 3 (uid_short (Uid (hash (contention_preimage kind over positions))))"

subsection \<open>Shape and identity\<close>

text \<open>The shape rules, as a predicate on a core.\<close>

definition unit_shape_ok :: "unit_core \<Rightarrow> bool" where
  "unit_shape_ok u \<longleftrightarrow>
     \<not> is_blank (uc_gist u) \<and> uc_body u \<noteq> Some [] \<and> uc_detail u \<noteq> Some [] \<and>
     (uc_detail u \<noteq> None \<longrightarrow> uc_body u \<noteq> None) \<and> uc_status u \<noteq> StUnfounded \<and>
     (requires_source (uc_status u) \<longrightarrow> uc_source u \<noteq> None) \<and>
     (requires_grounds (uc_status u) \<longrightarrow> uc_grounds u \<noteq> [])"

definition unit_text_normal :: "(string \<Rightarrow> bool) \<Rightarrow> unit_core \<Rightarrow> bool" where
  "unit_text_normal is_nfc u \<longleftrightarrow>
     is_nfc (uc_gist u) \<and> (\<forall>t. uc_body u = Some t \<longrightarrow> is_nfc t) \<and> (\<forall>t. uc_detail u = Some t \<longrightarrow> is_nfc t)"

lemma normalise_normal: "is_nfc s \<Longrightarrow> normalise is_nfc nfc s = s"
  by (simp add: normalise_def)

lemma normalise_is_nfc: "(\<And>t. is_nfc (nfc t)) \<Longrightarrow> is_nfc (normalise is_nfc nfc s)"
  by (simp add: normalise_def)

lemma non_empty_text_Some:
  "non_empty_text norm x = Some t \<longleftrightarrow> (\<exists>s. x = Some s \<and> norm s = t \<and> t \<noteq> [])"
  by (auto simp: non_empty_text_def split: option.splits if_splits)

lemma unit_core_new_fixed:
  "unit_shape_ok u \<Longrightarrow> unit_text_normal is_nfc u \<Longrightarrow> unit_core_new is_nfc nfc u = Inr u"
  by (cases "uc_body u"; cases "uc_detail u")
     (auto simp: unit_core_new_def unit_shape_ok_def unit_text_normal_def Let_def
       non_empty_text_def normalise_normal)

lemma unit_core_new_Inr:
  assumes "unit_core_new is_nfc nfc b = Inr u" "\<And>t. is_nfc (nfc t)"
  shows "unit_shape_ok u \<and> unit_text_normal is_nfc u"
  using assms
  by (auto simp: unit_core_new_def Let_def unit_shape_ok_def unit_text_normal_def non_empty_text_Some
      normalise_is_nfc split: if_splits)

text \<open>On texts that are normal already, construction only drops an empty body or detail.\<close>

lemma unit_core_new_normal:
  assumes "unit_core_new is_nfc nfc b = Inr u" "is_nfc (uc_gist b)" "pred_option is_nfc (uc_body b)" "pred_option is_nfc (uc_detail b)"
  shows "unit_shape_ok u" "uc_gist u = uc_gist b" "uc_body u = None \<or> uc_body u = uc_body b"
    "uc_detail u = None \<or> uc_detail u = uc_detail b"
    "uc_schema u = uc_schema b" "uc_deps u = uc_deps b" "uc_grounds u = uc_grounds b" "uc_source u = uc_source b"
    "uc_payload u = uc_payload b" "uc_lang u = uc_lang b" "uc_extra u = uc_extra b"
proof -
  have body: "non_empty_text (normalise is_nfc nfc) x = None \<or> non_empty_text (normalise is_nfc nfc) x = x"
    if "pred_option is_nfc x" for x
    using that by (cases x) (auto simp: non_empty_text_def normalise_normal)
  show "unit_shape_ok u"
    using assms(1) by (auto simp: unit_core_new_def Let_def unit_shape_ok_def non_empty_text_Some split: if_splits)
  show "uc_gist u = uc_gist b" "uc_body u = None \<or> uc_body u = uc_body b"
    "uc_detail u = None \<or> uc_detail u = uc_detail b"
    "uc_schema u = uc_schema b" "uc_deps u = uc_deps b" "uc_grounds u = uc_grounds b" "uc_source u = uc_source b"
    "uc_payload u = uc_payload b" "uc_lang u = uc_lang b" "uc_extra u = uc_extra b"
    using assms(1) body [OF assms(3)] body [OF assms(4)] normalise_normal [of is_nfc "uc_gist b" nfc, OF assms(2)]
    by (auto simp: unit_core_new_def Let_def split: if_splits)
qed

lemma map_char_code_inj:
  "map (\<lambda>c. word_of_nat (char_code c) :: u8) s = map (\<lambda>c. word_of_nat (char_code c)) t \<Longrightarrow> s = t"
proof (rule map_injective [of "\<lambda>c. word_of_nat (char_code c) :: u8"])
  show "inj (\<lambda>c. word_of_nat (char_code c) :: u8)"
  proof (rule injI)
    fix c e assume "(word_of_nat (char_code c) :: u8) = word_of_nat (char_code e)"
    then have "char_code c mod 2 ^ LENGTH(8) = char_code e mod 2 ^ LENGTH(8)"
      by (metis unat_of_nat)
    then show "c = e" by (simp add: char_code_def)
  qed
qed

lemma char_code_word_zero: "(word_of_nat (char_code c) :: u8) = 0 \<longleftrightarrow> c = CHR 0x00"
proof
  assume "(word_of_nat (char_code c) :: u8) = 0"
  then have "unat (word_of_nat (char_code c) :: u8) = 0" by simp
  then have "char_of (char_code c) = (char_of (0 :: nat) :: char)"
    by (simp only: unat_of_nat) (simp add: char_code_def)
  then show "c = CHR 0x00" by (simp add: char_code_def char_of_def [of "0 :: nat"])
qed (simp add: char_code_def)

lemma append_zero_inj:
  "0 \<notin> set a \<Longrightarrow> 0 \<notin> set b \<Longrightarrow> a @ (0 :: u8) # r = b @ 0 # s \<Longrightarrow> a = b \<and> r = s"
proof (induction a arbitrary: b)
  case Nil
  then show ?case by (cases b) auto
next
  case (Cons x a)
  then show ?case by (cases b) auto
qed

lemma ident_chars: "is_ident s \<Longrightarrow> CHR 0x00 \<notin> set s" "is_ext_segment s \<Longrightarrow> CHR 0x00 \<notin> set s"
  by (cases s; auto simp: is_ident_def is_ext_segment_def list_all_iff char_class_defs)+

lemma rel_text_no_nul: "rel_parse s = Inr k \<Longrightarrow> CHR 0x00 \<notin> set (rel_as_str k)"
proof (cases k)
  case (RkExtension t)
  assume p: "rel_parse s = Inr k"
  then have "t = s" using RkExtension rel_parse_text by fastforce
  with p RkExtension obtain rest domain kind where r: "s = ''x.'' @ rest" "rest = domain @ CHR ''/'' # kind"
      "rel_domain_ok domain" "is_ext_segment kind"
    by (auto simp: rel_parse_def and_then_Inr_iff strip_prefix_Some_iff rel_kernel_def split: option.splits if_splits
        dest: split_once_Some)
  then have "CHR 0x00 \<notin> set domain"
    by (auto simp: rel_domain_ok_def list_all_iff char_class_defs)
  with r ident_chars \<open>t = s\<close> show ?thesis by (simp add: RkExtension)
qed simp_all

lemma relation_preimage_inj:
  assumes "rel_parse (rel_as_str k) = Inr k" "rel_parse (rel_as_str k') = Inr k'"
    and "uid_ok a" "uid_ok b" "uid_ok a'" "uid_ok b'"
    and eq: "relation_preimage k a b = relation_preimage k' a' b'"
  shows "k = k' \<and> a = a' \<and> b = b'"
proof -
  let ?t = "\<lambda>k. map (\<lambda>c. word_of_nat (char_code c) :: u8) (rel_as_str k)"
  have z: "0 \<notin> set (?t k)" "0 \<notin> set (?t k')"
    using rel_text_no_nul [OF assms(1)] rel_text_no_nul [OF assms(2)] by (auto simp: char_code_word_zero)
  have "?t k @ 0 # (uid_bytes a @ uid_bytes b) = ?t k' @ 0 # (uid_bytes a' @ uid_bytes b')"
    using eq by (simp add: relation_preimage_def)
  from append_zero_inj [OF z this] have t: "?t k = ?t k'" and u: "uid_bytes a @ uid_bytes b = uid_bytes a' @ uid_bytes b'"
    by blast+
  have "rel_as_str k = rel_as_str k'" by (rule map_char_code_inj [OF t])
  then have "k = k'" by (metis assms(1,2) sum.inject(2))
  moreover have "uid_bytes a = uid_bytes a' \<and> uid_bytes b = uid_bytes b'"
    using u assms(3-6) by (simp add: uid_ok_def)
  then have "a = a'" "b = b'" by (blast intro: uid.expand)+
  ultimately show ?thesis by blast
qed

subsection \<open>Properties\<close>

text \<open>
  C27. A constructed core satisfies the shape rules (a gist that is not blank, no empty body or
  detail, no detail without a body, never authored \<open>unfounded\<close>, a source where the status needs
  one, grounds where it needs them), its texts are normalised, and constructing it again changes
  nothing, so a decoded core is the one that was encoded. The hypothesis is what the normalisation
  crate documents of \<open>nfc\<close>.
\<close>

theorem unit_core_new_shape:
  assumes "unit_core_new is_nfc nfc b = Inr u" and "\<And>t. is_nfc (nfc t)"
  shows "unit_shape_ok u \<and> unit_text_normal is_nfc u \<and> unit_core_new is_nfc nfc u = Inr u"
  using unit_core_new_Inr [OF assms] unit_core_new_fixed by blast

theorem unit_core_new_shape_witness:
  "unit_shape_ok (unit_builder_new (SchKernel KtClaim) ''a'' StSpeculative) \<and>
   unit_text_normal (\<lambda>t. t = ''a'') (unit_builder_new (SchKernel KtClaim) ''a'' StSpeculative) \<and>
   unit_core_new (\<lambda>t. t = ''a'') (\<lambda>t. ''a'') (unit_builder_new (SchKernel KtClaim) ''a'' StSpeculative) =
     Inr (unit_builder_new (SchKernel KtClaim) ''a'' StSpeculative)"
proof (rule unit_core_new_shape)
  show "unit_core_new (\<lambda>t. t = ''a'') (\<lambda>t. ''a'') (unit_builder_new (SchKernel KtClaim) ''b'' StSpeculative) =
      Inr (unit_builder_new (SchKernel KtClaim) ''a'' StSpeculative)"
    by (simp add: unit_core_new_def unit_builder_new_def normalise_def is_blank_def char_code_def
        non_empty_text_def requires_source_def requires_grounds_def)
qed simp

text \<open>
  C28. The identity of a relation is that of its kind and its two ends and of nothing else: two relations of
  parsed kinds have the same \<open>uid\<close> exactly when kind and both ends agree, so weight, note, attestations and
  unknown fields never split an edge in two. The hash must not collide on the two inputs.
\<close>

theorem relation_identity:
  assumes "rel_parse (rel_as_str (rl_kind r)) = Inr (rl_kind r)" "rel_parse (rel_as_str (rl_kind r')) = Inr (rl_kind r')"
    and "uid_ok (rl_from r)" "uid_ok (rl_to r)" "uid_ok (rl_from r')" "uid_ok (rl_to r')"
    and "hash (relation_preimage (rl_kind r) (rl_from r) (rl_to r)) = hash (relation_preimage (rl_kind r') (rl_from r') (rl_to r')) \<Longrightarrow>
      relation_preimage (rl_kind r) (rl_from r) (rl_to r) = relation_preimage (rl_kind r') (rl_from r') (rl_to r')"
  shows "relation_uid hash r = relation_uid hash r' \<longleftrightarrow> relation_key r = relation_key r'"
  using relation_preimage_inj [OF assms(1-6)] assms(7) by (auto simp: relation_key_def relation_uid_def)

theorem relation_identity_witness:
  "relation_uid (\<lambda>b. b) ((relation_new Rebuts (Uid zero_bytes) (Uid zero_bytes))\<lparr>rl_weight := Some 1\<rparr>) =
     relation_uid (\<lambda>b. b) (relation_new Rebuts (Uid zero_bytes) (Uid zero_bytes)) \<and>
   relation_uid (\<lambda>b. b) (relation_new Rebuts (Uid zero_bytes) (Uid zero_bytes)) \<noteq>
     relation_uid (\<lambda>b. b) (relation_new Causes (Uid zero_bytes) (Uid zero_bytes))"
proof -
  let ?z = "Uid zero_bytes"
  have kinds: "rel_parse (rel_as_str Rebuts) = Inr Rebuts" "rel_parse (rel_as_str Causes) = Inr Causes"
    using rel_parse_kernel [of Rebuts] rel_parse_kernel [of Causes] by (simp_all add: rel_is_kernel_def)
  have ok: "uid_ok ?z" by (simp add: uid_ok_def zero_bytes_def)
  have "relation_uid (\<lambda>b. b) ((relation_new Rebuts ?z ?z)\<lparr>rl_weight := Some 1\<rparr>) = relation_uid (\<lambda>b. b) (relation_new Rebuts ?z ?z) \<longleftrightarrow>
      relation_key ((relation_new Rebuts ?z ?z)\<lparr>rl_weight := Some 1\<rparr>) = relation_key (relation_new Rebuts ?z ?z)"
    by (rule relation_identity) (use kinds ok in \<open>simp_all add: relation_new_def\<close>)
  moreover have "relation_uid (\<lambda>b. b) (relation_new Rebuts ?z ?z) = relation_uid (\<lambda>b. b) (relation_new Causes ?z ?z) \<longleftrightarrow>
      relation_key (relation_new Rebuts ?z ?z) = relation_key (relation_new Causes ?z ?z)"
    by (rule relation_identity) (use kinds ok in \<open>simp_all add: relation_new_def\<close>)
  ultimately show ?thesis by (simp add: relation_key_def relation_new_def)
qed

end
