(* ===== verification/Adjacency.thy ===== *)
theory Adjacency
  imports Records "HOL-Library.Product_Lexorder"
begin

section \<open>The adjacency of a store\<close>

text \<open>
  \<open>smysl-graph/src/adjacency.rs\<close>: edge kinds with their codes, sets of kinds, and the forward and
  reverse edge lists built from units and relations. Identities are interned in ascending order, so
  a node id is a position in \<open>ad_order\<close>; node ids are natural numbers (the source's \<open>u32\<close> holds
  every store of fewer than \<open>2 ^ 32\<close> identities).
\<close>

subsection \<open>\<open>EdgeKind\<close>\<close>

datatype edge_kind = EkDeps | EkGrounds | EkKernel u8 | EkExtension u16

text \<open>The derived order: by variant, then by the payload.\<close>

fun ek_rank :: "edge_kind \<Rightarrow> nat" where
  "ek_rank EkDeps = 0"
| "ek_rank EkGrounds = 1"
| "ek_rank (EkKernel c) = 2 + unat c"
| "ek_rank (EkExtension i) = 1000 + unat i"

lemma ek_rank_inj: "ek_rank a = ek_rank b \<Longrightarrow> a = b"
proof (cases a; cases b)
  fix c i
  assume "ek_rank a = ek_rank b" "a = EkKernel c" "b = EkExtension i"
  then show ?thesis using unat_lt256 [of c] by simp
next
  fix c i
  assume "ek_rank a = ek_rank b" "a = EkExtension i" "b = EkKernel c"
  then show ?thesis using unat_lt256 [of c] by simp
qed (auto simp: word_unat_eq_iff)

instantiation edge_kind :: linorder
begin

definition less_eq_edge_kind :: "edge_kind \<Rightarrow> edge_kind \<Rightarrow> bool" where
  "less_eq_edge_kind a b \<longleftrightarrow> ek_rank a \<le> ek_rank b"

definition less_edge_kind :: "edge_kind \<Rightarrow> edge_kind \<Rightarrow> bool" where
  "less_edge_kind a b \<longleftrightarrow> ek_rank a < ek_rank b"

instance
  by standard (auto simp: less_eq_edge_kind_def less_edge_kind_def dest: ek_rank_inj)

end

definition ek_kernel :: "rel_kind \<Rightarrow> edge_kind option" where
  "ek_kernel k = map_option EkKernel (rel_code k)"

definition ek_rel_kind :: "edge_kind \<Rightarrow> rel_kind option" where
  "ek_rel_kind k = (case k of EkKernel c \<Rightarrow> rel_from_code c | _ \<Rightarrow> None)"

definition ek_carries_support :: "edge_kind \<Rightarrow> bool" where
  "ek_carries_support k =
     (case k of EkDeps \<Rightarrow> True | EkGrounds \<Rightarrow> True
      | EkKernel _ \<Rightarrow> (case ek_rel_kind k of Some r \<Rightarrow> rel_carries_support r | None \<Rightarrow> False)
      | EkExtension _ \<Rightarrow> False)"

definition ek_cycle_is_fatal :: "edge_kind \<Rightarrow> bool" where
  "ek_cycle_is_fatal k \<longleftrightarrow> k = EkDeps"

text \<open>The sum in the last case wraps at 16 bits (a debug build panics).\<close>

fun ek_code :: "edge_kind \<Rightarrow> u16" where
  "ek_code EkDeps = 0"
| "ek_code EkGrounds = 1"
| "ek_code (EkKernel c) = 2 + ucast c"
| "ek_code (EkExtension i) = 1024 + i"

definition ek_from_code :: "u16 \<Rightarrow> edge_kind option" where
  "ek_from_code c =
     (if c = 0 then Some EkDeps
      else if c = 1 then Some EkGrounds
      else if 2 \<le> c \<and> c \<le> 15 then Some (EkKernel (ucast (c - 2)))
      else if 1024 \<le> c then Some (EkExtension (c - 1024))
      else None)"

subsection \<open>\<open>EdgeSet\<close>\<close>

record edge_set =
  es_kinds :: "edge_kind set"
  es_all :: bool

definition es_everything :: edge_set where
  "es_everything = \<lparr>es_kinds = {}, es_all = True\<rparr>"

definition es_of :: "edge_kind list \<Rightarrow> edge_set" where
  "es_of kinds = \<lparr>es_kinds = set kinds, es_all = False\<rparr>"

definition es_support :: edge_set where
  "es_support = es_of [EkDeps, EkGrounds]"

definition es_add_kernel :: "rel_kind list \<Rightarrow> edge_set \<Rightarrow> edge_set" where
  "es_add_kernel ks s =
     fold (\<lambda>k s. case ek_kernel k of Some e \<Rightarrow> s\<lparr>es_kinds := insert e (es_kinds s)\<rparr> | None \<Rightarrow> s) ks s"

definition es_dependency :: edge_set where
  "es_dependency = es_add_kernel [Conditions, Causes, Enables, Warrant, Backs] es_support"

definition es_premises :: edge_set where
  "es_premises = es_add_kernel [Conditions] es_support"

definition es_ordering :: edge_set where
  "es_ordering = es_of (List.map_filter ek_kernel (filter rel_is_ordering rel_kernel))"

definition es_support_rank :: edge_set where
  "es_support_rank = es_add_kernel (filter rel_carries_support rel_kernel) es_support"

definition es_one :: "edge_kind \<Rightarrow> edge_set" where
  "es_one k = es_of [k]"

definition es_with :: "edge_kind \<Rightarrow> edge_set \<Rightarrow> edge_set" where
  "es_with k s = s\<lparr>es_kinds := insert k (es_kinds s)\<rparr>"

definition es_union :: "edge_set \<Rightarrow> edge_set \<Rightarrow> edge_set" where
  "es_union s t = (if es_all t then es_everything else s\<lparr>es_kinds := es_kinds s \<union> es_kinds t\<rparr>)"

definition es_contains :: "edge_set \<Rightarrow> edge_kind \<Rightarrow> bool" where
  "es_contains s k \<longleftrightarrow> es_all s \<or> k \<in> es_kinds s"

definition es_is_empty :: "edge_set \<Rightarrow> bool" where
  "es_is_empty s \<longleftrightarrow> \<not> es_all s \<and> es_kinds s = {}"

lemma es_contains_union: "es_contains (es_union s t) k \<longleftrightarrow> es_contains s k \<or> es_contains t k"
  by (auto simp: es_union_def es_contains_def es_everything_def)

subsection \<open>\<open>Adjacency\<close>\<close>

type_synonym edge = "edge_kind \<times> nat"

record adjacency =
  ad_order :: "uid list"
  ad_index :: "(uid, nat) bmap"
  ad_present :: "bool list"
  ad_fwd :: "edge list list"
  ad_rev :: "edge list list"
  ad_extensions :: "string list"

text \<open>\<open>UnitEdges\<close>: what the builder reads of a unit.\<close>

record 'u unit_edges =
  ue_deps :: "'u \<Rightarrow> uid list"
  ue_grounds :: "'u \<Rightarrow> uid list"

definition unit_edges_of_unit :: "smy_unit unit_edges" where
  "unit_edges_of_unit = \<lparr>ue_deps = (\<lambda>u. uc_deps (un_core u)), ue_grounds = (\<lambda>u. uc_grounds (un_core u))\<rparr>"

definition all_uids :: "'u unit_edges \<Rightarrow> (uid \<times> 'u) list \<Rightarrow> relation list \<Rightarrow> uid list" where
  "all_uids ue units relations =
     bs_collect
       (concat (map (\<lambda>(uid, u). uid # ue_deps ue u @ ue_grounds ue u) units) @
        concat (map (\<lambda>r. rl_from r # rl_to r # (case rl_note r of Some n \<Rightarrow> [n] | None \<Rightarrow> [])) relations))"

text \<open>\<open>binary_search\<close> on a strictly ascending list: the position of the element.\<close>

definition position :: "'a list \<Rightarrow> 'a \<Rightarrow> nat option" where
  "position xs x = (if x \<in> set xs then Some (length (takeWhile (\<lambda>y. y \<noteq> x) xs)) else None)"

definition extension_names :: "relation list \<Rightarrow> string list" where
  "extension_names relations =
     sort_dedup (map (\<lambda>r. rel_as_str (rl_kind r)) (filter (\<lambda>r. \<not> rel_is_kernel (rl_kind r)) relations))"

definition relation_edge_kind :: "string list \<Rightarrow> rel_kind \<Rightarrow> edge_kind" where
  "relation_edge_kind extensions k =
     (case ek_kernel k of Some e \<Rightarrow> e
      | None \<Rightarrow> EkExtension (word_of_nat (the (position extensions (rel_as_str k)))))"

definition link :: "nat \<times> edge_kind \<times> nat \<Rightarrow> edge list list \<times> edge list list \<Rightarrow> edge list list \<times> edge list list" where
  "link l fr = (case l of (from, kind, to) \<Rightarrow>
     ((fst fr)[from := fst fr ! from @ [(kind, to)]], (snd fr)[to := snd fr ! to @ [(kind, from)]]))"

definition unit_links :: "'u unit_edges \<Rightarrow> (uid \<Rightarrow> nat) \<Rightarrow> (uid \<times> 'u) list \<Rightarrow> (nat \<times> edge_kind \<times> nat) list" where
  "unit_links ue idx units =
     concat (map (\<lambda>(uid, u). map (\<lambda>d. (idx uid, EkDeps, idx d)) (ue_deps ue u) @
                             map (\<lambda>g. (idx uid, EkGrounds, idx g)) (ue_grounds ue u)) units)"

definition relation_links :: "string list \<Rightarrow> (uid \<Rightarrow> nat) \<Rightarrow> relation list \<Rightarrow> (nat \<times> edge_kind \<times> nat) list" where
  "relation_links extensions idx relations =
     map (\<lambda>r. (idx (rl_from r), relation_edge_kind extensions (rl_kind r), idx (rl_to r))) relations"

definition adjacency_from_parts :: "'u unit_edges \<Rightarrow> (uid \<times> 'u) list \<Rightarrow> relation list \<Rightarrow> adjacency" where
  "adjacency_from_parts ue units relations =
     (let order = all_uids ue units relations;
          n = length order;
          index = bm_collect (zip order [0..<n]);
          idx = (\<lambda>u. the (bm_get index u));
          extensions = extension_names relations;
          links = unit_links ue idx units @ relation_links extensions idx relations;
          fr = fold link links (replicate n [], replicate n [])
      in \<lparr>ad_order = order, ad_index = index, ad_present = map (\<lambda>u. u \<in> fst ` set units) order,
          ad_fwd = map sort_dedup (fst fr), ad_rev = map sort_dedup (snd fr), ad_extensions = extensions\<rparr>)"

definition adjacency_build :: "(uid, smy_unit) bmap \<Rightarrow> relation list \<Rightarrow> adjacency" where
  "adjacency_build units relations = adjacency_from_parts unit_edges_of_unit units relations"

definition ad_len :: "adjacency \<Rightarrow> nat" where
  "ad_len g = length (ad_order g)"

definition ad_id :: "adjacency \<Rightarrow> uid \<Rightarrow> nat option" where
  "ad_id g u = bm_get (ad_index g) u"

definition ad_uid :: "adjacency \<Rightarrow> nat \<Rightarrow> uid option" where
  "ad_uid g i = (if i < length (ad_order g) then Some (ad_order g ! i) else None)"

definition ad_is_present :: "adjacency \<Rightarrow> nat \<Rightarrow> bool" where
  "ad_is_present g i \<longleftrightarrow> i < length (ad_present g) \<and> ad_present g ! i"

definition ad_nodes :: "adjacency \<Rightarrow> nat list" where
  "ad_nodes g = [0..<ad_len g]"

definition ad_dangling :: "adjacency \<Rightarrow> nat list" where
  "ad_dangling g = filter (\<lambda>n. \<not> ad_is_present g n) (ad_nodes g)"

definition ad_out_edges :: "adjacency \<Rightarrow> nat \<Rightarrow> edge list" where
  "ad_out_edges g i = (if i < length (ad_fwd g) then ad_fwd g ! i else [])"

definition ad_in_edges :: "adjacency \<Rightarrow> nat \<Rightarrow> edge list" where
  "ad_in_edges g i = (if i < length (ad_rev g) then ad_rev g ! i else [])"

definition ad_out :: "adjacency \<Rightarrow> edge_set \<Rightarrow> nat \<Rightarrow> nat list" where
  "ad_out g kinds i = sort_dedup (map snd (filter (\<lambda>e. es_contains kinds (fst e)) (ad_out_edges g i)))"

definition ad_incoming :: "adjacency \<Rightarrow> edge_set \<Rightarrow> nat \<Rightarrow> nat list" where
  "ad_incoming g kinds i = sort_dedup (map snd (filter (\<lambda>e. es_contains kinds (fst e)) (ad_in_edges g i)))"

definition ad_extension_name :: "adjacency \<Rightarrow> u16 \<Rightarrow> string option" where
  "ad_extension_name g i =
     (if unat i < length (ad_extensions g) then Some (ad_extensions g ! unat i) else None)"

definition ad_edge_kind :: "adjacency \<Rightarrow> rel_kind \<Rightarrow> edge_kind option" where
  "ad_edge_kind g kind =
     (case ek_kernel kind of Some e \<Rightarrow> Some e
      | None \<Rightarrow> map_option (\<lambda>i. EkExtension (word_of_nat i)) (position (ad_extensions g) (rel_as_str kind)))"

definition ad_edge_count :: "adjacency \<Rightarrow> nat" where
  "ad_edge_count g = sum_list (map length (ad_fwd g))"

subsection \<open>Interning\<close>

lemma map_of_rev_distinct: "distinct (map fst xs) \<Longrightarrow> map_of (rev xs) k = map_of xs k"
proof (induction xs)
  case (Cons p xs)
  then have "map_of xs (fst p) = None" by (simp add: map_of_eq_None_iff)
  with Cons show ?case by (cases p) (auto simp: map_add_def split: option.splits)
qed simp

lemma set_unit_links:
  "set (unit_links ue idx units) =
     (\<Union>(a, u) \<in> set units. (\<lambda>d. (idx a, EkDeps, idx d)) ` set (ue_deps ue u) \<union>
        (\<lambda>d. (idx a, EkGrounds, idx d)) ` set (ue_grounds ue u))"
  by (auto simp: unit_links_def)

lemma index_get:
  assumes "ascending order"
  shows "i < length order \<Longrightarrow> bm_get (bm_collect (zip order [0..<length order])) (order ! i) = Some i"
    and "u \<notin> set order \<Longrightarrow> bm_get (bm_collect (zip order [0..<length order])) u = None"
proof -
  have d: "distinct order" using assms by (rule ascending_distinct)
  then have "map_of (rev (zip order [0..<length order])) = map_of (zip order [0..<length order])"
    by (intro ext map_of_rev_distinct) simp
  then have get: "bm_get (bm_collect (zip order [0..<length order])) = map_of (zip order [0..<length order])"
    by (auto simp: bm_get_collect)
  show "i < length order \<Longrightarrow> bm_get (bm_collect (zip order [0..<length order])) (order ! i) = Some i"
    unfolding get using d map_of_zip_nth [of order "[0..<length order]" i] by simp
  show "u \<notin> set order \<Longrightarrow> bm_get (bm_collect (zip order [0..<length order])) u = None"
    unfolding get by (auto simp: map_of_eq_None_iff dest: set_zip_leftD)
qed

lemma ascending_all_uids: "ascending (all_uids ue units relations)"
  by (simp add: all_uids_def)

lemma set_all_uids:
  "set (all_uids ue units relations) =
     (\<Union>(uid, u) \<in> set units. insert uid (set (ue_deps ue u) \<union> set (ue_grounds ue u))) \<union>
     (\<Union>r \<in> set relations. {rl_from r, rl_to r} \<union> (case rl_note r of Some n \<Rightarrow> {n} | None \<Rightarrow> {}))"
  by (auto simp: all_uids_def split: option.splits)

lemma fold_link:
  assumes "length (fst fr) = n" "length (snd fr) = n"
    and "\<forall>l \<in> set ls. fst l < n \<and> snd (snd l) < n"
  shows "length (fst (fold link ls fr)) = n \<and> length (snd (fold link ls fr)) = n \<and>
    (\<forall>i<n. \<forall>k t. ((k, t) \<in> set (fst (fold link ls fr) ! i) \<longleftrightarrow> (k, t) \<in> set (fst fr ! i) \<or> (i, k, t) \<in> set ls) \<and>
                 ((k, t) \<in> set (snd (fold link ls fr) ! i) \<longleftrightarrow> (k, t) \<in> set (snd fr ! i) \<or> (t, k, i) \<in> set ls))"
  using assms
proof (induction ls arbitrary: fr)
  case (Cons l ls)
  obtain f k t where l: "l = (f, k, t)" by (cases l)
  have fr': "length (fst (link l fr)) = n" "length (snd (link l fr)) = n"
    using Cons.prems by (simp_all add: link_def l)
  have b: "f < n" "t < n" using Cons.prems by (simp_all add: l)
  have "\<forall>i<n. \<forall>k' t'. ((k', t') \<in> set (fst (link l fr) ! i) \<longleftrightarrow> (k', t') \<in> set (fst fr ! i) \<or> (i, k', t') = l) \<and>
      ((k', t') \<in> set (snd (link l fr) ! i) \<longleftrightarrow> (k', t') \<in> set (snd fr ! i) \<or> (t', k', i) = l)"
    using Cons.prems(1,2) b by (auto simp: link_def l nth_list_update)
  with Cons.IH [OF fr'] Cons.prems(3) show ?case by auto
qed simp

subsection \<open>The edges of a store\<close>

text \<open>What the lists stand for: an edge of some kind between two identities.\<close>

definition store_edge :: "'u unit_edges \<Rightarrow> (uid \<times> 'u) list \<Rightarrow> relation list \<Rightarrow> uid \<Rightarrow> edge_kind \<Rightarrow> uid \<Rightarrow> bool" where
  "store_edge ue units relations a k b \<longleftrightarrow>
     (\<exists>u. (a, u) \<in> set units \<and> (k = EkDeps \<and> b \<in> set (ue_deps ue u) \<or> k = EkGrounds \<and> b \<in> set (ue_grounds ue u))) \<or>
     (\<exists>r \<in> set relations. rl_from r = a \<and> rl_to r = b \<and> k = relation_edge_kind (extension_names relations) (rl_kind r))"

lemma adjacency_parts:
  fixes ue :: "'u unit_edges" and units :: "(uid \<times> 'u) list" and relations :: "relation list"
  defines "g \<equiv> adjacency_from_parts ue units relations"
  shows "ad_order g = all_uids ue units relations" "ad_len g = length (ad_order g)"
    and "length (ad_fwd g) = ad_len g" "length (ad_rev g) = ad_len g" "length (ad_present g) = ad_len g"
    and "i < ad_len g \<Longrightarrow> (k, j) \<in> set (ad_fwd g ! i) \<longleftrightarrow>
      j < ad_len g \<and> store_edge ue units relations (ad_order g ! i) k (ad_order g ! j)"
    and "i < ad_len g \<Longrightarrow> (k, j) \<in> set (ad_rev g ! i) \<longleftrightarrow>
      j < ad_len g \<and> store_edge ue units relations (ad_order g ! j) k (ad_order g ! i)"
    and "i < ad_len g \<Longrightarrow> ad_present g ! i \<longleftrightarrow> ad_order g ! i \<in> fst ` set units"
    and "ad_id g u = Some i \<longleftrightarrow> i < ad_len g \<and> ad_order g ! i = u"
proof -
  define order where "order = all_uids ue units relations"
  define n where "n = length order"
  define idx where "idx = (\<lambda>u. the (bm_get (bm_collect (zip order [0..<n])) u))"
  define links where "links = unit_links ue idx units @ relation_links (extension_names relations) idx relations"
  define fr where "fr = fold link links (replicate n [], replicate n [])"
  have g: "g = \<lparr>ad_order = order, ad_index = bm_collect (zip order [0..<n]),
      ad_present = map (\<lambda>u. u \<in> fst ` set units) order,
      ad_fwd = map sort_dedup (fst fr), ad_rev = map sort_dedup (snd fr),
      ad_extensions = extension_names relations\<rparr>"
    unfolding g_def adjacency_from_parts_def Let_def fr_def links_def idx_def n_def order_def by simp
  have asc: "ascending order" by (simp add: order_def ascending_all_uids)
  note get = index_get [OF asc, folded n_def]
  have idx: "u \<in> set order \<Longrightarrow> idx u < n \<and> order ! idx u = u" for u
    using get(1) by (auto simp: idx_def in_set_conv_nth n_def)
  have idx_nth: "i < n \<Longrightarrow> idx (order ! i) = i" for i using get(1) by (simp add: idx_def)
  have mem: "\<And>a u b. (a, u) \<in> set units \<Longrightarrow> b \<in> set (ue_deps ue u) \<or> b \<in> set (ue_grounds ue u) \<Longrightarrow> a \<in> set order \<and> b \<in> set order"
      "\<And>r. r \<in> set relations \<Longrightarrow> rl_from r \<in> set order \<and> rl_to r \<in> set order"
    by (auto simp: order_def set_all_uids)
  have link_iff: "(i, k, j) \<in> set links \<longleftrightarrow>
      i < n \<and> j < n \<and> store_edge ue units relations (order ! i) k (order ! j)" for i k j
  proof
    assume "(i, k, j) \<in> set links"
    then consider a u b where "(a, u) \<in> set units" "k = EkDeps \<and> b \<in> set (ue_deps ue u) \<or> k = EkGrounds \<and> b \<in> set (ue_grounds ue u)"
        "i = idx a" "j = idx b"
      | r where "r \<in> set relations" "i = idx (rl_from r)" "j = idx (rl_to r)"
        "k = relation_edge_kind (extension_names relations) (rl_kind r)"
      by (auto simp: links_def set_unit_links relation_links_def)
    then show "i < n \<and> j < n \<and> store_edge ue units relations (order ! i) k (order ! j)"
    proof cases
      case 1
      with mem(1) [of a u b] idx show ?thesis unfolding store_edge_def by auto
    next
      case 2
      with mem(2) idx show ?thesis unfolding store_edge_def by auto
    qed
  next
    assume a: "i < n \<and> j < n \<and> store_edge ue units relations (order ! i) k (order ! j)"
    have "(idx (order ! i), k, idx (order ! j)) \<in> set links"
      using a unfolding store_edge_def
    proof (elim conjE disjE exE bexE)
      fix u assume "(order ! i, u) \<in> set units" "k = EkDeps" "order ! j \<in> set (ue_deps ue u)"
      then have "(idx (order ! i), k, idx (order ! j)) \<in> set (unit_links ue idx units)"
        unfolding set_unit_links by blast
      then show ?thesis by (simp add: links_def)
    next
      fix u assume "(order ! i, u) \<in> set units" "k = EkGrounds" "order ! j \<in> set (ue_grounds ue u)"
      then have "(idx (order ! i), k, idx (order ! j)) \<in> set (unit_links ue idx units)"
        unfolding set_unit_links by blast
      then show ?thesis by (simp add: links_def)
    next
      fix r assume "r \<in> set relations" "rl_from r = order ! i" "rl_to r = order ! j"
        "k = relation_edge_kind (extension_names relations) (rl_kind r)"
      then have "(idx (order ! i), k, idx (order ! j)) \<in> set (relation_links (extension_names relations) idx relations)"
        unfolding relation_links_def by (metis (mono_tags, lifting) image_eqI list.set_map)
      then show ?thesis by (simp add: links_def)
    qed
    then show "(i, k, j) \<in> set links" using a idx_nth by simp
  qed
  have bounds: "\<forall>l \<in> set links. fst l < n \<and> snd (snd l) < n"
    using link_iff by (auto simp: split_paired_all)
  note F = fold_link [of "(replicate n [], replicate n [])" n links, OF _ _ bounds, folded fr_def]
  show "ad_order g = all_uids ue units relations" "ad_len g = length (ad_order g)"
    by (simp_all add: g ad_len_def order_def)
  have len: "ad_len g = n" by (simp add: g ad_len_def n_def)
  show "length (ad_fwd g) = ad_len g" "length (ad_rev g) = ad_len g" "length (ad_present g) = ad_len g"
    using F len by (simp_all add: g n_def)
  show "i < ad_len g \<Longrightarrow> (k, j) \<in> set (ad_fwd g ! i) \<longleftrightarrow>
      j < ad_len g \<and> store_edge ue units relations (ad_order g ! i) k (ad_order g ! j)"
    using F link_iff by (auto simp: len) (auto simp: g)
  show "i < ad_len g \<Longrightarrow> (k, j) \<in> set (ad_rev g ! i) \<longleftrightarrow>
      j < ad_len g \<and> store_edge ue units relations (ad_order g ! j) k (ad_order g ! i)"
    using F link_iff by (auto simp: len) (auto simp: g)
  show "i < ad_len g \<Longrightarrow> ad_present g ! i \<longleftrightarrow> ad_order g ! i \<in> fst ` set units"
    by (simp add: len) (simp add: g n_def)
  show "ad_id g u = Some i \<longleftrightarrow> i < ad_len g \<and> ad_order g ! i = u"
  proof -
    have "ad_id g u = bm_get (bm_collect (zip order [0..<n])) u" by (simp add: ad_id_def g)
    moreover have "bm_get (bm_collect (zip order [0..<n])) u = Some i \<longleftrightarrow> i < n \<and> order ! i = u"
      using get idx by (metis in_set_conv_nth n_def not_Some_eq option.inject)
    ultimately show ?thesis by (simp add: len) (simp add: g)
  qed
qed

lemma ad_fwd_rev_ordered:
  fixes ue :: "'u unit_edges" and units :: "(uid \<times> 'u) list" and relations :: "relation list"
  defines "g \<equiv> adjacency_from_parts ue units relations"
  shows "i < ad_len g \<Longrightarrow> ascending (ad_fwd g ! i) \<and> ascending (ad_rev g ! i)"
proof -
  assume i: "i < ad_len g"
  obtain f r where g: "ad_fwd g = map sort_dedup f" "ad_rev g = map sort_dedup r"
    by (simp add: g_def adjacency_from_parts_def Let_def)
  with i adjacency_parts(3,4) [where ue = ue and units = units and relations = relations, folded g_def] show ?thesis by simp
qed

lemma ad_out_ordered [simp, ok_intros]: "ascending (ad_out g kinds i)" "ascending (ad_incoming g kinds i)"
  by (simp_all add: ad_out_def ad_incoming_def)

text \<open>The adjacency lists of a built graph, read through the edges of the store.\<close>

definition adjacency_ok :: "adjacency \<Rightarrow> (uid \<Rightarrow> edge_kind \<Rightarrow> uid \<Rightarrow> bool) \<Rightarrow> bool" where
  "adjacency_ok g E \<longleftrightarrow> ascending (ad_order g) \<and>
     length (ad_fwd g) = ad_len g \<and> length (ad_rev g) = ad_len g \<and>
     (\<forall>i<ad_len g. \<forall>k j. (k, j) \<in> set (ad_fwd g ! i) \<longleftrightarrow> j < ad_len g \<and> E (ad_order g ! i) k (ad_order g ! j)) \<and>
     (\<forall>i<ad_len g. \<forall>k j. (k, j) \<in> set (ad_rev g ! i) \<longleftrightarrow> j < ad_len g \<and> E (ad_order g ! j) k (ad_order g ! i))"

lemma adjacency_ok_from_parts:
  "adjacency_ok (adjacency_from_parts ue units relations) (store_edge ue units relations)"
  using adjacency_parts [where ue = ue and units = units and relations = relations]
    ascending_all_uids [of ue units relations]
  unfolding adjacency_ok_def by simp

lemma ad_out_iff:
  "adjacency_ok g E \<Longrightarrow> j \<in> set (ad_out g kinds i) \<longleftrightarrow>
     i < ad_len g \<and> j < ad_len g \<and> (\<exists>k. es_contains kinds k \<and> E (ad_order g ! i) k (ad_order g ! j))"
  by (force simp: ad_out_def ad_out_edges_def adjacency_ok_def image_iff)

lemma ad_incoming_iff:
  "adjacency_ok g E \<Longrightarrow> j \<in> set (ad_incoming g kinds i) \<longleftrightarrow>
     i < ad_len g \<and> j < ad_len g \<and> (\<exists>k. es_contains kinds k \<and> E (ad_order g ! j) k (ad_order g ! i))"
  by (force simp: ad_incoming_def ad_in_edges_def adjacency_ok_def image_iff)

subsection \<open>Properties\<close>

text \<open>What a unit or a relation of the store names.\<close>

definition mentioned :: "'u unit_edges \<Rightarrow> (uid \<times> 'u) list \<Rightarrow> relation list \<Rightarrow> uid \<Rightarrow> bool" where
  "mentioned ue units relations u \<longleftrightarrow>
     (\<exists>(v, x) \<in> set units. u = v \<or> u \<in> set (ue_deps ue x) \<or> u \<in> set (ue_grounds ue x)) \<or>
     (\<exists>r \<in> set relations. u = rl_from r \<or> u = rl_to r \<or> rl_note r = Some u)"

lemma mentioned_all_uids: "mentioned ue units relations u \<longleftrightarrow> u \<in> set (all_uids ue units relations)"
proof -
  have "u \<in> (case rl_note r of Some n \<Rightarrow> {n} | None \<Rightarrow> {}) \<longleftrightarrow> rl_note r = Some u" for r
    by (auto split: option.split)
  then show ?thesis by (auto simp: mentioned_def set_all_uids)
qed

text \<open>
  C29. The adjacency is the store: an identity has an id exactly when a unit or a relation mentions it (as the
  unit, a dep, a ground, an end or a note), ids number the mentioned identities in ascending order; node
  \<open>j\<close> is an out-edge of node \<open>i\<close> under a set of kinds exactly when both ids stand for identities and the
  store has an edge of one of those kinds from the first to the second, in-edges are the same edges turned
  round, and each list is strictly ascending, with no duplicates. Ids are natural numbers here, so this is
  the code's adjacency for fewer than \<open>2 ^ 32\<close> identities.
\<close>

theorem adjacency_faithful:
  fixes ue :: "'u unit_edges" and units :: "(uid \<times> 'u) list" and relations :: "relation list"
  defines "g \<equiv> adjacency_from_parts ue units relations"
  shows "(j \<in> set (ad_out g kinds i) \<longleftrightarrow> i < ad_len g \<and> j < ad_len g \<and>
            (\<exists>k. es_contains kinds k \<and> store_edge ue units relations (ad_order g ! i) k (ad_order g ! j))) \<and>
         (i \<in> set (ad_incoming g kinds j) \<longleftrightarrow> j \<in> set (ad_out g kinds i)) \<and>
         ((\<exists>n. ad_id g u = Some n) \<longleftrightarrow> mentioned ue units relations u) \<and>
         (ad_id g u = Some i \<longleftrightarrow> i < ad_len g \<and> ad_order g ! i = u) \<and> sorted_wrt (<) (ad_order g) \<and>
         sorted_wrt (<) (ad_out g kinds i) \<and> sorted_wrt (<) (ad_incoming g kinds i)"
proof -
  have ok: "adjacency_ok g (store_edge ue units relations)"
    unfolding g_def by (rule adjacency_ok_from_parts)
  have id: "ad_id g u = Some i \<longleftrightarrow> i < ad_len g \<and> ad_order g ! i = u" for i
    unfolding g_def by (rule adjacency_parts(9))
  have order: "ad_order g = all_uids ue units relations" "ad_len g = length (ad_order g)"
    unfolding g_def by (rule adjacency_parts)+
  have "(\<exists>n. ad_id g u = Some n) \<longleftrightarrow> mentioned ue units relations u"
    unfolding id mentioned_all_uids order(1) [symmetric] by (auto simp: in_set_conv_nth order(2))
  moreover have "sorted_wrt (<) (ad_order g)"
    using ascending_all_uids [of ue units relations] by (simp add: order(1))
  ultimately show ?thesis
    using id ad_out_ordered [of g] by (auto simp: ad_out_iff [OF ok] ad_incoming_iff [OF ok])
qed

end
