(* ===== verification/Traverse.thy ===== *)
theory Traverse
  imports Adjacency "HOL-Library.Multiset"
begin

section \<open>Traversal: closures, topological order and cycles (smysl-graph/src/traverse.rs)\<close>

text \<open>
  The visited-set walk behind \<open>closure\<close> and \<open>reverse_closure\<close>, Kahn's algorithm with a min-heap,
  and the grouping of the unordered nodes. An index outside the graph panics in the source: here
  the value is \<open>None\<close>. What the algorithms rely on, two neighbour functions that are each other's
  converse and stay below the node count, is the locale \<open>digraph\<close>; the adjacency lists of a built
  graph interpret it in both directions. The scratch buffers only carry the visited set and the
  stack of one call and are not part of the model.
\<close>

subsection \<open>The operations\<close>

text \<open>One edge of the walk: \<open>m\<close> is visited, pushed and recorded the first time it is met.\<close>

fun visit :: "nat \<Rightarrow> bool list \<times> nat list \<times> nat list \<Rightarrow> bool list \<times> nat list \<times> nat list" where
  "visit m (seen, stack, out) =
     (if seen ! m then (seen, stack, out) else (seen[m := True], m # stack, out @ [m]))"

definition unseen :: "bool list \<Rightarrow> nat" where
  "unseen seen = length (filter Not seen)"

definition marked :: "bool list \<Rightarrow> nat set" where
  "marked seen = {i. i < length seen \<and> seen ! i}"

lemma marked_visit [simp]: "m < length seen \<Longrightarrow> marked (seen[m := True]) = insert m (marked seen)"
  by (auto simp: marked_def nth_list_update)

lemma marked_replicate [simp]: "marked (replicate k False) = {}"
  by (auto simp: marked_def)

lemma in_marked_iff: "m < length seen \<Longrightarrow> m \<in> marked seen \<longleftrightarrow> seen ! m"
  by (simp add: marked_def)

lemma unseen_visit:
  "m < length seen \<Longrightarrow> \<not> seen ! m \<Longrightarrow> Suc (unseen (seen[m := True])) = unseen seen"
proof (induction seen arbitrary: m)
  case (Cons b seen)
  then show ?case by (cases m) (auto simp: unseen_def)
qed simp

lemma fold_visit_measure:
  "\<forall>m \<in> set ms. m < length seen \<Longrightarrow> fold visit ms (seen, stack, out) = (seen', stack', out') \<Longrightarrow>
   length seen' = length seen \<and> unseen seen' + length stack' = unseen seen + length stack"
proof (induction ms arbitrary: seen stack out)
  case (Cons m ms)
  show ?case
  proof (cases "seen ! m")
    case True
    with Cons show ?thesis by simp
  next
    case False
    with Cons.IH [of "seen[m := True]" "m # stack" "out @ [m]"] Cons.prems unseen_visit [of m seen]
    show ?thesis by auto
  qed
qed simp

function walk_loop :: "(nat \<Rightarrow> nat list) \<Rightarrow> bool list \<Rightarrow> nat list \<Rightarrow> nat list \<Rightarrow> nat list option" where
  "walk_loop next seen [] out = Some (sort out)"
| "walk_loop next seen (n # stack) out =
     (if \<exists>m \<in> set (next n). length seen \<le> m then None
      else let (seen', stack', out') = fold visit (next n) (seen, stack, out)
           in walk_loop next seen' stack' out')"
  by pat_completeness auto

termination
proof (relation "measure (\<lambda>(next, seen, stack, out). unseen seen + length stack)")
  fix "next" :: "nat \<Rightarrow> nat list" and seen n stack out x seen' y stack' out'
  assume a: "\<not> (\<exists>m \<in> set (next n). length seen \<le> m)"
    and b: "x = fold visit (next n) (seen, stack, out)" "(seen', y) = x" "(stack', out') = y"
  from b have "fold visit (next n) (seen, stack, out) = (seen', stack', out')" by simp
  from fold_visit_measure [OF _ this] a
  show "((next, seen', stack', out'), next, seen, n # stack, out)
      \<in> measure (\<lambda>(next, seen, stack, out). unseen seen + length stack)"
    by (simp add: not_le)
qed simp

datatype direction = Forward | Reverse

definition neighbours :: "adjacency \<Rightarrow> edge_set \<Rightarrow> direction \<Rightarrow> nat \<Rightarrow> nat list" where
  "neighbours g kinds d n = (case d of Forward \<Rightarrow> ad_out g kinds n | Reverse \<Rightarrow> ad_incoming g kinds n)"

definition walk :: "adjacency \<Rightarrow> nat list \<Rightarrow> edge_set \<Rightarrow> direction \<Rightarrow> nat list option" where
  "walk g roots kinds d =
     (let (seen, stack, out) =
        fold visit (filter (\<lambda>r. r < ad_len g) roots) (replicate (ad_len g) False, [], [])
      in walk_loop (neighbours g kinds d) seen stack out)"

definition graph_closure :: "adjacency \<Rightarrow> nat list \<Rightarrow> edge_set \<Rightarrow> nat list option" where
  "graph_closure g roots kinds = walk g roots kinds Forward"

definition reverse_closure :: "adjacency \<Rightarrow> nat list \<Rightarrow> edge_set \<Rightarrow> nat list option" where
  "reverse_closure g roots kinds = walk g roots kinds Reverse"

text \<open>
  Kahn's loop. The heap is the ascending list of its elements; \<open>done\<close> and \<open>pending\<close> are the
  vectors of the source, and \<open>saturating_sub\<close> is subtraction on \<open>nat\<close>.
\<close>

record topo_order =
  tp_order :: "nat list"
  tp_cyclic :: "nat list"

definition topo_is_acyclic :: "topo_order \<Rightarrow> bool" where
  "topo_is_acyclic t \<longleftrightarrow> tp_cyclic t = []"

fun release :: "bool list \<Rightarrow> nat \<Rightarrow> nat list \<times> nat list \<Rightarrow> nat list \<times> nat list" where
  "release dn d (ready, pending) =
     (let p = pending ! d - 1
      in (if p = 0 \<and> \<not> dn ! d then insort d ready else ready, pending[d := p]))"

lemma fold_release_length [simp]: "length (snd (fold (release dn) ds (ready, pending))) = length pending"
  by (induction ds arbitrary: ready pending) (simp_all add: Let_def)

function topo_loop :: "(nat \<Rightarrow> nat list) \<Rightarrow> nat list \<Rightarrow> nat list \<Rightarrow> bool list \<Rightarrow> nat list \<Rightarrow> (nat list \<times> bool list) option" where
  "topo_loop inc [] pending dn order = Some (order, dn)"
| "topo_loop inc (node # ready) pending dn order =
     (if length dn \<le> node then None
      else if dn ! node then topo_loop inc ready pending dn order
      else if \<exists>d \<in> set (inc node). length pending \<le> d \<or> length dn \<le> d then None
      else let dn' = dn[node := True]; (ready', pending') = fold (release dn') (inc node) (ready, pending)
           in topo_loop inc ready' pending' dn' (order @ [node]))"
  by pat_completeness auto

termination
proof (relation "measures [\<lambda>(inc, ready, pending, dn, order). unseen dn,
    \<lambda>(inc, ready, pending, dn, order). length ready]")
  fix inc :: "nat \<Rightarrow> nat list" and node ready pending dn order dn' and x and ready' pending' :: "nat list"
  assume "\<not> length dn \<le> node" "\<not> dn ! node" "dn' = dn[node := True]"
  then show "((inc, ready', pending', dn', order @ [node]), inc, node # ready, pending, dn, order)
      \<in> measures [\<lambda>(inc, ready, pending, dn, order). unseen dn,
         \<lambda>(inc, ready, pending, dn, order). length ready]"
    using unseen_visit [of node dn] by simp
qed simp_all

definition topo :: "adjacency \<Rightarrow> edge_set \<Rightarrow> topo_order option" where
  "topo g kinds =
     (let n = ad_len g;
          pending = map (\<lambda>i. length (ad_out g kinds i)) [0..<n]
      in case topo_loop (ad_incoming g kinds) (filter (\<lambda>i. pending ! i = 0) [0..<n]) pending (replicate n False) [] of
           None \<Rightarrow> None
         | Some (order, dn) \<Rightarrow> Some \<lparr>tp_order = order, tp_cyclic = filter (\<lambda>i. \<not> dn ! i) [0..<n]\<rparr>)"

definition rebuttals_of :: "adjacency \<Rightarrow> nat \<Rightarrow> nat list" where
  "rebuttals_of g node =
     (case ek_kernel Rebuts of None \<Rightarrow> [] | Some rebuts \<Rightarrow> ad_incoming g (es_one rebuts) node)"

text \<open>
  \<open>cycles\<close>: the groups of mutually reachable nodes among those \<open>topo\<close> left out. The loop is
  \<open>partial_function\<close>, so that not ending is \<open>None\<close> as a panic is.
\<close>

definition cycle_group :: "adjacency \<Rightarrow> edge_set \<Rightarrow> nat list \<Rightarrow> nat \<Rightarrow> nat list option" where
  "cycle_group g kinds remaining start =
     (case (graph_closure g [start] kinds, reverse_closure g [start] kinds) of
        (Some forward, Some backward) \<Rightarrow>
          (let grp = sort (filter (\<lambda>n. n \<in> set backward \<and> n \<in> set remaining) forward)
           in Some (if grp = [] then [start] else grp))
      | _ \<Rightarrow> None)"

partial_function (option) cycles_loop ::
    "adjacency \<Rightarrow> edge_set \<Rightarrow> nat list \<Rightarrow> nat list list \<Rightarrow> nat list list option" where
  "cycles_loop g kinds remaining out =
     (case remaining of
        [] \<Rightarrow> Some (sort out)
      | start # _ \<Rightarrow> Option.bind (cycle_group g kinds remaining start) (\<lambda>grp.
          cycles_loop g kinds (filter (\<lambda>n. n \<notin> set grp) remaining) (out @ [grp])))"

declare cycles_loop.simps [code]

definition cycles :: "adjacency \<Rightarrow> edge_set \<Rightarrow> nat list list option" where
  "cycles g kinds =
     Option.bind (topo g kinds) (\<lambda>t. if topo_is_acyclic t then Some [] else cycles_loop g kinds (tp_cyclic t) [])"

subsection \<open>The interface: a finite directed graph seen from both ends\<close>

locale graph_walk =
  fixes out :: "nat \<Rightarrow> nat list" and n :: nat
  assumes range_out: "j \<in> set (out i) \<Longrightarrow> i < n \<and> j < n"
begin

definition arcs :: "(nat \<times> nat) set" where
  "arcs = {(i, j). j \<in> set (out i)}"

lemma arcs_iff [simp]: "(i, j) \<in> arcs \<longleftrightarrow> j \<in> set (out i)"
  by (simp add: arcs_def)

lemma reach_range: "(i, j) \<in> arcs\<^sup>* \<Longrightarrow> i < n \<Longrightarrow> j < n"
  by (induction rule: rtrancl_induct) (auto dest: range_out)

lemma fold_visit:
  assumes "\<forall>m \<in> set ms. m < length seen" "distinct res" "marked seen = set res"
    "fold visit ms (seen, stack, res) = (seen', stack', res')"
  shows "length seen' = length seen" "distinct res'" "marked seen' = set res'"
    "set res' = set res \<union> set ms" "set stack' = set stack \<union> (set ms - set res)"
proof -
  have "length seen' = length seen \<and> distinct res' \<and> marked seen' = set res' \<and>
    set res' = set res \<union> set ms \<and> set stack' = set stack \<union> (set ms - set res)"
    using assms
  proof (induction ms arbitrary: seen stack res)
    case (Cons m ms)
    show ?case
    proof (cases "seen ! m")
      case True
      moreover have "m \<in> set res" using Cons.prems(1,3) True in_marked_iff [of m seen] by auto
      ultimately show ?thesis using Cons.IH [of seen res stack] Cons.prems by auto
    next
      case False
      have new: "distinct (res @ [m])" "marked (seen[m := True]) = set (res @ [m])"
        using Cons.prems(1-3) False in_marked_iff [of m seen] by auto
      have "m \<notin> set res" using Cons.prems(1,3) False in_marked_iff [of m seen] by auto
      moreover have "length seen' = length seen \<and> distinct res' \<and>
          marked seen' = set res' \<and> set res' = set (res @ [m]) \<union> set ms \<and>
          set stack' = set (m # stack) \<union> (set ms - set (res @ [m]))"
        using Cons.IH [OF _ new, of "m # stack"] Cons.prems(1,4) False by simp
      ultimately show ?thesis by auto
    qed
  qed auto
  then show "length seen' = length seen" "distinct res'" "marked seen' = set res'"
    "set res' = set res \<union> set ms" "set stack' = set stack \<union> (set ms - set res)" by blast+
qed

definition walk_inv :: "nat set \<Rightarrow> bool list \<Rightarrow> nat list \<Rightarrow> nat list \<Rightarrow> bool" where
  "walk_inv R seen stack res \<longleftrightarrow> length seen = n \<and> distinct res \<and> marked seen = set res \<and>
     set stack \<subseteq> set res \<and> R \<subseteq> set res \<and> set res \<subseteq> arcs\<^sup>* `` R \<and>
     (\<forall>i \<in> set res - set stack. set (out i) \<subseteq> set res)"

lemma walk_inv_step:
  assumes inv: "walk_inv R seen (x # stack) res"
    and step: "fold visit (out x) (seen, stack, res) = (seen', stack', res')"
  shows "walk_inv R seen' stack' res'"
proof -
  have x: "x \<in> set res" "set (out x) \<subseteq> {..<n}" "length seen = n"
    using inv range_out by (auto simp: walk_inv_def)
  then have bound: "\<forall>m \<in> set (out x). m < length seen" by auto
  have "distinct res" "marked seen = set res" using inv by (auto simp: walk_inv_def)
  note F = fold_visit [OF bound this step]
  have "set (out x) \<subseteq> arcs\<^sup>* `` R"
  proof
    fix j assume "j \<in> set (out x)"
    moreover have "x \<in> arcs\<^sup>* `` R" using x inv by (auto simp: walk_inv_def)
    ultimately show "j \<in> arcs\<^sup>* `` R" by (meson Image_iff arcs_iff rtrancl.rtrancl_into_rtrancl)
  qed
  then have "set res' \<subseteq> arcs\<^sup>* `` R" "R \<subseteq> set res'" "set stack' \<subseteq> set res'"
    using inv F(4,5) by (auto simp: walk_inv_def)
  moreover have "\<forall>i \<in> set res' - set stack'. set (out i) \<subseteq> set res'"
    using inv F(4,5) by (auto simp: walk_inv_def)
  ultimately show ?thesis
    using F(1-3) x(3) by (simp add: walk_inv_def)
qed

lemma walk_inv_end:
  assumes "walk_inv R seen [] res"
  shows "set res = arcs\<^sup>* `` R"
proof -
  have "\<forall>i \<in> set res. set (out i) \<subseteq> set res" using assms unfolding walk_inv_def by simp
  then have "arcs `` set res \<subseteq> set res" by (auto simp: subset_iff)
  then have "arcs\<^sup>* `` set res \<subseteq> set res" by (simp add: Image_closed_trancl)
  then show ?thesis using assms unfolding walk_inv_def by blast
qed

lemma walk_loop_reaches:
  "nx = out \<Longrightarrow> walk_inv R seen stack res \<Longrightarrow>
   \<exists>xs. walk_loop nx seen stack res = Some xs \<and> ascending xs \<and> set xs = arcs\<^sup>* `` R"
proof (induction nx seen stack res rule: walk_loop.induct)
  case (1 "next" seen res)
  then have "distinct res" by (simp add: walk_inv_def)
  then show ?case
    using walk_inv_end [OF 1(2)] by (simp add: strict_sorted_iff)
next
  case (2 "next" seen x stack res)
  obtain seen' stack' res' where f: "fold visit (out x) (seen, stack, res) = (seen', stack', res')"
    by (metis prod_cases3)
  have nb: "\<not> (\<exists>m \<in> set (next x). length seen \<le> m)"
    using 2(2,3) range_out by (fastforce simp: walk_inv_def)
  then show ?case
    using 2(1) [OF nb refl _ _ 2(2), of seen' "(stack', res')" stack' res'] 2(2) f walk_inv_step [OF 2(3) f]
    by simp
qed

lemma walk_reaches:
  assumes "fold visit (filter (\<lambda>r. r < n) roots) (replicate n False, [], []) = (seen, stack, res)"
  shows "\<exists>xs. walk_loop out seen stack res = Some xs \<and> ascending xs \<and>
    set xs = arcs\<^sup>* `` {r \<in> set roots. r < n}"
proof (rule walk_loop_reaches [OF refl])
  have "\<forall>m \<in> set (filter (\<lambda>r. r < n) roots). m < length (replicate n False)"
    "marked (replicate n False) = set []" by auto
  from fold_visit [OF this(1) _ this(2) assms]
  show "walk_inv {r \<in> set roots. r < n} seen stack res"
    unfolding walk_inv_def by auto
qed

end

text \<open>
  What Kahn's algorithm relies on: in-edges are the out-edges turned round, and each list is
  ascending, so an edge is counted once.
\<close>

locale digraph = graph_walk out n for out :: "nat \<Rightarrow> nat list" and n +
  fixes inc :: "nat \<Rightarrow> nat list"
  assumes converse: "j \<in> set (inc i) \<longleftrightarrow> i \<in> set (out j)"
    and ordered_out: "ascending (out i)"
    and ordered_inc: "ascending (inc i)"

sublocale digraph \<subseteq> inward: graph_walk inc n
  by unfold_locales (use converse range_out in blast)

context digraph
begin

lemma inward_arcs: "inward.arcs = arcs\<inverse>"
  by (auto simp: converse)

definition ready_after :: "nat list \<Rightarrow> nat set" where
  "ready_after xs = {i. i < n \<and> i \<notin> set xs \<and> set (out i) \<subseteq> set xs}"

text \<open>The specification of the order: each node is the least one whose out-neighbours all come before.\<close>

definition greedy :: "nat list \<Rightarrow> bool" where
  "greedy xs \<longleftrightarrow> (\<forall>p<length xs. xs ! p \<in> ready_after (take p xs) \<and> (\<forall>i \<in> ready_after (take p xs). xs ! p \<le> i))"

lemma greedy_snoc: "greedy (xs @ [x]) \<longleftrightarrow> greedy xs \<and> x \<in> ready_after xs \<and> (\<forall>i \<in> ready_after xs. x \<le> i)"
  unfolding greedy_def by (auto simp: less_Suc_eq nth_append)

lemma fold_release:
  assumes "distinct ds" "\<forall>d \<in> set ds. d < length pending" "ascending ready" "set ds \<inter> set ready = {}"
    "fold (release dn) ds (ready, pending) = (ready', pending')"
  shows "length pending' = length pending \<and>
    (\<forall>i<length pending. pending' ! i = pending ! i - (if i \<in> set ds then 1 else 0)) \<and>
    ascending ready' \<and> set ready' = set ready \<union> {d \<in> set ds. pending ! d - 1 = 0 \<and> \<not> dn ! d}"
  using assms
proof (induction ds arbitrary: ready pending)
  case (Cons d ds)
  define r where "r = (if pending ! d - 1 = 0 \<and> \<not> dn ! d then insort d ready else ready)"
  define q where "q = pending[d := pending ! d - 1]"
  have r: "ascending r" "set r = set ready \<union> (if pending ! d - 1 = 0 \<and> \<not> dn ! d then {d} else {})"
    using Cons.prems(3,4) by (auto simp: r_def strict_sorted_iff sorted_insort distinct_insort set_insort_key)
  have "fold (release dn) ds (r, q) = (ready', pending')"
    using Cons.prems(5) by (simp add: r_def q_def Let_def)
  moreover have "set ds \<inter> set r = {}" using Cons.prems(1,4) r(2) by auto
  ultimately have "length pending' = length q \<and>
    (\<forall>i<length q. pending' ! i = q ! i - (if i \<in> set ds then 1 else 0)) \<and>
    ascending ready' \<and> set ready' = set r \<union> {d \<in> set ds. q ! d - 1 = 0 \<and> \<not> dn ! d}"
    using Cons.IH [of q r] Cons.prems(1,2) r(1) by (simp add: q_def)
  then show ?case
    using Cons.prems(1,2) r(2) by (auto simp: q_def nth_list_update)
qed simp

definition topo_inv :: "nat list \<Rightarrow> nat list \<Rightarrow> bool list \<Rightarrow> nat list \<Rightarrow> bool" where
  "topo_inv ready pending dn order \<longleftrightarrow> length pending = n \<and> length dn = n \<and> distinct order \<and>
     marked dn = set order \<and> (\<forall>i<n. pending ! i = card (set (out i) - set order)) \<and>
     ascending ready \<and> set ready = ready_after order \<and> greedy order"

lemma released:
  assumes "x \<in> ready_after order"
  shows "ready_after (order @ [x]) =
    (ready_after order - {x}) \<union> {d \<in> set (inc x). card (set (out d) - set order) - 1 = 0 \<and> d \<notin> set (order @ [x])}"
    (is "?L = ?R")
proof -
  have x: "x \<notin> set order" "x < n" using assms by (auto simp: ready_after_def)
  have one: "card (set (out d) - set order) - 1 = 0 \<longleftrightarrow> set (out d) \<subseteq> set order \<union> {x}"
    if d: "x \<in> set (out d)" for d
  proof -
    have "set (out d) - set order = insert x (set (out d) - set order - {x})" using d x by auto
    then have "card (set (out d) - set order) = Suc (card (set (out d) - set order - {x}))"
      by (metis Diff_iff card_insert_disjoint finite_Diff finite_set insertI1)
    then have "card (set (out d) - set order) - 1 = 0 \<longleftrightarrow> set (out d) - set order - {x} = {}" by simp
    then show ?thesis by auto
  qed
  show ?thesis
  proof (intro equalityI subsetI)
    fix d assume d: "d \<in> ?L"
    show "d \<in> ?R"
    proof (cases "x \<in> set (out d)")
      case True
      with d one [OF True] show ?thesis by (auto simp: ready_after_def converse)
    next
      case False
      with d show ?thesis by (auto simp: ready_after_def)
    qed
  next
    fix d assume d: "d \<in> ?R"
    then show "d \<in> ?L"
      using one [of d] range_out [of x d] by (auto simp: ready_after_def converse)
  qed
qed

lemma topo_inv_step:
  assumes inv: "topo_inv (x # ready) pending dn order"
    and step: "fold (release (dn[x := True])) (inc x) (ready, pending) = (ready', pending')"
  shows "topo_inv ready' pending' (dn[x := True]) (order @ [x])"
proof -
  have len: "length pending = n" "length dn = n" and marked: "marked dn = set order"
    and pend: "\<forall>i<n. pending ! i = card (set (out i) - set order)"
    and asc: "ascending (x # ready)" and rdy: "set (x # ready) = ready_after order"
    and gr: "greedy order" "distinct order"
    using inv unfolding topo_inv_def by blast+
  have x: "x \<in> ready_after order" using rdy by auto
  then have xn: "x < n" "x \<notin> set order" by (auto simp: ready_after_def)
  have m: "marked (dn[x := True]) = set (order @ [x])" using xn len marked by simp
  have fresh: "set (inc x) \<inter> set ready = {}"
  proof -
    have "d \<notin> ready_after order" if "d \<in> set (inc x)" for d
      using that xn by (auto simp: ready_after_def converse)
    then show ?thesis using rdy by auto
  qed
  have "distinct (inc x)" "\<forall>d \<in> set (inc x). d < length pending" "ascending ready"
    using ordered_inc ascending_distinct inward.range_out len asc by auto
  note F = fold_release [OF this fresh step]
  have undone: "\<not> dn[x := True] ! d \<longleftrightarrow> d \<notin> set (order @ [x])" if "d < n" for d
    using in_marked_iff [of d "dn[x := True]"] m that len by auto
  have "set ready' = ready_after (order @ [x])"
  proof -
    have "x \<notin> set ready" using asc by auto
    then have "set ready = ready_after order - {x}" using rdy by auto
    moreover have "{d \<in> set (inc x). pending ! d - 1 = 0 \<and> \<not> dn[x := True] ! d} =
        {d \<in> set (inc x). card (set (out d) - set order) - 1 = 0 \<and> d \<notin> set (order @ [x])}"
      using pend undone inward.range_out [of _ x] by (intro Collect_cong) auto
    ultimately show ?thesis using F released [OF x] by simp
  qed
  moreover have "pending' ! i = card (set (out i) - set (order @ [x]))" if i: "i < n" for i
  proof -
    have "set (out i) - set (order @ [x]) = (set (out i) - set order) - {x}" by auto
    then have "card (set (out i) - set (order @ [x])) = card (set (out i) - set order) - (if x \<in> set (out i) then 1 else 0)"
      using xn by (simp add: card_Diff_singleton)
    then show ?thesis using F pend i len by (simp add: converse)
  qed
  moreover have "greedy (order @ [x])"
    using gr(1) x asc unfolding greedy_snoc rdy [symmetric] by auto
  ultimately show ?thesis
    using F m len gr(2) xn by (simp add: topo_inv_def)
qed

lemma topo_loop_greedy:
  "inc' = inc \<Longrightarrow> topo_inv ready pending dn order \<Longrightarrow>
   \<exists>xs dn'. topo_loop inc' ready pending dn order = Some (xs, dn') \<and> greedy xs \<and> distinct xs \<and>
     length dn' = n \<and> marked dn' = set xs \<and> ready_after xs = {}"
proof (induction inc' ready pending dn order rule: topo_loop.induct)
  case (1 inc' pending dn order)
  then show ?case by (simp add: topo_inv_def)
next
  case (2 inc' x ready pending dn order)
  have "x \<in> ready_after order" "length dn = n" "length pending = n" "marked dn = set order"
    using 2(4) by (auto simp: topo_inv_def)
  then have a: "\<not> length dn \<le> x" "\<not> dn ! x"
    using in_marked_iff [of x dn] by (auto simp: ready_after_def)
  have b: "\<not> (\<exists>d \<in> set (inc' x). length pending \<le> d \<or> length dn \<le> d)"
    using inward.range_out [of _ x] \<open>length dn = n\<close> \<open>length pending = n\<close> 2(3) by (auto simp: not_le)
  obtain ready' pending' where f: "fold (release (dn[x := True])) (inc x) (ready, pending) = (ready', pending')"
    by fastforce
  show ?case
    using 2(2) [OF a b refl _ _ 2(3) topo_inv_step [OF 2(4) f]] f a b 2(3)
    by (simp add: Let_def)
qed

lemma topo_starts:
  "topo_inv (filter (\<lambda>i. map (\<lambda>i. length (out i)) [0..<n] ! i = 0) [0..<n])
     (map (\<lambda>i. length (out i)) [0..<n]) (replicate n False) []"
proof -
  have "card (set (out i)) = length (out i)" for i
    using ordered_out ascending_distinct distinct_card by blast
  then show ?thesis
    by (auto simp: topo_inv_def ready_after_def greedy_def ascending_filter_upt)
qed

text \<open>The nodes left out are exactly those from which a cycle can be reached.\<close>

lemma greedy_not_cyclic:
  assumes "greedy xs" "i \<in> set xs" "(i, j) \<in> arcs\<^sup>*"
  shows "j \<in> set xs \<and> (j, j) \<notin> arcs\<^sup>+"
proof -
  define pos where "pos i = (LEAST p. p < length xs \<and> xs ! p = i)" for i
  have pos: "pos i < length xs \<and> xs ! pos i = i" if "i \<in> set xs" for i
    unfolding pos_def using that by (metis (mono_tags, lifting) LeastI_ex in_set_conv_nth)
  have earlier: "b \<in> set xs \<and> pos b < pos a" if a: "a \<in> set xs" and b: "b \<in> set (out a)" for a b
  proof -
    have "a \<in> ready_after (take (pos a) xs)"
      using assms(1) pos [OF a] unfolding greedy_def by metis
    with b have "b \<in> set (take (pos a) xs)" by (auto simp: ready_after_def)
    then obtain q where q: "q < pos a" "q < length xs" "xs ! q = b" by (auto simp: in_set_conv_nth)
    then have "pos b \<le> q" unfolding pos_def by (simp add: Least_le)
    with q show ?thesis by (auto intro: nth_mem)
  qed
  have "j \<in> set xs \<and> pos j \<le> pos i" if "(i, j) \<in> arcs\<^sup>*" "i \<in> set xs" for i j
    using that
  proof (induction rule: rtrancl_induct)
    case (step y z)
    then show ?case using earlier [of y z] by auto
  qed simp
  then have reach: "j \<in> set xs \<and> pos j \<le> pos i" if "(i, j) \<in> arcs\<^sup>*" "i \<in> set xs" for i j using that by blast
  have "(j, j) \<notin> arcs\<^sup>+"
  proof
    assume "(j, j) \<in> arcs\<^sup>+"
    then obtain k where k: "k \<in> set (out j)" "(k, j) \<in> arcs\<^sup>*" by (metis arcs_iff tranclD)
    then show False using earlier [of j k] reach [OF k(2)] reach [OF assms(3,2)] by auto
  qed
  with reach [OF assms(3,2)] show ?thesis by simp
qed

lemma stuck_reaches_cycle:
  assumes "ready_after xs = {}" "i < n" "i \<notin> set xs"
  shows "\<exists>j. (i, j) \<in> arcs\<^sup>* \<and> (j, j) \<in> arcs\<^sup>+"
proof (rule ccontr)
  assume none: "\<not> ?thesis"
  define S where "S = {j. (i, j) \<in> arcs\<^sup>* \<and> j \<notin> set xs}"
  define r where "r = {(a, b). b \<in> S \<and> a \<in> S \<and> b \<in> set (out a)}"
  have "S \<subseteq> {..<n}" using reach_range assms(2) by (auto simp: S_def)
  then have fin: "finite S" by (rule finite_subset) simp
  have "r \<subseteq> arcs" by (auto simp: r_def)
  have "r \<subseteq> S \<times> S" by (auto simp: r_def)
  then have "finite r" using fin by (auto intro: finite_subset)
  moreover have "acyclic r"
  proof (rule acyclicI, intro allI notI)
    fix x assume x: "(x, x) \<in> r\<^sup>+"
    then have "x \<in> S" by (metis (no_types, lifting) r_def case_prodD mem_Collect_eq tranclD)
    moreover have "(x, x) \<in> arcs\<^sup>+" using x \<open>r \<subseteq> arcs\<close> by (rule trancl_mono)
    ultimately show False using none by (auto simp: S_def)
  qed
  ultimately have "wf (r\<inverse>)" by (simp add: finite_acyclic_wf_converse)
  moreover have "i \<in> S" using assms(3) by (simp add: S_def)
  ultimately obtain z where z: "z \<in> S" "\<And>y. (y, z) \<in> r\<inverse> \<Longrightarrow> y \<notin> S" by (rule wfE_min) blast
  have "z < n" "z \<notin> set xs" using z(1) reach_range assms(2) by (auto simp: S_def)
  then obtain y where y: "y \<in> set (out z)" "y \<notin> set xs" using assms(1) by (auto simp: ready_after_def)
  moreover have "(i, y) \<in> arcs\<^sup>*" using y(1) z(1) by (auto simp: S_def intro: rtrancl_into_rtrancl)
  ultimately show False using z by (auto simp: S_def r_def)
qed

lemma kahn:
  "\<exists>xs dn. topo_loop inc (filter (\<lambda>i. map (\<lambda>i. length (out i)) [0..<n] ! i = 0) [0..<n])
       (map (\<lambda>i. length (out i)) [0..<n]) (replicate n False) [] = Some (xs, dn) \<and>
     greedy xs \<and> distinct xs \<and> set xs = {i. i < n \<and> \<not> (\<exists>j. (i, j) \<in> arcs\<^sup>* \<and> (j, j) \<in> arcs\<^sup>+)} \<and>
     filter (\<lambda>i. \<not> dn ! i) [0..<n] = filter (\<lambda>i. i \<notin> set xs) [0..<n]"
proof -
  obtain xs dn where k: "topo_loop inc (filter (\<lambda>i. map (\<lambda>i. length (out i)) [0..<n] ! i = 0) [0..<n])
       (map (\<lambda>i. length (out i)) [0..<n]) (replicate n False) [] = Some (xs, dn)"
    "greedy xs" "distinct xs" "length dn = n" "marked dn = set xs" "ready_after xs = {}"
    using topo_loop_greedy [OF refl topo_starts] by blast
  have "i < n" if "i \<in> set xs" for i
    using that k(4,5) by (auto simp: marked_def)
  then have "set xs = {i. i < n \<and> \<not> (\<exists>j. (i, j) \<in> arcs\<^sup>* \<and> (j, j) \<in> arcs\<^sup>+)}"
    using greedy_not_cyclic [OF k(2)] stuck_reaches_cycle [OF k(6)] by blast
  moreover have "filter (\<lambda>i. \<not> dn ! i) [0..<n] = filter (\<lambda>i. i \<notin> set xs) [0..<n]"
    using k(4,5) in_marked_iff [of _ dn] by (intro filter_cong) auto
  ultimately show ?thesis using k by blast
qed

end

subsection \<open>The adjacency of a store\<close>

definition ad_arcs :: "adjacency \<Rightarrow> edge_set \<Rightarrow> (nat \<times> nat) set" where
  "ad_arcs g kinds = {(i, j). j \<in> set (ad_out g kinds i)}"

lemma digraph_of_store: "adjacency_ok g E \<Longrightarrow> digraph (ad_out g kinds) (ad_len g) (ad_incoming g kinds)"
  by unfold_locales (auto simp: ad_out_iff ad_incoming_iff)

interpretation store_graph: digraph
    "ad_out (adjacency_from_parts ue units relations) kinds" "ad_len (adjacency_from_parts ue units relations)"
    "ad_incoming (adjacency_from_parts ue units relations) kinds"
  for ue :: "'u unit_edges" and units relations kinds
  by (rule digraph_of_store [OF adjacency_ok_from_parts])

lemmas store_arcs = store_graph.arcs_def [folded ad_arcs_def]

lemma walk_store:
  fixes ue :: "'u unit_edges" and units :: "(uid \<times> 'u) list" and relations :: "relation list"
  defines "g \<equiv> adjacency_from_parts ue units relations"
  shows "\<exists>xs. graph_closure g roots kinds = Some xs \<and> ascending xs \<and>
      set xs = (ad_arcs g kinds)\<^sup>* `` {r \<in> set roots. r < ad_len g}"
    and "\<exists>xs. reverse_closure g roots kinds = Some xs \<and> ascending xs \<and>
      set xs = ((ad_arcs g kinds)\<inverse>)\<^sup>* `` {r \<in> set roots. r < ad_len g}"
proof -
  obtain seen stack res where f: "fold visit (filter (\<lambda>r. r < ad_len g) roots) (replicate (ad_len g) False, [], []) = (seen, stack, res)"
    by (metis prod_cases3)
  have n: "neighbours g kinds Forward = ad_out g kinds" "neighbours g kinds Reverse = ad_incoming g kinds"
    by (simp_all add: fun_eq_iff neighbours_def)
  show "\<exists>xs. graph_closure g roots kinds = Some xs \<and> ascending xs \<and>
      set xs = (ad_arcs g kinds)\<^sup>* `` {r \<in> set roots. r < ad_len g}"
    using store_graph.walk_reaches [OF f [unfolded g_def], of kinds] unfolding store_arcs
    by (simp add: graph_closure_def walk_def f n flip: g_def)
  show "\<exists>xs. reverse_closure g roots kinds = Some xs \<and> ascending xs \<and>
      set xs = ((ad_arcs g kinds)\<inverse>)\<^sup>* `` {r \<in> set roots. r < ad_len g}"
    using store_graph.inward.walk_reaches [OF f [unfolded g_def], of kinds]
    unfolding store_graph.inward_arcs store_arcs
    by (simp add: reverse_closure_def walk_def f n flip: g_def)
qed

lemma topo_store:
  fixes ue :: "'u unit_edges" and units :: "(uid \<times> 'u) list" and relations :: "relation list"
  defines "g \<equiv> adjacency_from_parts ue units relations"
  shows "\<exists>xs. topo g kinds = Some \<lparr>tp_order = xs, tp_cyclic = filter (\<lambda>i. i \<notin> set xs) [0..<ad_len g]\<rparr> \<and>
    store_graph.greedy TYPE('u) ue units relations kinds xs \<and> distinct xs \<and>
    set xs = {i. i < ad_len g \<and> \<not> (\<exists>j. (i, j) \<in> (ad_arcs g kinds)\<^sup>* \<and> (j, j) \<in> (ad_arcs g kinds)\<^sup>+)}"
proof -
  let ?R = "ad_arcs g kinds"
  obtain xs dn where k: "topo_loop (ad_incoming g kinds)
        (filter (\<lambda>i. map (\<lambda>i. length (ad_out g kinds i)) [0..<ad_len g] ! i = 0) [0..<ad_len g])
        (map (\<lambda>i. length (ad_out g kinds i)) [0..<ad_len g]) (replicate (ad_len g) False) [] = Some (xs, dn)"
      "store_graph.greedy TYPE('u) ue units relations kinds xs" "distinct xs"
      "set xs = {i. i < ad_len g \<and> \<not> (\<exists>j. (i, j) \<in> ?R\<^sup>* \<and> (j, j) \<in> ?R\<^sup>+)}"
      "filter (\<lambda>i. \<not> dn ! i) [0..<ad_len g] = filter (\<lambda>i. i \<notin> set xs) [0..<ad_len g]"
    using store_graph.kahn [of ue units relations kinds] unfolding store_arcs g_def by blast
  have "topo g kinds = Some \<lparr>tp_order = xs, tp_cyclic = filter (\<lambda>i. i \<notin> set xs) [0..<ad_len g]\<rparr>"
    using k(1,5) by (simp add: topo_def Let_def)
  with k(2-4) show ?thesis by blast
qed

text \<open>
  The groups \<open>cycles\<close> reports are the classes of mutual reachability of the nodes \<open>topo\<close> left out.
\<close>

definition ad_class :: "adjacency \<Rightarrow> edge_set \<Rightarrow> nat \<Rightarrow> nat set" where
  "ad_class g kinds i = {j. (i, j) \<in> (ad_arcs g kinds)\<^sup>* \<and> (j, i) \<in> (ad_arcs g kinds)\<^sup>*}"

lemma ad_class_eq: "j \<in> ad_class g kinds i \<Longrightarrow> ad_class g kinds j = ad_class g kinds i"
  unfolding ad_class_def by (auto intro: rtrancl_trans)

lemma ad_class_self [simp]: "i \<in> ad_class g kinds i"
  by (simp add: ad_class_def)

lemma ad_class_range:
  "j \<in> ad_class (adjacency_from_parts ue units relations) kinds i \<Longrightarrow>
   i < ad_len (adjacency_from_parts ue units relations) \<Longrightarrow> j < ad_len (adjacency_from_parts ue units relations)"
  using store_graph.reach_range [of i j ue units relations kinds] unfolding store_arcs ad_class_def by blast

lemma cycle_group_class:
  fixes ue :: "'u unit_edges" and units :: "(uid \<times> 'u) list" and relations :: "relation list"
  defines "g \<equiv> adjacency_from_parts ue units relations"
  assumes "start \<in> set remaining" "start < ad_len g" "ad_class g kinds start \<subseteq> set remaining"
  shows "\<exists>grp. cycle_group g kinds remaining start = Some grp \<and> ascending grp \<and> set grp = ad_class g kinds start"
proof -
  obtain fw where fw: "graph_closure g [start] kinds = Some fw" "ascending fw"
    "set fw = (ad_arcs g kinds)\<^sup>* `` {r \<in> set [start]. r < ad_len g}"
    using walk_store(1) [of ue units relations "[start]" kinds] unfolding g_def by blast
  obtain bw where bw: "reverse_closure g [start] kinds = Some bw"
    "set bw = ((ad_arcs g kinds)\<inverse>)\<^sup>* `` {r \<in> set [start]. r < ad_len g}"
    using walk_store(2) [of ue units relations "[start]" kinds] unfolding g_def by blast
  let ?grp = "sort (filter (\<lambda>n. n \<in> set bw \<and> n \<in> set remaining) fw)"
  have "{r \<in> set [start]. r < ad_len g} = {start}" using assms(3) by auto
  then have "set ?grp = ad_class g kinds start"
    using fw(3) bw(2) assms(4) by (auto simp: ad_class_def rtrancl_converse)
  moreover from this have "?grp \<noteq> []" by (metis ad_class_self empty_iff empty_set)
  moreover have "ascending ?grp" using fw(2) by (simp add: ascending_filter ascending_sorted sorted_sort_id)
  ultimately show ?thesis by (auto simp: cycle_group_def fw(1) bw(1) Let_def)
qed

lemma cycles_loop_classes:
  fixes ue :: "'u unit_edges" and units :: "(uid \<times> 'u) list" and relations :: "relation list"
  defines "g \<equiv> adjacency_from_parts ue units relations"
  shows "\<forall>i \<in> set remaining. i < ad_len g \<and> ad_class g kinds i \<subseteq> set remaining \<Longrightarrow>
    \<exists>gs. cycles_loop g kinds remaining acc = Some gs \<and>
      mset gs = mset acc + image_mset sorted_list_of_set (mset_set (ad_class g kinds ` set remaining))"
proof (induction "length remaining" arbitrary: remaining acc rule: less_induct)
  case less
  show ?case
  proof (cases remaining)
    case Nil
    then show ?thesis by (simp add: cycles_loop.simps)
  next
    case (Cons start rest)
    obtain grp where grp: "cycle_group g kinds remaining start = Some grp" "ascending grp"
      "set grp = ad_class g kinds start"
      using cycle_group_class [of start remaining ue units relations kinds] less(2) Cons
      unfolding g_def by auto
    let ?rest = "filter (\<lambda>n. n \<notin> set grp) remaining"
    have closed: "i < ad_len g \<and> ad_class g kinds i \<subseteq> set ?rest" if i: "i \<in> set ?rest" for i
    proof -
      have "j \<notin> ad_class g kinds start" if "j \<in> ad_class g kinds i" for j
      proof
        assume "j \<in> ad_class g kinds start"
        then have "ad_class g kinds i = ad_class g kinds start"
          using ad_class_eq [OF that] ad_class_eq by blast
        then have "i \<in> set grp" using grp(3) ad_class_self by blast
        with i show False by simp
      qed
      then show ?thesis using less(2) grp(3) i by auto
    qed
    have "length ?rest < length remaining"
      using grp(3) Cons by (auto simp: less_Suc_eq_le)
    moreover have "\<forall>i \<in> set ?rest. i < ad_len g \<and> ad_class g kinds i \<subseteq> set ?rest" using closed by blast
    ultimately obtain gs where gs: "cycles_loop g kinds ?rest (acc @ [grp]) = Some gs"
      "mset gs = mset (acc @ [grp]) + image_mset sorted_list_of_set (mset_set (ad_class g kinds ` set ?rest))"
      using less(1) by blast
    have same: "ad_class g kinds i = ad_class g kinds start" if "i \<in> set grp" for i
      using that ad_class_eq unfolding grp(3) by blast
    have "set remaining = (set remaining \<inter> set grp) \<union> set ?rest" "start \<in> set remaining \<inter> set grp"
      using Cons grp(3) by auto
    moreover from this(2) have "ad_class g kinds ` (set remaining \<inter> set grp) = {ad_class g kinds start}"
      using same by (intro equalityI subsetI) (metis IntD2 imageE singletonI, blast)
    ultimately have "ad_class g kinds ` set remaining = insert (ad_class g kinds start) (ad_class g kinds ` set ?rest)"
      by (metis image_Un insert_is_Un)
    moreover have "ad_class g kinds start \<notin> ad_class g kinds ` set ?rest"
      using grp(3) ad_class_self by auto
    moreover have "sorted_list_of_set (ad_class g kinds start) = grp"
      using grp(2,3) by (metis ascending_distinct ascending_sorted sorted_list_of_set.idem_if_sorted_distinct)
    moreover have "cycles_loop g kinds remaining acc = Some gs"
      using gs(1) grp(1) Cons by (subst cycles_loop.simps) simp
    ultimately show ?thesis using gs(2) by (auto simp: add.commute)
  qed
qed

subsection \<open>Properties\<close>

text \<open>
  C31. Membership of a view is reachability: on a built graph \<open>closure\<close> always returns, and what it
  returns is the ascending list of exactly the nodes reachable along the chosen kinds of edge from
  the roots that are nodes of the graph; \<open>reverse_closure\<close> returns those that reach them.
\<close>

theorem closure_is_reachability:
  fixes ue :: "'u unit_edges" and units :: "(uid \<times> 'u) list" and relations :: "relation list"
  defines "g \<equiv> adjacency_from_parts ue units relations"
  shows "graph_closure g roots kinds =
      Some (sorted_list_of_set ((ad_arcs g kinds)\<^sup>* `` {r \<in> set roots. r < ad_len g})) \<and>
    reverse_closure g roots kinds =
      Some (sorted_list_of_set (((ad_arcs g kinds)\<inverse>)\<^sup>* `` {r \<in> set roots. r < ad_len g}))"
proof -
  have eq: "x = Some (sorted_list_of_set A)" if "\<exists>xs. x = Some xs \<and> ascending xs \<and> set xs = A"
    for x :: "nat list option" and A
    using that by (auto simp: ascending_distinct ascending_sorted sorted_list_of_set.idem_if_sorted_distinct)
  show ?thesis
    unfolding g_def by (intro conjI eq walk_store)
qed

text \<open>
  C30. The topological order is canonical and complete: \<open>topo\<close> always returns on a built graph; each
  node of its order is the least node not yet listed all of whose dependencies are listed before it;
  every node is in the order, once, or in the list of those left out, never in both; and those left out are
  exactly the nodes from which a cycle can be reached, in ascending order.
\<close>

theorem topo_is_greedy:
  fixes ue :: "'u unit_edges" and units :: "(uid \<times> 'u) list" and relations :: "relation list"
  defines "g \<equiv> adjacency_from_parts ue units relations"
  defines "ready \<equiv> (\<lambda>kinds xs. {i. i < ad_len g \<and> i \<notin> set xs \<and> set (ad_out g kinds i) \<subseteq> set xs})"
  shows "\<exists>t. topo g kinds = Some t \<and> distinct (tp_order t) \<and>
    set (tp_order t) = {i. i < ad_len g \<and> i \<notin> set (tp_cyclic t)} \<and>
    (\<forall>p<length (tp_order t). tp_order t ! p = Min (ready kinds (take p (tp_order t))) \<and>
        set (ad_out g kinds (tp_order t ! p)) \<subseteq> set (take p (tp_order t))) \<and>
    tp_cyclic t = filter (\<lambda>i. \<exists>j. (i, j) \<in> (ad_arcs g kinds)\<^sup>* \<and> (j, j) \<in> (ad_arcs g kinds)\<^sup>+) [0..<ad_len g]"
proof -
  let ?R = "ad_arcs g kinds"
  obtain xs where t: "topo g kinds = Some \<lparr>tp_order = xs, tp_cyclic = filter (\<lambda>i. i \<notin> set xs) [0..<ad_len g]\<rparr>"
    and k: "store_graph.greedy TYPE('u) ue units relations kinds xs" "distinct xs"
      "set xs = {i. i < ad_len g \<and> \<not> (\<exists>j. (i, j) \<in> ?R\<^sup>* \<and> (j, j) \<in> ?R\<^sup>+)}"
    using topo_store [of ue units relations kinds] unfolding g_def by blast
  have least: "xs ! p = Min (ready kinds (take p xs)) \<and> set (ad_out g kinds (xs ! p)) \<subseteq> set (take p xs)"
    if p: "p < length xs" for p
  proof -
    have "store_graph.ready_after TYPE('u) ue units relations kinds ys = ready kinds ys" for ys
      by (simp add: store_graph.ready_after_def ready_def g_def)
    then have r: "xs ! p \<in> ready kinds (take p xs)" "\<forall>i \<in> ready kinds (take p xs). xs ! p \<le> i"
      using k(1) p by (simp_all add: store_graph.greedy_def)
    have "finite (ready kinds (take p xs))" by (simp add: ready_def)
    with r have "xs ! p = Min (ready kinds (take p xs))" by (intro Min_eqI [symmetric]) auto
    then show ?thesis using r(1) by (simp add: ready_def)
  qed
  have "filter (\<lambda>i. i \<notin> set xs) [0..<ad_len g] = filter (\<lambda>i. \<exists>j. (i, j) \<in> ?R\<^sup>* \<and> (j, j) \<in> ?R\<^sup>+) [0..<ad_len g]"
    unfolding k(3) by (rule filter_cong) auto
  moreover have "set xs = {i. i < ad_len g \<and> i \<notin> set (filter (\<lambda>i. \<exists>j. (i, j) \<in> ?R\<^sup>* \<and> (j, j) \<in> ?R\<^sup>+) [0..<ad_len g])}"
    unfolding k(3) by auto
  moreover have "topo g kinds = Some \<lparr>tp_order = xs, tp_cyclic =
      filter (\<lambda>i. \<exists>j. (i, j) \<in> ?R\<^sup>* \<and> (j, j) \<in> ?R\<^sup>+) [0..<ad_len g]\<rparr>" using t calculation by simp
  ultimately show ?thesis
    using k(2) least by (intro exI conjI) (assumption, unfold topo_order.simps, blast+)
qed

theorem topo_is_greedy_witness:
  "\<exists>t. topo (adjacency_build [] [relation_new Causes (Uid [0]) (Uid [1])]) es_everything = Some t \<and>
     tp_order t = [1, 0] \<and> tp_order t ! 0 = Min {i. i < ad_len (adjacency_build [] [relation_new Causes (Uid [0]) (Uid [1])]) \<and>
       set (ad_out (adjacency_build [] [relation_new Causes (Uid [0]) (Uid [1])]) es_everything i) = {}}"
proof -
  let ?g = "adjacency_build [] [relation_new Causes (Uid [0]) (Uid [1])]"
  have run: "topo ?g es_everything = Some \<lparr>tp_order = [1, 0], tp_cyclic = []\<rparr>" by code_simp
  obtain t where t: "topo ?g es_everything = Some t"
    and least: "\<forall>p<length (tp_order t). tp_order t ! p =
        Min {i. i < ad_len ?g \<and> i \<notin> set (take p (tp_order t)) \<and> set (ad_out ?g es_everything i) \<subseteq> set (take p (tp_order t))}"
    using topo_is_greedy [of unit_edges_of_unit "[]" "[relation_new Causes (Uid [0]) (Uid [1])]" es_everything, folded adjacency_build_def]
    by blast
  have "tp_order t = [1, 0]" using run t by simp
  then show ?thesis using t least [rule_format, of 0] by simp
qed

text \<open>
  C32. \<open>cycles\<close> always returns on a built graph, and the groups it reports are the classes of mutual
  reachability of the nodes from which a cycle can be reached, each once and each ascending: a node
  that only leads into a cycle is reported as a group of its own.
\<close>

theorem cycles_are_classes:
  fixes ue :: "'u unit_edges" and units :: "(uid \<times> 'u) list" and relations :: "relation list"
  defines "g \<equiv> adjacency_from_parts ue units relations"
  shows "\<exists>gs. cycles g kinds = Some gs \<and> distinct gs \<and>
    set gs = {sorted_list_of_set (ad_class g kinds i) |i. i < ad_len g \<and>
      (\<exists>j. (i, j) \<in> (ad_arcs g kinds)\<^sup>* \<and> (j, j) \<in> (ad_arcs g kinds)\<^sup>+)}"
proof -
  let ?R = "ad_arcs g kinds"
  obtain xs where t: "topo g kinds = Some \<lparr>tp_order = xs, tp_cyclic = filter (\<lambda>i. i \<notin> set xs) [0..<ad_len g]\<rparr>"
    and xs: "set xs = {i. i < ad_len g \<and> \<not> (\<exists>j. (i, j) \<in> ?R\<^sup>* \<and> (j, j) \<in> ?R\<^sup>+)}"
    using topo_store [of ue units relations kinds] unfolding g_def by blast
  let ?C = "filter (\<lambda>i. i \<notin> set xs) [0..<ad_len g]"
  have C: "set ?C = {i. i < ad_len g \<and> (\<exists>j. (i, j) \<in> ?R\<^sup>* \<and> (j, j) \<in> ?R\<^sup>+)}"
    unfolding xs by auto
  have finite_class: "finite (ad_class g kinds i)" if "i < ad_len g" for i
    using ad_class_range [OF _ that [unfolded g_def], folded g_def]
    by (intro finite_subset [of "ad_class g kinds i" "{..<ad_len g}"]) auto
  have "\<forall>i \<in> set ?C. i < ad_len g \<and> ad_class g kinds i \<subseteq> set ?C"
    unfolding C using ad_class_range [where ue = ue and units = units and relations = relations, folded g_def]
    by (auto simp: ad_class_def intro: rtrancl_trans)
  from cycles_loop_classes [OF this [unfolded g_def], of "[]", folded g_def]
  obtain gs where gs: "cycles_loop g kinds ?C [] = Some gs"
    "mset gs = image_mset sorted_list_of_set (mset_set (ad_class g kinds ` set ?C))" by auto
  have inj: "inj_on sorted_list_of_set (ad_class g kinds ` set ?C)"
    using finite_class by (intro inj_onI) (metis (no_types, lifting) C imageE mem_Collect_eq set_sorted_list_of_set)
  then have m: "mset gs = mset_set (sorted_list_of_set ` ad_class g kinds ` set ?C)"
    using gs(2) by (simp add: image_mset_mset_set)
  then have "set gs = sorted_list_of_set ` ad_class g kinds ` set ?C"
    by (metis finite_imageI finite_set finite_set_mset_mset_set set_mset_mset)
  then have "set gs = {sorted_list_of_set (ad_class g kinds i) |i. i < ad_len g \<and>
      (\<exists>j. (i, j) \<in> ?R\<^sup>* \<and> (j, j) \<in> ?R\<^sup>+)}"
    unfolding C by auto
  moreover have "distinct gs"
    using m by (metis distinct_sorted_list_of_set mset_eq_imp_distinct_iff mset_sorted_list_of_multiset
        sorted_list_of_mset_set)
  moreover have "cycles g kinds = Some gs"
    using t gs(1) by (cases ?C) (auto simp: cycles_def topo_is_acyclic_def cycles_loop.simps)
  ultimately show ?thesis by blast
qed

text \<open>
  A node that leads into a cycle is reported as a cycle of one: of three units where the first
  causes the second and the second and third cause each other, \<open>cycles\<close> returns the first alone and
  then the real cycle, though no edge leads back to the first.
\<close>

lemma cycles_reports_a_lead_in:
  defines "u \<equiv> \<lambda>b. Uid (replicate 32 b)"
  defines "g \<equiv> adjacency_build [] [relation_new Causes (u 0) (u 1), relation_new Causes (u 1) (u 2), relation_new Causes (u 2) (u 1)]"
  shows "cycles g (es_of (List.map_filter ek_kernel [Causes])) = Some [[0], [1, 2]] \<and> ad_in_edges g 0 = []"
  unfolding g_def u_def by code_simp

end
