(* ===== verification/Discourse.thy ===== *)
theory Discourse
  imports Records "HOL-Library.Product_Lexorder"
begin

section \<open>Threads, views, packs and schema declarations (smysl-core/src/types)\<close>

text \<open>
  The enumerations and records of \<open>thread.rs\<close> and \<open>view.rs\<close>, the estimator a view names
  (\<open>estimate.rs\<close>), and the pack report, schema declaration and label binding of \<open>annex.rs\<close>. The
  tables \<open>roles\<close> and \<open>allows\<close> say which step roles a thread schema takes.
\<close>

subsection \<open>\<open>ThreadSchema\<close>\<close>

datatype thread_schema =
    TsAnalysis | TsNarrative | TsBrief | TsQa | TsPlan | TsExposition | TsDialogue |
    TsDossier | TsUnknown

definition thread_schema_all :: "thread_schema list" where
  "thread_schema_all =
     [TsAnalysis, TsNarrative, TsBrief, TsQa, TsPlan, TsExposition, TsDialogue, TsDossier]"

fun thread_schema_as_u8 :: "thread_schema \<Rightarrow> u8" where
  "thread_schema_as_u8 TsAnalysis = 0"
| "thread_schema_as_u8 TsNarrative = 1"
| "thread_schema_as_u8 TsBrief = 2"
| "thread_schema_as_u8 TsQa = 3"
| "thread_schema_as_u8 TsPlan = 4"
| "thread_schema_as_u8 TsExposition = 6"
| "thread_schema_as_u8 TsDialogue = 7"
| "thread_schema_as_u8 TsDossier = 8"
| "thread_schema_as_u8 TsUnknown = 255"

definition thread_schema_from_u8 :: "u8 \<Rightarrow> thread_schema option" where
  "thread_schema_from_u8 v =
     (if v = 0 then Some TsAnalysis
      else if v = 1 then Some TsNarrative
      else if v = 2 then Some TsBrief
      else if v = 3 then Some TsQa
      else if v = 4 then Some TsPlan
      else if v = 6 then Some TsExposition
      else if v = 7 then Some TsDialogue
      else if v = 8 then Some TsDossier
      else if v = 255 then Some TsUnknown
      else None)"

fun thread_schema_as_str :: "thread_schema \<Rightarrow> string" where
  "thread_schema_as_str TsAnalysis = ''analysis''"
| "thread_schema_as_str TsNarrative = ''narrative''"
| "thread_schema_as_str TsBrief = ''brief''"
| "thread_schema_as_str TsQa = ''qa''"
| "thread_schema_as_str TsPlan = ''plan''"
| "thread_schema_as_str TsExposition = ''exposition''"
| "thread_schema_as_str TsDialogue = ''dialogue''"
| "thread_schema_as_str TsDossier = ''dossier''"
| "thread_schema_as_str TsUnknown = ''unknown''"

definition thread_schema_parse :: "string \<Rightarrow> thread_schema option" where
  "thread_schema_parse s = find (\<lambda>x. thread_schema_as_str x = s) thread_schema_all"

lemma thread_schema_from_as: "thread_schema_from_u8 (thread_schema_as_u8 x) = Some x"
  by (cases x) (simp_all add: thread_schema_from_u8_def)

interpretation thread_schema_code: wire_code thread_schema_all thread_schema_as_u8 thread_schema_from_u8
  by (unfold_locales, rule thread_schema_from_as) (auto simp: thread_schema_from_u8_def split: if_splits)

interpretation thread_schema_name: spelling thread_schema_all thread_schema_as_str thread_schema_parse
  by unfold_locales (simp_all add: thread_schema_parse_def thread_schema_all_def)

subsection \<open>\<open>Role\<close>\<close>

datatype role =
    RoContext | RoTension | RoApproach | RoFinding | RoRebuttal | RoImplication | RoNext |
    RoSetup | RoComplication | RoTurn | RoResolution | RoCoda | RoBottomLine | RoSupport |
    RoRisk | RoAsk | RoQuestion | RoEvidence | RoAnswer | RoCaveat | RoGoal | RoConstraint |
    RoStep | RoDecision | RoIntroduces | RoDevelops | RoExemplifies | RoConcedes |
    RoConcludes | RoUtterance | RoReply | RoUptake | RoReversal | RoDefinition |
    RoIntroduction | RoCharacteristic | RoCounter | RoReported | RoContrast |
    RoOpenQuestion | RoRelated | RoCause | RoHypothesis | RoHolder | RoStance | RoRevision |
    RoLocation | RoDependent | RoGap | RoUnknown

definition role_all :: "role list" where
  "role_all =
     [RoContext, RoTension, RoApproach, RoFinding, RoRebuttal, RoImplication, RoNext, RoSetup,
      RoComplication, RoTurn, RoResolution, RoCoda, RoBottomLine, RoSupport, RoRisk, RoAsk,
      RoQuestion, RoEvidence, RoAnswer, RoCaveat, RoGoal, RoConstraint, RoStep, RoDecision,
      RoIntroduces, RoDevelops, RoExemplifies, RoConcedes, RoConcludes, RoUtterance, RoReply,
      RoUptake, RoReversal, RoDefinition, RoIntroduction, RoCharacteristic, RoCounter,
      RoReported, RoContrast, RoOpenQuestion, RoRelated, RoCause, RoHypothesis, RoHolder,
      RoStance, RoRevision, RoLocation, RoDependent, RoGap]"

fun role_as_u8 :: "role \<Rightarrow> u8" where
  "role_as_u8 RoContext = 0"
| "role_as_u8 RoTension = 1"
| "role_as_u8 RoApproach = 2"
| "role_as_u8 RoFinding = 3"
| "role_as_u8 RoRebuttal = 4"
| "role_as_u8 RoImplication = 5"
| "role_as_u8 RoNext = 6"
| "role_as_u8 RoSetup = 7"
| "role_as_u8 RoComplication = 8"
| "role_as_u8 RoTurn = 9"
| "role_as_u8 RoResolution = 10"
| "role_as_u8 RoCoda = 11"
| "role_as_u8 RoBottomLine = 12"
| "role_as_u8 RoSupport = 13"
| "role_as_u8 RoRisk = 14"
| "role_as_u8 RoAsk = 15"
| "role_as_u8 RoQuestion = 16"
| "role_as_u8 RoEvidence = 17"
| "role_as_u8 RoAnswer = 18"
| "role_as_u8 RoCaveat = 19"
| "role_as_u8 RoGoal = 20"
| "role_as_u8 RoConstraint = 21"
| "role_as_u8 RoStep = 22"
| "role_as_u8 RoDecision = 23"
| "role_as_u8 RoIntroduces = 24"
| "role_as_u8 RoDevelops = 25"
| "role_as_u8 RoExemplifies = 26"
| "role_as_u8 RoConcedes = 27"
| "role_as_u8 RoConcludes = 28"
| "role_as_u8 RoUtterance = 29"
| "role_as_u8 RoReply = 30"
| "role_as_u8 RoUptake = 31"
| "role_as_u8 RoReversal = 32"
| "role_as_u8 RoDefinition = 33"
| "role_as_u8 RoIntroduction = 34"
| "role_as_u8 RoCharacteristic = 35"
| "role_as_u8 RoCounter = 36"
| "role_as_u8 RoReported = 37"
| "role_as_u8 RoContrast = 38"
| "role_as_u8 RoOpenQuestion = 39"
| "role_as_u8 RoRelated = 40"
| "role_as_u8 RoCause = 41"
| "role_as_u8 RoHypothesis = 42"
| "role_as_u8 RoHolder = 43"
| "role_as_u8 RoStance = 44"
| "role_as_u8 RoRevision = 45"
| "role_as_u8 RoLocation = 46"
| "role_as_u8 RoDependent = 47"
| "role_as_u8 RoGap = 48"
| "role_as_u8 RoUnknown = 255"

definition role_from_u8 :: "u8 \<Rightarrow> role option" where
  "role_from_u8 v =
     (if v = 255 then Some RoUnknown
      else if unat v < length role_all then Some (role_all ! unat v) else None)"

fun role_as_str :: "role \<Rightarrow> string" where
  "role_as_str RoContext = ''context''"
| "role_as_str RoTension = ''tension''"
| "role_as_str RoApproach = ''approach''"
| "role_as_str RoFinding = ''finding''"
| "role_as_str RoRebuttal = ''rebuttal''"
| "role_as_str RoImplication = ''implication''"
| "role_as_str RoNext = ''next''"
| "role_as_str RoSetup = ''setup''"
| "role_as_str RoComplication = ''complication''"
| "role_as_str RoTurn = ''turn''"
| "role_as_str RoResolution = ''resolution''"
| "role_as_str RoCoda = ''coda''"
| "role_as_str RoBottomLine = ''bottom-line''"
| "role_as_str RoSupport = ''support''"
| "role_as_str RoRisk = ''risk''"
| "role_as_str RoAsk = ''ask''"
| "role_as_str RoQuestion = ''question''"
| "role_as_str RoEvidence = ''evidence''"
| "role_as_str RoAnswer = ''answer''"
| "role_as_str RoCaveat = ''caveat''"
| "role_as_str RoGoal = ''goal''"
| "role_as_str RoConstraint = ''constraint''"
| "role_as_str RoStep = ''step''"
| "role_as_str RoDecision = ''decision''"
| "role_as_str RoIntroduces = ''introduces''"
| "role_as_str RoDevelops = ''develops''"
| "role_as_str RoExemplifies = ''exemplifies''"
| "role_as_str RoConcedes = ''concedes''"
| "role_as_str RoConcludes = ''concludes''"
| "role_as_str RoUtterance = ''utterance''"
| "role_as_str RoReply = ''reply''"
| "role_as_str RoUptake = ''uptake''"
| "role_as_str RoReversal = ''reversal''"
| "role_as_str RoDefinition = ''definition''"
| "role_as_str RoIntroduction = ''introduction''"
| "role_as_str RoCharacteristic = ''characteristic''"
| "role_as_str RoCounter = ''counter''"
| "role_as_str RoReported = ''reported''"
| "role_as_str RoContrast = ''contrast''"
| "role_as_str RoOpenQuestion = ''open-question''"
| "role_as_str RoRelated = ''related''"
| "role_as_str RoCause = ''cause''"
| "role_as_str RoHypothesis = ''hypothesis''"
| "role_as_str RoHolder = ''holder''"
| "role_as_str RoStance = ''stance''"
| "role_as_str RoRevision = ''revision''"
| "role_as_str RoLocation = ''location''"
| "role_as_str RoDependent = ''dependent''"
| "role_as_str RoGap = ''gap''"
| "role_as_str RoUnknown = ''unknown''"

definition role_parse :: "string \<Rightarrow> role option" where
  "role_parse s = find (\<lambda>x. role_as_str x = s) role_all"

lemma role_codes: "map role_as_u8 role_all = map word_of_nat [0..<49]"
  by (simp add: role_all_def upt_rec)

lemma role_all_length: "length role_all = 49"
  by (simp add: role_all_def)

lemma role_all_or_unknown: "x = RoUnknown \<or> x \<in> set role_all"
  by (cases x) (simp_all add: role_all_def)

lemma role_nth_code: "n < 49 \<Longrightarrow> role_as_u8 (role_all ! n) = word_of_nat n"
  using role_codes by (metis add_0 length_map map_nth nth_map nth_upt role_all_length)

lemma role_from_as: "role_from_u8 (role_as_u8 x) = Some x"
proof (cases "x = RoUnknown")
  case False
  then obtain n where n: "n < 49" "x = role_all ! n"
    using role_all_or_unknown [of x] by (auto simp: in_set_conv_nth role_all_length)
  then have "role_as_u8 x = word_of_nat n" by (simp add: role_nth_code)
  moreover have "unat (word_of_nat n :: u8) = n" using n(1) by (simp add: unat_of_nat)
  moreover from this have "word_of_nat n \<noteq> (255 :: u8)" using n(1) by auto
  ultimately show ?thesis using n by (simp add: role_from_u8_def role_all_length)
qed (simp add: role_from_u8_def)

interpretation role_code: wire_code role_all role_as_u8 role_from_u8
  by (unfold_locales, rule role_from_as)
     (auto simp: role_from_u8_def role_all_length role_nth_code split: if_splits)

interpretation role_name: spelling role_all role_as_str role_parse
  by unfold_locales (simp_all add: role_parse_def role_all_def)

subsection \<open>\<open>Admission\<close>\<close>

datatype admission =
    AdmSingleAssertion | AdmTopical | AdmUnknown

definition admission_all :: "admission list" where
  "admission_all =
     [AdmSingleAssertion, AdmTopical]"

fun admission_as_u8 :: "admission \<Rightarrow> u8" where
  "admission_as_u8 AdmSingleAssertion = 0"
| "admission_as_u8 AdmTopical = 1"
| "admission_as_u8 AdmUnknown = 255"

definition admission_from_u8 :: "u8 \<Rightarrow> admission option" where
  "admission_from_u8 v =
     (if v = 0 then Some AdmSingleAssertion
      else if v = 1 then Some AdmTopical
      else if v = 255 then Some AdmUnknown
      else None)"

fun admission_as_str :: "admission \<Rightarrow> string" where
  "admission_as_str AdmSingleAssertion = ''single-assertion''"
| "admission_as_str AdmTopical = ''topical''"
| "admission_as_str AdmUnknown = ''unknown''"

definition admission_parse :: "string \<Rightarrow> admission option" where
  "admission_parse s = find (\<lambda>x. admission_as_str x = s) admission_all"

lemma admission_from_as: "admission_from_u8 (admission_as_u8 x) = Some x"
  by (cases x) (simp_all add: admission_from_u8_def)

interpretation admission_code: wire_code admission_all admission_as_u8 admission_from_u8
  by (unfold_locales, rule admission_from_as) (auto simp: admission_from_u8_def split: if_splits)

interpretation admission_name: spelling admission_all admission_as_str admission_parse
  by unfold_locales (simp_all add: admission_parse_def admission_all_def)

fun thread_schema_roles :: "thread_schema \<Rightarrow> role list" where
  "thread_schema_roles TsAnalysis =
     [RoContext, RoTension, RoApproach, RoFinding, RoRebuttal, RoImplication, RoNext]"
| "thread_schema_roles TsNarrative = [RoSetup, RoComplication, RoTurn, RoResolution, RoCoda]"
| "thread_schema_roles TsBrief = [RoBottomLine, RoSupport, RoRisk, RoAsk]"
| "thread_schema_roles TsQa = [RoQuestion, RoEvidence, RoAnswer, RoCaveat]"
| "thread_schema_roles TsPlan = [RoGoal, RoConstraint, RoStep, RoDecision, RoRisk]"
| "thread_schema_roles TsExposition = [RoIntroduces, RoDevelops, RoExemplifies, RoConcedes, RoConcludes]"
| "thread_schema_roles TsDialogue = [RoUtterance, RoReply, RoUptake, RoReversal]"
| "thread_schema_roles TsDossier =
     [RoQuestion, RoDefinition, RoIntroduction, RoCharacteristic, RoExemplifies, RoEvidence, RoSupport,
      RoCounter, RoReported, RoContrast, RoOpenQuestion, RoRelated, RoCause, RoHypothesis, RoHolder,
      RoStance, RoRevision, RoLocation, RoDependent, RoGap]"
| "thread_schema_roles TsUnknown = []"

definition thread_schema_allows :: "thread_schema \<Rightarrow> role \<Rightarrow> bool" where
  "thread_schema_allows t r \<longleftrightarrow> r \<in> set (thread_schema_roles t)"

subsection \<open>Threads\<close>

record step =
  st_role :: role
  st_unit :: uid
  st_note :: "string option"
  st_role_code :: "u8 option"

definition step_new :: "role \<Rightarrow> uid \<Rightarrow> step" where
  "step_new r u = \<lparr>st_role = r, st_unit = u, st_note = None, st_role_code = None\<rparr>"

definition step_role_code :: "step \<Rightarrow> u8" where
  "step_role_code s = (case st_role_code s of Some c \<Rightarrow> c | None \<Rightarrow> role_as_u8 (st_role s))"

definition step_with_unknown_role :: "u8 \<Rightarrow> step \<Rightarrow> step option" where
  "step_with_unknown_role code s =
     (if code = 255 \<or> role_from_u8 code \<noteq> None then None
      else Some (s\<lparr>st_role := RoUnknown, st_role_code := Some code\<rparr>))"

record thread =
  th_id :: string
  th_schema :: thread_schema
  th_owner :: string
  th_gist :: string
  th_steps :: "step list"
  th_ts :: hlc
  th_extra :: extra_fields
  th_schema_code :: "u8 option"

definition thread_new :: "string \<Rightarrow> thread_schema \<Rightarrow> string \<Rightarrow> string \<Rightarrow> hlc \<Rightarrow> thread" where
  "thread_new i schema owner gist ts =
     \<lparr>th_id = i, th_schema = schema, th_owner = owner, th_gist = gist, th_steps = [], th_ts = ts,
      th_extra = [], th_schema_code = None\<rparr>"

definition thread_register_key :: "thread \<Rightarrow> string \<times> string" where
  "thread_register_key t = (th_id t, th_owner t)"

definition thread_superseded_by :: "thread \<Rightarrow> thread \<Rightarrow> bool" where
  "thread_superseded_by t other \<longleftrightarrow>
     thread_register_key t = thread_register_key other \<and> hlc_less (th_ts t) (th_ts other)"

text \<open>Sorted in the order of the declaration, each once: \<open>sort\<close> and \<open>dedup\<close> on the derived order.\<close>

definition thread_foreign_roles :: "thread \<Rightarrow> role list" where
  "thread_foreign_roles t =
     filter (\<lambda>r. r \<in> st_role ` set (th_steps t) \<and> \<not> thread_schema_allows (th_schema t) r) (role_all @ [RoUnknown])"

definition thread_code :: "thread \<Rightarrow> u8" where
  "thread_code t = (case th_schema_code t of Some c \<Rightarrow> c | None \<Rightarrow> thread_schema_as_u8 (th_schema t))"

definition thread_with_unknown_schema :: "u8 \<Rightarrow> thread \<Rightarrow> thread option" where
  "thread_with_unknown_schema code t =
     (if code = 255 \<or> thread_schema_from_u8 code \<noteq> None then None
      else Some (t\<lparr>th_schema := TsUnknown, th_schema_code := Some code\<rparr>))"

subsection \<open>Estimators and granularity\<close>

datatype token_estimator = Utf8Div4 | Content1

fun token_estimator_id :: "token_estimator \<Rightarrow> string" where
  "token_estimator_id Utf8Div4 = ''smysl/utf8-div4''"
| "token_estimator_id Content1 = ''smysl/content/1''"

definition token_estimator_parse :: "string \<Rightarrow> token_estimator option" where
  "token_estimator_parse s = find (\<lambda>e. token_estimator_id e = s) [Utf8Div4, Content1]"

interpretation token_estimator_name: spelling "[Utf8Div4, Content1]" token_estimator_id token_estimator_parse
  by unfold_locales (simp_all add: token_estimator_parse_def)

datatype profile_estimator = PeUnset | PeKnown token_estimator | PeUnknown string

definition profile_estimator_of :: "profile_estimator \<Rightarrow> token_estimator option" where
  "profile_estimator_of p = (case p of PeUnset \<Rightarrow> Some Utf8Div4 | PeKnown e \<Rightarrow> Some e | PeUnknown _ \<Rightarrow> None)"

definition wire_id :: "profile_estimator \<Rightarrow> string option" where
  "wire_id p =
     (case p of PeUnset \<Rightarrow> None
      | PeKnown e \<Rightarrow> (if e = Utf8Div4 then None else Some (token_estimator_id e))
      | PeUnknown s \<Rightarrow> Some s)"

definition from_wire :: "string \<Rightarrow> profile_estimator" where
  "from_wire s = (case token_estimator_parse s of Some e \<Rightarrow> PeKnown e | None \<Rightarrow> PeUnknown s)"

record granularity =
  gr_profile :: string
  gr_l0_max :: u32
  gr_l1_min :: u32
  gr_l1_max :: u32
  gr_admission :: admission
  gr_admission_code :: "u8 option"
  gr_estimator :: profile_estimator
  gr_extra :: extra_fields

definition granularity_standard :: granularity where
  "granularity_standard =
     \<lparr>gr_profile = ''default'', gr_l0_max = 30, gr_l1_min = 40, gr_l1_max = 120,
      gr_admission = AdmSingleAssertion, gr_admission_code = None, gr_estimator = PeUnset, gr_extra = []\<rparr>"

definition granularity_coarse :: granularity where
  "granularity_coarse =
     \<lparr>gr_profile = ''coarse'', gr_l0_max = 30, gr_l1_min = 120, gr_l1_max = 400,
      gr_admission = AdmTopical, gr_admission_code = None, gr_estimator = PeUnset, gr_extra = []\<rparr>"

definition granularity_fine :: granularity where
  "granularity_fine =
     \<lparr>gr_profile = ''fine'', gr_l0_max = 30, gr_l1_min = 20, gr_l1_max = 60,
      gr_admission = AdmSingleAssertion, gr_admission_code = None, gr_estimator = PeUnset, gr_extra = []\<rparr>"

definition granularity_preset :: "string \<Rightarrow> granularity option" where
  "granularity_preset name =
     (if name = ''coarse'' then Some granularity_coarse
      else if name = ''default'' then Some granularity_standard
      else if name = ''fine'' then Some granularity_fine
      else None)"

definition granularity_admission_code :: "granularity \<Rightarrow> u8" where
  "granularity_admission_code g =
     (case gr_admission_code g of Some c \<Rightarrow> c | None \<Rightarrow> admission_as_u8 (gr_admission g))"

definition granularity_with_unknown_admission :: "u8 \<Rightarrow> granularity \<Rightarrow> granularity option" where
  "granularity_with_unknown_admission code g =
     (if code = 255 \<or> admission_from_u8 code \<noteq> None then None
      else Some (g\<lparr>gr_admission := AdmUnknown, gr_admission_code := Some code\<rparr>))"

definition granularity_body_in_range :: "granularity \<Rightarrow> u32 \<Rightarrow> bool" where
  "granularity_body_in_range g t \<longleftrightarrow> gr_l1_min g \<le> t \<and> t \<le> gr_l1_max g"

definition granularity_gist_within_bound :: "granularity \<Rightarrow> u32 \<Rightarrow> bool" where
  "granularity_gist_within_bound g t \<longleftrightarrow> t \<le> gr_l0_max g"

subsection \<open>Views\<close>

text \<open>
  The derived order of schema ids: by variant, then by kernel type or by text. The sets of a view
  are ascending lists, as their \<open>BTreeSet\<close>s iterate.
\<close>

fun kernel_type_rank :: "kernel_type \<Rightarrow> nat" where
  "kernel_type_rank KtClaim = 0"
| "kernel_type_rank KtEvidence = 1"
| "kernel_type_rank KtDefinition = 2"
| "kernel_type_rank KtQuestion = 3"
| "kernel_type_rank KtHypothesis = 4"
| "kernel_type_rank KtFinding = 5"
| "kernel_type_rank KtProcedure = 6"
| "kernel_type_rank KtDecision = 7"
| "kernel_type_rank KtConstraint = 8"
| "kernel_type_rank KtObservation = 9"
| "kernel_type_rank KtData = 10"
| "kernel_type_rank KtArtifactRef = 11"
| "kernel_type_rank KtProse = 12"
| "kernel_type_rank KtContention = 13"
| "kernel_type_rank KtPackInfo = 14"

fun schema_rank :: "schema_id \<Rightarrow> nat \<times> nat \<times> string" where
  "schema_rank (SchKernel k) = (0, kernel_type_rank k, [])"
| "schema_rank (SchKernelSchema s) = (1, 0, s)"
| "schema_rank (SchExtension s) = (2, 0, s)"
| "schema_rank (SchUnknownKernel s) = (3, 0, s)"

lemma kernel_type_rank_inj: "kernel_type_rank a = kernel_type_rank b \<Longrightarrow> a = b"
  by (cases a; cases b) simp_all

lemma schema_rank_inj: "schema_rank a = schema_rank b \<Longrightarrow> a = b"
  by (cases a; cases b) (simp_all add: kernel_type_rank_inj)

instantiation schema_id :: linorder
begin

definition less_eq_schema_id :: "schema_id \<Rightarrow> schema_id \<Rightarrow> bool" where
  "less_eq_schema_id a b \<longleftrightarrow> schema_rank a \<le> schema_rank b"

definition less_schema_id :: "schema_id \<Rightarrow> schema_id \<Rightarrow> bool" where
  "less_schema_id a b \<longleftrightarrow> schema_rank a < schema_rank b"

instance
  by standard (auto simp: less_eq_schema_id_def less_schema_id_def dest: schema_rank_inj)

end

record view =
  vw_id :: string
  vw_roots :: "uid list"
  vw_threads :: "string list"
  vw_requires :: "schema_id list"
  vw_granularity :: granularity
  vw_intent :: string
  vw_lang :: string
  vw_extra :: extra_fields

datatype fidelity = FiFull | FiDegraded | FiRefuse

definition view_negotiate :: "view \<Rightarrow> schema_id set \<Rightarrow> bool \<Rightarrow> fidelity" where
  "view_negotiate v implemented kernel_major_ok =
     (if \<not> kernel_major_ok then FiRefuse
      else if set (vw_requires v) \<subseteq> implemented then FiFull
      else FiDegraded)"

subsection \<open>Pack reports, schema declarations, label bindings\<close>

record optimality =
  op_mode :: pack_mode
  op_gap :: f32

record pack_info =
  pi_budget :: u64
  pi_used :: u64
  pi_thread :: "string option"
  pi_dropped :: "(uid \<times> drop_reason) list"
  pi_degraded :: "(uid \<times> lod) list"
  pi_optimality :: optimality
  pi_estimator :: string
  pi_reserved :: u64
  pi_extra :: extra_fields

definition pack_info_new :: "u64 \<Rightarrow> u64 \<Rightarrow> string \<Rightarrow> pack_info" where
  "pack_info_new budget used estimator =
     \<lparr>pi_budget = budget, pi_used = used, pi_thread = None, pi_dropped = [], pi_degraded = [],
      pi_optimality = \<lparr>op_mode = PmGreedy, op_gap = 0\<rparr>, pi_estimator = estimator, pi_reserved = 0,
      pi_extra = []\<rparr>"

definition drop_histogram :: "pack_info \<Rightarrow> (drop_reason \<times> nat) list" where
  "drop_histogram p =
     filter (\<lambda>(_, n). n > 0)
       (map (\<lambda>r. (r, length (filter (\<lambda>(_, dr). dr = r) (pi_dropped p)))) drop_reason_all)"

definition effective_budget :: "pack_info \<Rightarrow> u64" where
  "effective_budget p = (if pi_reserved p \<le> pi_budget p then pi_budget p - pi_reserved p else 0)"

definition pack_is_complete :: "pack_info \<Rightarrow> bool" where
  "pack_is_complete p \<longleftrightarrow> pi_dropped p = [] \<and> pi_degraded p = []"

record schema_decl =
  sd_id :: schema_id
  sd_version :: u32
  sd_types :: "schema_id list"
  sd_relations :: "rel_kind list"
  sd_payload_shape :: "bytes option"
  sd_lenses :: "bytes option"
  sd_extra :: extra_fields

record label_binding =
  lb_label :: string
  lb_uid :: uid
  lb_extra :: extra_fields

end
