(* ===== verification/Manifests.thy ===== *)
theory Manifests
  imports Records
begin

section \<open>Manifests, parts, readings and datings (smysl-core/src/types/library.rs)\<close>

text \<open>
  The record types of a text library: the manifest with its part entries, part texts, readings,
  datings on three axes, redactions, and their enumerations. A content identity (\<open>Tid\<close>, \<open>Mid\<close>,
  \<open>Rdid\<close>) is its 32 bytes.
\<close>

subsection \<open>\<open>Carry\<close>\<close>

datatype carry =
    CyNone | CyRef | CyText

definition carry_all :: "carry list" where
  "carry_all =
     [CyNone, CyRef, CyText]"

fun carry_as_u8 :: "carry \<Rightarrow> u8" where
  "carry_as_u8 CyNone = 0"
| "carry_as_u8 CyRef = 1"
| "carry_as_u8 CyText = 2"

definition carry_from_u8 :: "u8 \<Rightarrow> carry option" where
  "carry_from_u8 v =
     (if v = 0 then Some CyNone
      else if v = 1 then Some CyRef
      else if v = 2 then Some CyText
      else None)"

fun carry_as_str :: "carry \<Rightarrow> string" where
  "carry_as_str CyNone = ''none''"
| "carry_as_str CyRef = ''ref''"
| "carry_as_str CyText = ''text''"

definition carry_parse :: "string \<Rightarrow> carry option" where
  "carry_parse s = find (\<lambda>x. carry_as_str x = s) carry_all"

lemma carry_from_as: "carry_from_u8 (carry_as_u8 x) = Some x"
  by (cases x) (simp_all add: carry_from_u8_def)

interpretation carry_code: wire_code carry_all carry_as_u8 carry_from_u8
  by (unfold_locales, rule carry_from_as) (auto simp: carry_from_u8_def split: if_splits)

interpretation carry_name: spelling carry_all carry_as_str carry_parse
  by unfold_locales (simp_all add: carry_parse_def carry_all_def)

subsection \<open>\<open>ParentKind\<close>\<close>

datatype parent_kind =
    PkTranslation | PkEdition | PkExcerpt | PkTranscription

definition parent_kind_all :: "parent_kind list" where
  "parent_kind_all =
     [PkTranslation, PkEdition, PkExcerpt, PkTranscription]"

fun parent_kind_as_str :: "parent_kind \<Rightarrow> string" where
  "parent_kind_as_str PkTranslation = ''translation''"
| "parent_kind_as_str PkEdition = ''edition''"
| "parent_kind_as_str PkExcerpt = ''excerpt''"
| "parent_kind_as_str PkTranscription = ''transcription''"

definition parent_kind_parse :: "string \<Rightarrow> parent_kind option" where
  "parent_kind_parse s = find (\<lambda>x. parent_kind_as_str x = s) parent_kind_all"

interpretation parent_kind_name: spelling parent_kind_all parent_kind_as_str parent_kind_parse
  by unfold_locales (simp_all add: parent_kind_parse_def parent_kind_all_def)

subsection \<open>\<open>Axis\<close>\<close>

datatype axis =
    AxSaid | AxComposed | AxAbout

definition axis_all :: "axis list" where
  "axis_all =
     [AxSaid, AxComposed, AxAbout]"

fun axis_as_u8 :: "axis \<Rightarrow> u8" where
  "axis_as_u8 AxSaid = 0"
| "axis_as_u8 AxComposed = 1"
| "axis_as_u8 AxAbout = 2"

definition axis_from_u8 :: "u8 \<Rightarrow> axis option" where
  "axis_from_u8 v =
     (if v = 0 then Some AxSaid
      else if v = 1 then Some AxComposed
      else if v = 2 then Some AxAbout
      else None)"

fun axis_as_str :: "axis \<Rightarrow> string" where
  "axis_as_str AxSaid = ''said''"
| "axis_as_str AxComposed = ''composed''"
| "axis_as_str AxAbout = ''about''"

definition axis_parse :: "string \<Rightarrow> axis option" where
  "axis_parse s = find (\<lambda>x. axis_as_str x = s) axis_all"

lemma axis_from_as: "axis_from_u8 (axis_as_u8 x) = Some x"
  by (cases x) (simp_all add: axis_from_u8_def)

interpretation axis_code: wire_code axis_all axis_as_u8 axis_from_u8
  by (unfold_locales, rule axis_from_as) (auto simp: axis_from_u8_def split: if_splits)

interpretation axis_name: spelling axis_all axis_as_str axis_parse
  by unfold_locales (simp_all add: axis_parse_def axis_all_def)

subsection \<open>\<open>Allen\<close>\<close>

datatype allen =
    AlBefore | AlAfter | AlMeets | AlOverlaps | AlDuring | AlContains | AlEquals

definition allen_all :: "allen list" where
  "allen_all =
     [AlBefore, AlAfter, AlMeets, AlOverlaps, AlDuring, AlContains, AlEquals]"

fun allen_as_str :: "allen \<Rightarrow> string" where
  "allen_as_str AlBefore = ''before''"
| "allen_as_str AlAfter = ''after''"
| "allen_as_str AlMeets = ''meets''"
| "allen_as_str AlOverlaps = ''overlaps''"
| "allen_as_str AlDuring = ''during''"
| "allen_as_str AlContains = ''contains''"
| "allen_as_str AlEquals = ''equals''"

definition allen_parse :: "string \<Rightarrow> allen option" where
  "allen_parse s = find (\<lambda>x. allen_as_str x = s) allen_all"

interpretation allen_name: spelling allen_all allen_as_str allen_parse
  by unfold_locales (simp_all add: allen_parse_def allen_all_def)

fun allen_inverse :: "allen \<Rightarrow> allen" where
  "allen_inverse AlBefore = AlAfter"
| "allen_inverse AlAfter = AlBefore"
| "allen_inverse AlMeets = AlMeets"
| "allen_inverse AlOverlaps = AlOverlaps"
| "allen_inverse AlDuring = AlContains"
| "allen_inverse AlContains = AlDuring"
| "allen_inverse AlEquals = AlEquals"

datatype calendar = CalJulian

definition calendar_as_str :: "calendar \<Rightarrow> string" where
  "calendar_as_str c = ''julian''"

definition calendar_parse :: "string \<Rightarrow> calendar option" where
  "calendar_parse s = (if s = ''julian'' then Some CalJulian else None)"

subsection \<open>Manifests\<close>

record part_entry =
  pe_tid :: digest
  pe_length :: u64
  pe_structure :: digest
  pe_rdid :: digest
  pe_lang :: "string option"
  pe_extra :: extra_fields

definition part_entry_new :: "digest \<Rightarrow> u64 \<Rightarrow> digest \<Rightarrow> digest \<Rightarrow> part_entry" where
  "part_entry_new tid n structure rdid =
     \<lparr>pe_tid = tid, pe_length = n, pe_structure = structure, pe_rdid = rdid, pe_lang = None, pe_extra = []\<rparr>"

record manifest =
  mf_alias :: string
  mf_parts :: "part_entry list"
  mf_lang :: string
  mf_reader :: string
  mf_licence :: string
  mf_carry :: carry
  mf_title :: "string option"
  mf_creators :: "string list"
  mf_published :: "string option"
  mf_identifiers :: "(string, string) bmap"
  mf_origin :: "source_ref option"
  mf_parent :: "(digest \<times> parent_kind) option"
  mf_supersedes :: "digest option"
  mf_versification :: "string option"
  mf_lossy :: bool
  mf_raw :: "bytes option"
  mf_part_policy :: string
  mf_calendar :: "calendar option"
  mf_extra :: extra_fields

definition manifest_new :: "string \<Rightarrow> string \<Rightarrow> string \<Rightarrow> string \<Rightarrow> string \<Rightarrow> manifest" where
  "manifest_new alias lang reader licence part_policy =
     \<lparr>mf_alias = alias, mf_parts = [], mf_lang = lang, mf_reader = reader, mf_licence = licence,
      mf_carry = CyNone, mf_title = None, mf_creators = [], mf_published = None, mf_identifiers = [],
      mf_origin = None, mf_parent = None, mf_supersedes = None, mf_versification = None,
      mf_lossy = False, mf_raw = None, mf_part_policy = part_policy, mf_calendar = None, mf_extra = []\<rparr>"

definition manifest_alias_is_valid :: "manifest \<Rightarrow> bool" where
  "manifest_alias_is_valid m \<longleftrightarrow> is_alias (mf_alias m)"

text \<open>The sum wraps, as it does in a release build; a debug build panics there.\<close>

definition manifest_length :: "manifest \<Rightarrow> u64" where
  "manifest_length m = sum_list (map pe_length (mf_parts m))"

subsection \<open>Parts, readings, datings, redactions\<close>

record part_text =
  pt_tid :: digest
  pt_text :: bytes
  pt_extra :: extra_fields

definition part_text_with_claimed_tid :: "digest \<Rightarrow> bytes \<Rightarrow> part_text" where
  "part_text_with_claimed_tid tid b = \<lparr>pt_tid = tid, pt_text = b, pt_extra = []\<rparr>"

text \<open>\<open>Tid::of\<close> hashes its domain byte and the text.\<close>

definition tid_of :: "hasher \<Rightarrow> bytes \<Rightarrow> digest" where
  "tid_of hash b = hash (0x0F # b)"

definition part_text_new :: "hasher \<Rightarrow> bytes \<Rightarrow> part_text" where
  "part_text_new hash b = \<lparr>pt_tid = tid_of hash b, pt_text = b, pt_extra = []\<rparr>"

definition part_text_verify :: "hasher \<Rightarrow> part_text \<Rightarrow> bool" where
  "part_text_verify hash p \<longleftrightarrow> tid_of hash (pt_text p) = pt_tid p"

record part_reading =
  pr_tid :: digest
  pr_reader :: string
  pr_segments :: bytes
  pr_raw :: "bytes option"
  pr_extra :: extra_fields

definition empty_segments :: bytes where
  "empty_segments = [0x80]"

definition part_reading_new :: "digest \<Rightarrow> string \<Rightarrow> bytes \<Rightarrow> part_reading" where
  "part_reading_new tid reader segments =
     \<lparr>pr_tid = tid, pr_reader = reader, pr_segments = (if segments = [] then empty_segments else segments),
      pr_raw = None, pr_extra = []\<rparr>"

definition part_reading_with_raw :: "bytes \<Rightarrow> part_reading \<Rightarrow> part_reading" where
  "part_reading_with_raw raw r = r\<lparr>pr_raw := Some (if raw = [] then [0xA0] else raw)\<rparr>"

datatype dating_target =
    DtUnit uid | DtPart digest | DtManifest digest | DtWindow digest u64 u64

fun dating_target_kind :: "dating_target \<Rightarrow> u8" where
  "dating_target_kind (DtUnit u) = 0"
| "dating_target_kind (DtPart t) = 1"
| "dating_target_kind (DtManifest m) = 2"
| "dating_target_kind (DtWindow t from to) = 3"

fun dating_target_selects :: "dating_target \<Rightarrow> bool" where
  "dating_target_selects (DtWindow t from to) \<longleftrightarrow> from < to"
| "dating_target_selects _ \<longleftrightarrow> True"

datatype dating_value = DvAbsolute string | DvOffset "64 word" | DvRelative allen dating_target

record dating =
  dg_target :: dating_target
  dg_axis :: axis
  dg_value :: dating_value
  dg_basis :: "uid option"
  dg_agent :: string
  dg_ts :: hlc
  dg_extra :: extra_fields

definition dating_new :: "dating_target \<Rightarrow> axis \<Rightarrow> dating_value \<Rightarrow> string \<Rightarrow> hlc \<Rightarrow> dating" where
  "dating_new target ax v agent ts =
     \<lparr>dg_target = target, dg_axis = ax, dg_value = v, dg_basis = None, dg_agent = agent, dg_ts = ts,
      dg_extra = []\<rparr>"

definition dating_offset :: "dating_target \<Rightarrow> 64 word \<Rightarrow> string \<Rightarrow> hlc \<Rightarrow> dating" where
  "dating_offset target ms agent ts = dating_new target AxSaid (DvOffset ms) agent ts"

record redaction =
  rd_tid :: digest
  rd_agent :: string
  rd_ts :: hlc
  rd_reason :: "uid option"
  rd_extra :: extra_fields

end
