(* ===== verification/Record_Parts.thy ===== *)
theory Record_Parts
  imports Cbor_Maps Records
begin

section \<open>The values inside records (smysl-core/src/cbor/envelope.rs)\<close>

text \<open>
  The small codecs the record codecs share: narrowed integers, enumeration codes, validated text,
  32-byte digests, clocks, relation kinds and sources. \<open>at\<close> is the position the enclosing decoder
  reports. Each is an interpretation of \<open>item_codec\<close> where the wire form is unique; relation kinds
  and sources accept more than one spelling, so they satisfy \<open>readable\<close>.
\<close>

subsection \<open>Narrowed integers and codes\<close>

definition d_u8 :: "nat \<Rightarrow> dec \<Rightarrow> codec_error + u8 \<times> dec" where
  "d_u8 at = d_via at (\<lambda>w. if unat w \<le> 255 then Some (ucast w) else None) d_uint"

definition d_u32 :: "nat \<Rightarrow> dec \<Rightarrow> codec_error + u32 \<times> dec" where
  "d_u32 at = d_via at (\<lambda>w. if unat w \<le> 4294967295 then Some (ucast w) else None) d_uint"

definition enc_u8 :: "u8 \<Rightarrow> bytes" where
  "enc_u8 c = enc_uint (ucast c)"

definition enc_u32 :: "u32 \<Rightarrow> bytes" where
  "enc_u32 c = enc_uint (ucast c)"

lemma ucast_narrow:
  fixes k :: "'a::len word" and w :: u64
  assumes "LENGTH('a) < 64"
  shows "unat w \<le> 2 ^ LENGTH('a) - 1 \<and> ucast w = k \<longleftrightarrow> w = ucast k"
proof -
  have kb: "unat k < 2 ^ LENGTH('a)" by (rule unsigned_less)
  have small: "unat k < 2 ^ 64"
    using kb power_strict_increasing [OF assms, of "2 :: nat"] by (rule less_trans) simp
  have k: "unat (ucast k :: u64) = unat k"
    using small by (simp only: unsigned_ucast_eq) (simp add: take_bit_nat_eq_self)
  have w: "unat (ucast w :: 'a word) = unat w" if "unat w < 2 ^ LENGTH('a)"
    using that by (simp only: unsigned_ucast_eq) (simp add: take_bit_nat_eq_self)
  have "unat w \<le> 2 ^ LENGTH('a) - 1 \<longleftrightarrow> unat w < 2 ^ LENGTH('a)"
    using zero_less_power [of "2 :: nat" "LENGTH('a)"] by linarith
  then have "unat w \<le> 2 ^ LENGTH('a) - 1 \<and> ucast w = k \<longleftrightarrow> unat w = unat k"
    using kb w by (auto simp: word_unat_eq_iff)
  also have "\<dots> \<longleftrightarrow> w = ucast k"
    using k by (metis word_unat_eq_iff)
  finally show ?thesis .
qed

lemma ucast_u8_u64: "unat (w :: u64) \<le> 255 \<and> ucast w = (k :: u8) \<longleftrightarrow> w = ucast k"
  using ucast_narrow [of w k] by simp

lemma ucast_u32_u64: "unat (w :: u64) \<le> 4294967295 \<and> ucast w = (k :: u32) \<longleftrightarrow> w = ucast k"
  using ucast_narrow [of w k] by simp

interpretation u8_item: item_codec "d_u8 at" enc_u8 "\<lambda>_. True" for at
  unfolding d_u8_def enc_u8_def
  by (rule uint_item.via_codec) (use ucast_u8_u64 in auto)

interpretation u32_item: item_codec "d_u32 at" enc_u32 "\<lambda>_. True" for at
  unfolding d_u32_def enc_u32_def
  by (rule uint_item.via_codec) (use ucast_u32_u64 in auto)

text \<open>A code whose value has to be known: \<open>from_u8(c).ok_or_else(|| bad(at))?\<close>.\<close>

definition d_code :: "nat \<Rightarrow> (u8 \<Rightarrow> 'e option) \<Rightarrow> dec \<Rightarrow> codec_error + 'e \<times> dec" where
  "d_code at from_u8 = d_via at from_u8 (d_u8 at)"


context wire_code
begin

lemma code_codec: "item_codec (d_code at from_u8) (\<lambda>x. enc_u8 (as_u8 x)) (\<lambda>_. True)"
  unfolding d_code_def by (rule u8_item.via_codec) (use from_u8_iff in auto)

end

text \<open>Decoders that report their own start.\<close>

lemma item_codec_at: "(\<And>at. item_codec (rd at) wr ok) \<Longrightarrow> item_codec (\<lambda>d. rd (dpos d) d) wr ok"
  by (simp add: item_codec_def)

subsection \<open>Validated text\<close>

definition right_opt :: "'e + 'a \<Rightarrow> 'a option" where
  "right_opt r = (case r of Inl _ \<Rightarrow> None | Inr a \<Rightarrow> Some a)"

lemma right_opt_Some [simp]: "right_opt r = Some a \<longleftrightarrow> r = Inr a"
  by (cases r) (auto simp: right_opt_def)

definition d_parsed :: "(string \<Rightarrow> bool) \<Rightarrow> nat \<Rightarrow> (string \<Rightarrow> id_error + 'a) \<Rightarrow> dec \<Rightarrow> codec_error + 'a \<times> dec" where
  "d_parsed is_nfc at p = d_via at (\<lambda>s. right_opt (p s)) (d_text is_nfc)"

lemma parsed_codec:
  assumes "\<And>s x. p s = Inr x \<Longrightarrow> q x = s"
  shows "item_codec (d_parsed is_nfc at p) (\<lambda>x. enc_text is_nfc nfc (q x)) (\<lambda>x. p (q x) = Inr x \<and> text_ok is_nfc (q x))"
  unfolding d_parsed_def by (rule text_item.via_codec) (use assms in auto)

definition agent_ok :: "(string \<Rightarrow> bool) \<Rightarrow> string \<Rightarrow> bool" where
  "agent_ok is_nfc a \<longleftrightarrow> agent_new a = Inr a \<and> text_ok is_nfc a"

definition label_ok :: "string \<Rightarrow> (string \<Rightarrow> bool) \<Rightarrow> string \<Rightarrow> bool" where
  "label_ok kind is_nfc s \<longleftrightarrow> label_new kind s = Inr s \<and> text_ok is_nfc s"

definition lang_ok :: "(string \<Rightarrow> bool) \<Rightarrow> string \<Rightarrow> bool" where
  "lang_ok is_nfc s \<longleftrightarrow> lang_tag_new s = Inr s \<and> text_ok is_nfc s"

definition schema_ok :: "(string \<Rightarrow> id_error + schema_id) \<Rightarrow> (string \<Rightarrow> bool) \<Rightarrow> schema_id \<Rightarrow> bool" where
  "schema_ok p is_nfc x \<longleftrightarrow> p (schema_id_as_str x) = Inr x \<and> text_ok is_nfc (schema_id_as_str x)"

definition enc_schema :: "(string \<Rightarrow> bool) \<Rightarrow> (string \<Rightarrow> string) \<Rightarrow> schema_id \<Rightarrow> bytes" where
  "enc_schema is_nfc nfc x = enc_text is_nfc nfc (schema_id_as_str x)"

interpretation agent_item: item_codec "d_parsed is_nfc at agent_new" "enc_text is_nfc nfc" "agent_ok is_nfc" for is_nfc at nfc
  unfolding agent_ok_def by (rule parsed_codec) (auto simp: agent_new_def split: if_splits)

interpretation label_item: item_codec "d_parsed is_nfc at (label_new kind)" "enc_text is_nfc nfc" "label_ok kind is_nfc"
  for is_nfc at kind nfc
  unfolding label_ok_def by (rule parsed_codec) (auto dest: label_new_Inr)

interpretation lang_item: item_codec "d_parsed is_nfc at lang_tag_new" "enc_text is_nfc nfc" "lang_ok is_nfc" for is_nfc at nfc
  unfolding lang_ok_def by (rule parsed_codec) (auto simp: lang_tag_new_def split: if_splits)

interpretation schema_item: item_codec "d_parsed is_nfc at schema_id_parse" "enc_schema is_nfc nfc"
    "schema_ok schema_id_parse is_nfc" for is_nfc at nfc
  unfolding schema_ok_def enc_schema_def by (rule parsed_codec) (rule schema_id_parse_text)

interpretation schema_forward_item: item_codec "d_parsed is_nfc at schema_id_parse_forward"
    "enc_schema is_nfc nfc" "schema_ok schema_id_parse_forward is_nfc" for is_nfc at nfc
  unfolding schema_ok_def enc_schema_def by (rule parsed_codec) (rule schema_id_parse_forward_text)

subsection \<open>Digests\<close>

definition d_digest :: "dec \<Rightarrow> codec_error + digest \<times> dec" where
  "d_digest d = d_via (dpos d) (\<lambda>b. if length b = 32 then Some b else None) d_bytes d"

abbreviation bytes_ok :: "bytes \<Rightarrow> bool" where
  "bytes_ok \<equiv> \<lambda>b. length b < 2 ^ 64"

abbreviation digest_ok :: "digest \<Rightarrow> bool" where
  "digest_ok \<equiv> \<lambda>b. length b = 32"

abbreviation uid_set_ok :: "uid list \<Rightarrow> bool" where
  "uid_set_ok \<equiv> \<lambda>us. ascending us \<and> list_all uid_ok us \<and> length us < 2 ^ 64"

interpretation digest_item: item_codec d_digest enc_bytes digest_ok
  unfolding d_digest_def
  by (rule item_codec_at) (rule bytes_item.via_codec, auto)

subsection \<open>Clocks\<close>

definition enc_hlc :: "(string \<Rightarrow> bool) \<Rightarrow> (string \<Rightarrow> string) \<Rightarrow> hlc \<Rightarrow> bytes" where
  "enc_hlc is_nfc nfc h =
     enc_array_head 3 @ enc_uint (wall_ms h) @ enc_u32 (counter h) @ enc_text is_nfc nfc (hlc_agent h)"

definition dec_hlc :: "(string \<Rightarrow> bool) \<Rightarrow> dec \<Rightarrow> codec_error + hlc \<times> dec" where
  "dec_hlc is_nfc d =
     and_then (d_array_head d) (\<lambda>(n, d1).
       if n \<noteq> 3 then Inl (MalformedEnvelope (dpos d))
       else and_then (d_uint d1) (\<lambda>(w, d2).
            and_then (d_u32 (dpos d) d2) (\<lambda>(c, d3).
            and_then (d_parsed is_nfc (dpos d) agent_new d3) (\<lambda>(a, d4).
              Inr (\<lparr>wall_ms = w, counter = c, hlc_agent = a\<rparr>, d4)))))"

definition hlc_ok :: "(string \<Rightarrow> bool) \<Rightarrow> hlc \<Rightarrow> bool" where
  "hlc_ok is_nfc h \<longleftrightarrow> agent_ok is_nfc (hlc_agent h)"

interpretation hlc_item: item_codec "dec_hlc is_nfc" "enc_hlc is_nfc nfc" "hlc_ok is_nfc" for is_nfc nfc
proof
  fix d x d'
  assume "buf_ok d"
  then show "dec_hlc is_nfc d = Inr (x, d') \<longleftrightarrow>
      hlc_ok is_nfc x \<and> starts d (enc_hlc is_nfc nfc x) \<and> d' = d_move d (length (enc_hlc is_nfc nfc x))"
    by (cases x) (auto simp: dec_hlc_def enc_hlc_def hlc_ok_def and_then_Inr_iff d_array_head_Inr uint_item.read_iff
        u32_item.read_iff agent_item.read_iff [where nfc = nfc] split: if_splits)
qed

subsection \<open>Relation kinds\<close>

definition enc_rel_kind :: "(string \<Rightarrow> bool) \<Rightarrow> (string \<Rightarrow> string) \<Rightarrow> rel_kind \<Rightarrow> bytes" where
  "enc_rel_kind is_nfc nfc k =
     (case rel_code k of Some c \<Rightarrow> enc_u8 c | None \<Rightarrow> enc_text is_nfc nfc (rel_as_str k))"

definition dec_rel_kind :: "(string \<Rightarrow> bool) \<Rightarrow> dec \<Rightarrow> codec_error + rel_kind \<times> dec" where
  "dec_rel_kind is_nfc d =
     and_then (d_peek d) (\<lambda>b.
       let m = drop_bit 5 b in
       if m = 0 then d_code (dpos d) rel_from_code d
       else if m = 3 then d_parsed is_nfc (dpos d) rel_parse d
       else Inl (MalformedEnvelope (dpos d)))"

text \<open>A kind read from text may be a kernel kind, which is written as its code.\<close>

definition rel_kind_ok :: "(string \<Rightarrow> bool) \<Rightarrow> rel_kind \<Rightarrow> bool" where
  "rel_kind_ok is_nfc k \<longleftrightarrow> rel_is_kernel k \<or> (rel_parse (rel_as_str k) = Inr k \<and> text_ok is_nfc (rel_as_str k))"

lemma major_of_head:
  assumes "m < 8" "starts d (enc_head m arg @ r)"
  shows "\<exists>b. d_peek d = Inr b \<and> drop_bit 5 b = m"
proof -
  have "drop_bit 5 (push_bit 5 m OR head_info (unat arg)) = m"
    using assms(1) head_byte_iff [of m "head_info (unat arg)"] head_info_less [of "unat arg"] by metis
  then obtain b bs where e: "enc_head m arg = b # bs" "drop_bit 5 b = m"
    by (simp add: enc_head_parts)
  with assms(2) show ?thesis by (auto simp: starts_Cons d_peek_Inr)
qed

lemma rel_code_less: "rel_code k = Some c \<Longrightarrow> rel_from_code c = Some k"
  using rel_from_code_code [of k] rel_code_iff_kernel [of k] by force

interpretation rel_kind_item: readable "dec_rel_kind is_nfc" "rel_kind_ok is_nfc" "enc_rel_kind is_nfc nfc" for is_nfc nfc
proof (intro readable.intro reader.intro writable.intro)
  fix d x d'
  assume "dec_rel_kind is_nfc d = Inr (x, d')" "buf_ok d"
  then consider (code) c where "rel_from_code c = Some x" "moves d d'"
    | (spelt) s where "rel_parse s = Inr x" "text_ok is_nfc s" "moves d d'"
    by (auto simp: dec_rel_kind_def and_then_Inr_iff Let_def d_code_def d_parsed_def d_via_def
        split: if_splits option.splits dest!: u8_item.reads_ok text_item.reads_ok)
  then show "rel_kind_ok is_nfc x \<and> moves d d'"
  proof cases
    case code
    then show ?thesis using rel_code_from_code [OF code(1)] rel_code_iff_kernel [of x] by (simp add: rel_kind_ok_def)
  next
    case spelt
    then show ?thesis using rel_parse_text [OF spelt(1)] by (simp add: rel_kind_ok_def)
  qed
next
  fix d x
  assume ok: "rel_kind_ok is_nfc x" and d: "starts d (enc_rel_kind is_nfc nfc x)" "buf_ok d"
  show "dec_rel_kind is_nfc d = Inr (x, d_move d (length (enc_rel_kind is_nfc nfc x)))"
  proof (cases "rel_code x")
    case (Some c)
    then have e: "enc_rel_kind is_nfc nfc x = enc_head major_uint (ucast c)"
      by (simp add: enc_rel_kind_def enc_u8_def enc_uint_def)
    obtain b where b: "d_peek d = Inr b" "drop_bit 5 b = 0"
      using major_of_head [of 0 d "ucast c" "[]"] d(1) by (auto simp: e)
    have "d_u8 (dpos d) d = Inr (c, d_move d (length (enc_u8 c)))"
      using d by (intro u8_item.written) (simp_all add: e enc_u8_def enc_uint_def)
    then show ?thesis
      using b rel_code_less [OF Some] by (simp add: dec_rel_kind_def d_code_def d_via_def e enc_u8_def enc_uint_def)
  next
    case None
    then have e: "enc_rel_kind is_nfc nfc x = enc_text is_nfc nfc (rel_as_str x)"
      by (simp add: enc_rel_kind_def)
    have ok': "rel_parse (rel_as_str x) = Inr x" "text_ok is_nfc (rel_as_str x)"
      using ok None rel_code_iff_kernel [of x] by (auto simp: rel_kind_ok_def)
    obtain b where b: "d_peek d = Inr b" "drop_bit 5 b = 3"
      using major_of_head [of 3 d] d(1) ok'(2) unfolding e enc_text_def text_ok_def by auto
    have "d_text is_nfc d = Inr (rel_as_str x, d_move d (length (enc_text is_nfc nfc (rel_as_str x))))"
      using d ok'(2) by (intro text_item.written) (simp_all add: e)
    then show ?thesis
      using b ok'(1) by (simp add: dec_rel_kind_def d_parsed_def d_via_def e right_opt_def)
  qed
qed

subsection \<open>Sources\<close>

definition d_span :: "nat \<Rightarrow> dec \<Rightarrow> codec_error + (u64 \<times> u64) \<times> dec" where
  "d_span at d =
     and_then (d_array_head d) (\<lambda>(n, d1).
       if n \<noteq> 2 then Inl (MalformedEnvelope at)
       else and_then (d_uint d1) (\<lambda>(start, d2).
            and_then (d_uint d2) (\<lambda>(stop, d3).
              if start \<ge> stop then Inl (MalformedEnvelope at) else Inr ((start, stop), d3))))"

definition enc_span :: "u64 \<times> u64 \<Rightarrow> bytes" where
  "enc_span p = enc_array_head 2 @ enc_uint (fst p) @ enc_uint (snd p)"

interpretation span_item: item_codec "d_span at" enc_span "\<lambda>p. fst p < snd p" for at
proof
  fix d d' and x :: "u64 \<times> u64"
  assume ok: "buf_ok d"
  obtain a b where x: "x = (a, b)" by (cases x)
  show "d_span at d = Inr (x, d') \<longleftrightarrow> fst x < snd x \<and> starts d (enc_span x) \<and> d' = d_move d (length (enc_span x))"
  proof
    assume "d_span at d = Inr (x, d')"
    then show "fst x < snd x \<and> starts d (enc_span x) \<and> d' = d_move d (length (enc_span x))"
      using ok by (auto simp: x d_span_def enc_span_def and_then_Inr_iff d_array_head_Inr uint_item.read_iff split: if_splits)
  next
    assume r: "fst x < snd x \<and> starts d (enc_span x) \<and> d' = d_move d (length (enc_span x))"
    let ?d1 = "d_move d (length (enc_array_head 2))"
    have "d_array_head d = Inr (2, ?d1)" "d_uint ?d1 = Inr (a, d_move ?d1 (length (enc_uint a)))"
      "d_uint (d_move ?d1 (length (enc_uint a))) = Inr (b, d')"
      using r ok by (simp_all add: x enc_span_def d_array_head_Inr uint_item.read_iff)
    then show "d_span at d = Inr (x, d')" using r by (simp add: x d_span_def not_le)
  qed
qed

definition enc_source :: "(string \<Rightarrow> bool) \<Rightarrow> (string \<Rightarrow> string) \<Rightarrow> source_ref \<Rightarrow> bytes" where
  "enc_source is_nfc nfc s =
     mb_into_bytes (mb_put_extra (sr_extra s)
       (mb_put_opt 6 (sr_manifest s) enc_bytes
       (mb_put_opt 5 (sr_span s) enc_span
       (mb_put_opt 4 (sr_published s) (enc_text is_nfc nfc)
       (mb_put_opt 3 (sr_observed s) enc_uint
       (mb_put_opt 2 (sr_captured s) (\<lambda>d. enc_text is_nfc nfc (date_display d))
       (mb_put 1 (enc_text is_nfc nfc (sr_reference s))
       (mb_put 0 (enc_u8 (source_kind_code_of s)) []))))))))"

record source_state =
  ss_raw_kind :: "u8 option"
  ss_kind :: "source_kind option"
  ss_reference :: "string option"
  ss_captured :: "date option"
  ss_observed :: "u64 option"
  ss_published :: "string option"
  ss_span :: "(u64 \<times> u64) option"
  ss_manifest :: "digest option"

definition source_state_new :: source_state where
  "source_state_new =
     \<lparr>ss_raw_kind = None, ss_kind = None, ss_reference = None, ss_captured = None, ss_observed = None,
      ss_published = None, ss_span = None, ss_manifest = None\<rparr>"

definition source_handler :: "(string \<Rightarrow> bool) \<Rightarrow> nat \<Rightarrow> source_state handler" where
  "source_handler is_nfc at s k d =
     (if k = 0 then field (d_u8 at) (\<lambda>c s. s\<lparr>ss_raw_kind := Some c,
          ss_kind := Some (case source_kind_from_u8 c of Some x \<Rightarrow> x | None \<Rightarrow> SkUnknown)\<rparr>) s d
      else if k = 1 then field (d_text is_nfc) (\<lambda>x s. s\<lparr>ss_reference := Some x\<rparr>) s d
      else if k = 2 then field (d_parsed is_nfc at date_parse) (\<lambda>x s. s\<lparr>ss_captured := Some x\<rparr>) s d
      else if k = 3 then field d_uint (\<lambda>x s. s\<lparr>ss_observed := Some x\<rparr>) s d
      else if k = 4 then field (d_text is_nfc) (\<lambda>x s. s\<lparr>ss_published := Some x\<rparr>) s d
      else if k = 5 then field (d_span at) (\<lambda>x s. s\<lparr>ss_span := Some x\<rparr>) s d
      else if k = 6 then field d_digest (\<lambda>x s. s\<lparr>ss_manifest := Some x\<rparr>) s d
      else pass s d)"

text \<open>
  A span without its manifestation is refused, and an unknown kind has to carry a code that is
  neither known nor the code of \<open>Unknown\<close>.
\<close>

definition source_finish ::
  "(string \<Rightarrow> bool) \<Rightarrow> (string \<Rightarrow> string) \<Rightarrow> source_state \<Rightarrow> extra_fields \<Rightarrow> source_ref option" where
  "source_finish is_nfc nfc s extra =
     (case (ss_kind s, ss_reference s) of
        (Some kind, Some reference) \<Rightarrow>
          if ss_span s \<noteq> None \<and> ss_manifest s = None then None
          else
            (let r = (source_ref_new is_nfc nfc kind reference)
                       \<lparr>sr_captured := ss_captured s, sr_observed := ss_observed s, sr_published := ss_published s,
                        sr_span := ss_span s, sr_manifest := ss_manifest s, sr_extra := extra\<rparr>
             in if kind = SkUnknown then Option.bind (ss_raw_kind s) (\<lambda>c. source_with_unknown_kind c r)
                else Some r)
      | _ \<Rightarrow> None)"

definition dec_source :: "(string \<Rightarrow> bool) \<Rightarrow> (string \<Rightarrow> string) \<Rightarrow> dec \<Rightarrow> codec_error + source_ref \<times> dec" where
  "dec_source is_nfc nfc = dec_record is_nfc (source_handler is_nfc) source_state_new (source_finish is_nfc nfc)"

text \<open>
  The sources a reader returns: dates of four-digit years, a span only with its manifestation, an
  unknown kind only with a code that is not known, unknown keys only beyond the known ones.
\<close>

definition date_ok :: "date \<Rightarrow> bool" where
  "date_ok d \<longleftrightarrow> date_is_valid d \<and> unat (year d) < 10000"

definition source_ok :: "(string \<Rightarrow> bool) \<Rightarrow> source_ref \<Rightarrow> bool" where
  "source_ok is_nfc s \<longleftrightarrow>
     text_ok is_nfc (sr_reference s) \<and> pred_option date_ok (sr_captured s) \<and>
     pred_option (text_ok is_nfc) (sr_published s) \<and>
     pred_option (\<lambda>p. fst p < snd p \<and> sr_manifest s \<noteq> None) (sr_span s) \<and>
     pred_option (\<lambda>m. length m = 32) (sr_manifest s) \<and> extra_ok 6 is_nfc (sr_extra s) \<and>
     (if sr_kind s = SkUnknown
      then (\<exists>c. sr_kind_code s = Some c \<and> c \<noteq> 255 \<and> source_kind_from_u8 c = None)
      else sr_kind_code s = None)"

text \<open>Unicode: a text of ASCII characters is in normal form.\<close>

definition ascii_is_nfc :: "(string \<Rightarrow> bool) \<Rightarrow> bool" where
  "ascii_is_nfc is_nfc \<longleftrightarrow> (\<forall>s. list_all (\<lambda>c. char_code c < 128) s \<longrightarrow> is_nfc s)"

lemma utf8_ascii: "list_all (\<lambda>b. b < 0x80) bs \<Longrightarrow> utf8_valid bs"
proof (induction bs)
  case (Cons b bs)
  then show ?case by (subst utf8_valid.simps) simp
qed (simp add: utf8_valid.simps)

lemma text_ok_ascii:
  assumes "ascii_is_nfc is_nfc" "list_all (\<lambda>c. char_code c < 128) s" "length s < 2 ^ 64"
  shows "text_ok is_nfc s"
proof -
  have "(word_of_nat (char_code c) :: u8) < 0x80" if "char_code c < 128" for c
    using that by (simp add: word_less_nat_alt unat_word_of_nat_u8)
  then have "utf8_valid (str_bytes s)"
    using assms(2) by (intro utf8_ascii) (auto simp: str_bytes_def list_all_iff)
  then show ?thesis using assms by (simp add: text_ok_def ascii_is_nfc_def)
qed

lemma digits_ascii: "list_all is_digit s \<Longrightarrow> list_all (\<lambda>c. char_code c < 128) s"
  by (auto simp: list_all_iff is_digit_def)

lemma zero_pad_digits: "list_all is_digit s \<Longrightarrow> list_all is_digit (zero_pad w s)"
  by (auto simp: zero_pad_def list_all_iff is_digit_def char_code_def)

lemma date_text_ok:
  assumes "ascii_is_nfc is_nfc" "date_ok d"
  shows "text_ok is_nfc (date_display d)"
proof (rule text_ok_ascii [OF assms(1)])
  have "list_all (\<lambda>c. char_code c < 128) (zero_pad w (show_nat n))" for w n
    by (rule digits_ascii, rule zero_pad_digits, rule show_nat_digits)
  then show "list_all (\<lambda>c. char_code c < 128) (date_display d)"
    by (simp add: date_display_def char_code_def)
  show "length (date_display d) < 2 ^ 64"
    using assms(2) date_parse_display_lemma [of d] by (auto simp: date_ok_def date_parse_def split: if_splits)
qed

lemma parse_uint_bound: "parse_uint bound s = Some n \<Longrightarrow> n < 10 ^ length s"
proof -
  assume p: "parse_uint bound s = Some n"
  have read: "read_digits 0 ds = Some n \<Longrightarrow> n < 10 ^ length ds" for ds
    using read_digits_bound [of 0 ds n] by simp
  show ?thesis
  proof (cases s)
    case (Cons c cs)
    show ?thesis
    proof (cases "c = CHR ''+''")
      case True
      with p Cons have "n < 10 ^ length cs"
        by (intro read) (simp add: parse_uint_def Let_def split: if_splits option.splits)
      then show ?thesis using Cons by simp
    next
      case False
      with p Cons show ?thesis
        by (intro read) (simp add: parse_uint_def Let_def split: if_splits option.splits)
    qed
  qed (use p in \<open>simp add: parse_uint_def\<close>)
qed

lemma date_parse_ok: "date_parse s = Inr d \<Longrightarrow> date_ok d"
proof -
  assume p: "date_parse s = Inr d"
  then obtain y where y: "date_num s 0 4 = Inr y" "year d = y"
    by (auto simp: date_parse_def and_then_Inr_iff date_new_Inr split: if_splits)
  then obtain n where n: "parse_uint 65536 (take 4 s) = Some n" "y = word_of_nat n"
    by (auto simp: date_num_def split: option.splits)
  have "n < 10 ^ length (take 4 s)" using n(1) by (rule parse_uint_bound)
  also have "(10::nat) ^ length (take 4 s) \<le> 10 ^ 4" by (intro power_increasing) simp_all
  finally have "unat y < 10000" using n(2) by (simp add: unat_of_nat)
  then show ?thesis using date_parse_valid [OF p] y(2) by (simp add: date_ok_def)
qed

lemma key_le_step: "n \<noteq> 0 \<Longrightarrow> (k :: u16) \<le> n \<longleftrightarrow> k = n \<or> k \<le> n - 1"
proof -
  assume "n \<noteq> 0"
  then have "unat (n - 1) = unat n - 1" by (simp add: unat_minus_one)
  then show ?thesis
    using \<open>n \<noteq> 0\<close> unat_eq_zero [of n] by (simp only: word_le_nat_alt word_unat_eq_iff) linarith
qed

interpretation date_reader: reader "d_parsed is_nfc at date_parse" date_ok for is_nfc at
  unfolding d_parsed_def by (rule text_item.via_reader) (use date_parse_ok in auto)

lemma date_readable:
  "ascii_is_nfc is_nfc \<Longrightarrow> readable (d_parsed is_nfc at date_parse) date_ok (\<lambda>d. enc_text is_nfc nfc (date_display d))"
  unfolding d_parsed_def
  by (rule text_item.via_readable)
     (use date_parse_ok date_text_ok date_parse_display_lemma in \<open>auto simp: date_ok_def\<close>)

definition source_inv :: "(string \<Rightarrow> bool) \<Rightarrow> source_state \<Rightarrow> bool" where
  "source_inv is_nfc s \<longleftrightarrow>
     pred_option (text_ok is_nfc) (ss_reference s) \<and> pred_option date_ok (ss_captured s) \<and>
     pred_option (text_ok is_nfc) (ss_published s) \<and> pred_option (\<lambda>p. fst p < snd p) (ss_span s) \<and>
     pred_option (\<lambda>m. length m = 32) (ss_manifest s) \<and>
     ss_kind s = map_option (\<lambda>c. case source_kind_from_u8 c of Some x \<Rightarrow> x | None \<Rightarrow> SkUnknown) (ss_raw_kind s)"

interpretation source_map: record_map "source_handler is_nfc at" 6 "source_inv is_nfc" for is_nfc at
proof
  fix k d s
  assume "6 < (k :: u16)"
  then show "source_handler is_nfc at s k d = Inr ((False, s), d)"
    by (auto simp: source_handler_def pass_def)
next
  fix s k d b s' d'
  assume "source_handler is_nfc at s k d = Inr ((b, s'), d')" "buf_ok d" "source_inv is_nfc s"
  then show "(b \<longleftrightarrow> k \<le> 6) \<and> source_inv is_nfc s' \<and> moves d d'"
    by (auto simp: source_handler_def source_inv_def key_le_step split: if_splits
        dest!: u8_item.field_ok text_item.field_ok date_reader.field_ok uint_item.field_ok
          span_item.field_ok digest_item.field_ok)
qed

definition source_puts :: "(string \<Rightarrow> bool) \<Rightarrow> (string \<Rightarrow> string) \<Rightarrow> source_ref \<Rightarrow> source_state put list" where
  "source_puts is_nfc nfc s =
     [must 0 (enc_u8 (source_kind_code_of s)) (\<lambda>st. st\<lparr>ss_raw_kind := Some (source_kind_code_of s),
        ss_kind := Some (case source_kind_from_u8 (source_kind_code_of s) of Some x \<Rightarrow> x | None \<Rightarrow> SkUnknown)\<rparr>),
      must 1 (enc_text is_nfc nfc (sr_reference s)) (\<lambda>st. st\<lparr>ss_reference := Some (sr_reference s)\<rparr>),
      may 2 (sr_captured s) (\<lambda>d. enc_text is_nfc nfc (date_display d)) (\<lambda>v st. st\<lparr>ss_captured := v\<rparr>),
      may 3 (sr_observed s) enc_uint (\<lambda>v st. st\<lparr>ss_observed := v\<rparr>),
      may 4 (sr_published s) (enc_text is_nfc nfc) (\<lambda>v st. st\<lparr>ss_published := v\<rparr>),
      may 5 (sr_span s) enc_span (\<lambda>v st. st\<lparr>ss_span := v\<rparr>),
      may 6 (sr_manifest s) enc_bytes (\<lambda>v st. st\<lparr>ss_manifest := v\<rparr>)]"

lemma enc_source_puts:
  "enc_source is_nfc nfc s = enc_map (concat (map put_entry (source_puts is_nfc nfc s)) @ sr_extra s)"
  by (simp add: enc_source_def mb_puts mb_into_bytes_def mb_put_extra_def source_puts_def)

lemma enc_span_not_null [simp]: "not_null (enc_span p)"
  by (simp add: enc_span_def enc_array_head_def)

lemma enc_u8_not_null [simp]: "not_null (enc_u8 c)" "not_null (enc_u32 w)"
  by (simp_all add: enc_u8_def enc_u32_def)

lemma source_puts_ok:
  assumes "ascii_is_nfc is_nfc" "source_ok is_nfc s"
  shows "list_all (put_ok (source_handler is_nfc at)) (source_puts is_nfc nfc s)"
  using assms(2) unfolding source_puts_def source_ok_def
  by (auto simp: source_handler_def intro!: u8_item.reads_field text_item.reads_field uint_item.reads_field
      span_item.reads_field digest_item.reads_field writable.reads_field [OF readable.axioms(2) [OF date_readable [OF assms(1)]]])

lemma source_puts_run:
  "fold put_run (source_puts is_nfc nfc s) source_state_new =
    \<lparr>ss_raw_kind = Some (source_kind_code_of s),
     ss_kind = Some (case source_kind_from_u8 (source_kind_code_of s) of Some x \<Rightarrow> x | None \<Rightarrow> SkUnknown),
     ss_reference = Some (sr_reference s), ss_captured = sr_captured s, ss_observed = sr_observed s,
     ss_published = sr_published s, ss_span = sr_span s, ss_manifest = sr_manifest s\<rparr>"
  by (simp add: source_puts_def source_state_new_def)

lemma source_finish_ok:
  "source_inv is_nfc st \<Longrightarrow> extra_ok 6 is_nfc extra \<Longrightarrow> source_finish is_nfc nfc st extra = Some x \<Longrightarrow> source_ok is_nfc x"
  by (auto simp: source_finish_def source_inv_def source_ok_def Let_def source_ref_new_def
      source_with_unknown_kind_def text_ok_def normalise_def option.pred_set bind_eq_Some_conv
      split: if_splits option.splits)

lemma source_finish_puts:
  assumes ok: "source_ok is_nfc x"
  shows "source_finish is_nfc nfc (fold put_run (source_puts is_nfc nfc x) source_state_new) (sr_extra x) = Some x"
proof -
  have "(case source_kind_from_u8 (source_kind_code_of x) of Some y \<Rightarrow> y | None \<Rightarrow> SkUnknown) = sr_kind x"
    using ok by (auto simp: source_ok_def source_kind_code_of_def source_kind_from_as split: if_splits)
  moreover have "(source_ref_new is_nfc nfc (sr_kind x) (sr_reference x))
      \<lparr>sr_captured := sr_captured x, sr_observed := sr_observed x, sr_published := sr_published x,
       sr_span := sr_span x, sr_manifest := sr_manifest x, sr_extra := sr_extra x\<rparr> = x\<lparr>sr_kind_code := None\<rparr>"
    using ok by (cases x) (auto simp: source_ok_def source_ref_new_def text_ok_def normalise_def)
  moreover have "sr_span x \<noteq> None \<longrightarrow> sr_manifest x \<noteq> None"
    using ok by (auto simp: source_ok_def)
  moreover have "if sr_kind x = SkUnknown
      then source_with_unknown_kind (source_kind_code_of x) (x\<lparr>sr_kind_code := None\<rparr>) = Some x
      else x\<lparr>sr_kind_code := None\<rparr> = x"
    using ok by (cases x) (auto simp: source_ok_def source_with_unknown_kind_def source_kind_code_of_def split: if_splits)
  ultimately show ?thesis
    unfolding source_puts_run by (auto simp: source_finish_def Let_def split: if_splits)
qed

interpretation source_reader: reader "dec_source is_nfc nfc" "source_ok is_nfc" for is_nfc nfc
  unfolding dec_source_def
  by (rule record_reader [OF source_map.record_map_axioms])
     (simp add: source_inv_def source_state_new_def, rule source_finish_ok)

lemma source_readable:
  assumes "ascii_is_nfc is_nfc"
  shows "readable (dec_source is_nfc nfc) (source_ok is_nfc) (enc_source is_nfc nfc)"
  unfolding dec_source_def
  by (rule record_readable [OF source_reader.reader_axioms [unfolded dec_source_def] source_map.record_map_axioms
        enc_source_puts source_puts_ok [OF assms]])
     (assumption, simp add: source_puts_def, simp add: source_ok_def, erule source_finish_puts)

lemmas source_writable = readable.axioms(2) [OF source_readable]

lemma not_null_parts [simp]:
  "not_null (enc_hlc is_nfc nfc h)" "not_null (enc_schema is_nfc nfc x)" "not_null (enc_rel_kind is_nfc nfc k)"
  "not_null (enc_source is_nfc nfc s)"
  by (auto simp: enc_hlc_def enc_schema_def enc_rel_kind_def enc_source_def mb_into_bytes_def enc_map_def
      enc_array_head_def split: option.splits)

lemma not_null_enc_map [simp]: "not_null (enc_map m)"
  by (simp add: enc_map_def)

subsection \<open>Pairs and sets\<close>

text \<open>An array of exactly two items; both readers are told where the array began.\<close>

definition d_pair :: "(nat \<Rightarrow> dec \<Rightarrow> codec_error + 'a \<times> dec) \<Rightarrow> (nat \<Rightarrow> dec \<Rightarrow> codec_error + 'b \<times> dec) \<Rightarrow>
    dec \<Rightarrow> codec_error + ('a \<times> 'b) \<times> dec" where
  "d_pair rd1 rd2 d =
     and_then (d_array_head d) (\<lambda>(n, d1).
       if n \<noteq> 2 then Inl (MalformedEnvelope (dpos d))
       else and_then (rd1 (dpos d) d1) (\<lambda>(x, d2).
            and_then (rd2 (dpos d) d2) (\<lambda>(y, d3). Inr ((x, y), d3))))"

lemma pair_codec:
  assumes 1: "\<And>at. item_codec (rd1 at) wr1 ok1" and 2: "\<And>at. item_codec (rd2 at) wr2 ok2"
  shows "item_codec (d_pair rd1 rd2) (\<lambda>(x, y). enc_array_head 2 @ wr1 x @ wr2 y) (\<lambda>(x, y). ok1 x \<and> ok2 y)"
proof
  fix d d' and p :: "'a \<times> 'b"
  assume "buf_ok d"
  then show "d_pair rd1 rd2 d = Inr (p, d') \<longleftrightarrow>
      (case p of (x, y) \<Rightarrow> ok1 x \<and> ok2 y) \<and>
      starts d (case p of (x, y) \<Rightarrow> enc_array_head 2 @ wr1 x @ wr2 y) \<and>
      d' = d_move d (length (case p of (x, y) \<Rightarrow> enc_array_head 2 @ wr1 x @ wr2 y))"
    by (cases p) (auto simp: d_pair_def and_then_Inr_iff d_array_head_Inr
        item_codec.read_iff [OF 1] item_codec.read_iff [OF 2] split: if_splits)
qed

text \<open>A sorted array collected into a \<open>BTreeSet\<close>.\<close>

definition d_set :: "(dec \<Rightarrow> codec_error + 'a::linorder \<times> dec) \<Rightarrow> dec \<Rightarrow> codec_error + 'a list \<times> dec" where
  "d_set rd d = and_then (d_sorted_array rd d) (\<lambda>(xs, d'). Inr (bs_collect xs, d'))"

lemma length_bs_collect: "length (bs_collect xs) \<le> length xs"
proof -
  have "length (bs_collect xs) = card (set xs)"
    using distinct_card [of "bs_collect xs"] by (simp add: ascending_distinct)
  then show ?thesis by (simp add: card_length)
qed

lemma set_readable:
  fixes ok :: "'a::linorder \<Rightarrow> bool"
  assumes "item_codec rd wr ok"
  shows "readable (d_set rd) (\<lambda>xs. ascending xs \<and> list_all ok xs \<and> length xs < 2 ^ 64)
    (\<lambda>xs. enc_sorted_array (map wr xs))"
proof (intro readable.intro reader.intro writable.intro)
  fix d xs d'
  assume "d_set rd d = Inr (xs, d')" and d: "buf_ok d"
  then obtain ys where r: "d_sorted_array rd d = Inr (ys, d')" and xs: "xs = bs_collect ys"
    by (auto simp: d_set_def and_then_Inr_iff)
  then have "list_all ok ys \<and> length ys < 2 ^ 64" "moves d d'"
    using item_codec.sorted_array_Inr [OF assms d] d moves_written [of d "enc_sorted_array (map wr ys)"] by simp_all
  then show "(ascending xs \<and> list_all ok xs \<and> length xs < 2 ^ 64) \<and> moves d d'"
    using length_bs_collect [of ys] by (simp add: xs list_all_iff)
next
  fix xs d
  assume ok: "ascending xs \<and> list_all ok xs \<and> length xs < 2 ^ 64"
    and d: "starts d (enc_sorted_array (map wr xs))" "buf_ok d"
  have "bs_collect (sort_key wr xs) = xs"
    using ok bs_collect_cong [of "sort_key wr xs" xs] by (simp add: bs_collect_id)
  then show "d_set rd d = Inr (xs, d_move d (length (enc_sorted_array (map wr xs))))"
    using item_codec.sorted_array_set [OF assms _ _ _ d] ok by (simp add: d_set_def ascending_distinct)
qed

end
