(* ===== verification/Graph_Codecs.thy ===== *)
theory Graph_Codecs
  imports Record_Parts Discourse
begin

section \<open>Codecs of units, attestations, relations and lifecycle records (smysl-core/src/cbor/envelope.rs)\<close>

text \<open>
  For each record type: the state its decoder fills, the handler (the arms of the decoder's
  \<open>match\<close>), the writer, how the record is built from what was read, which records a decoder
  returns (\<open>_ok\<close>), and the interpretation of \<open>readable\<close>: what was written is read back, and what is
  read can be written. \<open>_puts\<close> lists what the writer puts with what reading it does to the state.
\<close>


subsection \<open>Unit cores\<close>

record unit_state =
  us_schema :: "schema_id option"
  us_gist :: "string option"
  us_body :: "string option"
  us_detail :: "string option"
  us_deps :: "uid list"
  us_grounds :: "uid list"
  us_status :: "status option"
  us_source :: "source_ref option"
  us_payload :: "bytes option"
  us_lang :: "string option"

definition unit_state_new :: unit_state where
  "unit_state_new =
     \<lparr>us_schema = None, us_gist = None, us_body = None, us_detail = None, us_deps = [],
      us_grounds = [], us_status = None, us_source = None, us_payload = None, us_lang = None\<rparr>"

definition unit_handler :: "(string \<Rightarrow> bool) \<Rightarrow> (string \<Rightarrow> string) \<Rightarrow> nat \<Rightarrow> unit_state handler" where
  "unit_handler is_nfc nfc at s k d =
     (if k = 0 then field (d_parsed is_nfc at schema_id_parse_forward) (\<lambda>v st. st\<lparr>us_schema := Some v\<rparr>) s d
      else if k = 1 then field (d_text is_nfc) (\<lambda>v st. st\<lparr>us_gist := Some v\<rparr>) s d
      else if k = 2 then field (d_text is_nfc) (\<lambda>v st. st\<lparr>us_body := Some v\<rparr>) s d
      else if k = 3 then field (d_text is_nfc) (\<lambda>v st. st\<lparr>us_detail := Some v\<rparr>) s d
      else if k = 4 then field d_uid_set (\<lambda>v st. st\<lparr>us_deps := v\<rparr>) s d
      else if k = 5 then field d_uid_set (\<lambda>v st. st\<lparr>us_grounds := v\<rparr>) s d
      else if k = 6 then field (d_u8 at) (\<lambda>c st. st\<lparr>us_status := status_from_u8 c\<rparr>) s d
      else if k = 7 then field (dec_source is_nfc nfc) (\<lambda>v st. st\<lparr>us_source := Some v\<rparr>) s d
      else if k = 8 then field d_bytes (\<lambda>v st. st\<lparr>us_payload := Some v\<rparr>) s d
      else if k = 9 then field (d_parsed is_nfc at lang_tag_new) (\<lambda>v st. st\<lparr>us_lang := Some v\<rparr>) s d
      else pass s d)"

definition unit_bytes :: "(string \<Rightarrow> bool) \<Rightarrow> (string \<Rightarrow> string) \<Rightarrow> unit_core \<Rightarrow> bytes" where
  "unit_bytes is_nfc nfc u =
     mb_into_bytes (mb_put_extra (uc_extra u)
       (mb_put_opt 9 (uc_lang u) (enc_text is_nfc nfc)
       (mb_put_opt 8 (uc_payload u) enc_bytes
       (mb_put_opt 7 (uc_source u) (enc_source is_nfc nfc)
       (mb_put 6 (enc_u8 (status_as_u8 (uc_status u)))
       (mb_put_uid_set 5 (uc_grounds u)
       (mb_put_uid_set 4 (uc_deps u)
       (mb_put_opt 3 (uc_detail u) (enc_text is_nfc nfc)
       (mb_put_opt 2 (uc_body u) (enc_text is_nfc nfc)
       (mb_put 1 (enc_text is_nfc nfc (uc_gist u))
       (mb_put 0 (enc_schema is_nfc nfc (uc_schema u)) [])))))))))))"

definition unit_finish ::
  "(string \<Rightarrow> bool) \<Rightarrow> (string \<Rightarrow> string) \<Rightarrow> unit_state \<Rightarrow> extra_fields \<Rightarrow> unit_core option" where
  "unit_finish is_nfc nfc s extra =
     (case (us_schema s, us_gist s, us_status s) of
        (Some schema, Some gist, Some status) \<Rightarrow>
          right_opt (unit_core_new is_nfc nfc
            ((unit_builder_new schema gist status)
               \<lparr>uc_body := us_body s, uc_detail := us_detail s, uc_deps := us_deps s,
                uc_grounds := us_grounds s, uc_source := us_source s, uc_payload := us_payload s,
                uc_lang := us_lang s, uc_extra := extra\<rparr>))
      | _ \<Rightarrow> None)"

definition dec_unit :: "(string \<Rightarrow> bool) \<Rightarrow> (string \<Rightarrow> string) \<Rightarrow> dec \<Rightarrow> codec_error + unit_core \<times> dec" where
  "dec_unit is_nfc nfc = dec_record is_nfc (unit_handler is_nfc nfc) unit_state_new (unit_finish is_nfc nfc)"

definition unit_ok :: "(string \<Rightarrow> bool) \<Rightarrow> unit_core \<Rightarrow> bool" where
  "unit_ok is_nfc u \<longleftrightarrow>
     schema_ok schema_id_parse_forward is_nfc (uc_schema u) \<and>
     text_ok is_nfc (uc_gist u) \<and> pred_option (text_ok is_nfc) (uc_body u) \<and>
     pred_option (text_ok is_nfc) (uc_detail u) \<and> uid_set_ok (uc_deps u) \<and>
     uid_set_ok (uc_grounds u) \<and> pred_option (source_ok is_nfc) (uc_source u) \<and>
     pred_option bytes_ok (uc_payload u) \<and> pred_option (lang_ok is_nfc) (uc_lang u) \<and>
     extra_ok 9 is_nfc (uc_extra u) \<and> unit_shape_ok u"

definition unit_inv :: "(string \<Rightarrow> bool) \<Rightarrow> unit_state \<Rightarrow> bool" where
  "unit_inv is_nfc st \<longleftrightarrow>
     pred_option (schema_ok schema_id_parse_forward is_nfc) (us_schema st) \<and>
     pred_option (text_ok is_nfc) (us_gist st) \<and>
     pred_option (text_ok is_nfc) (us_body st) \<and>
     pred_option (text_ok is_nfc) (us_detail st) \<and> uid_set_ok (us_deps st) \<and>
     uid_set_ok (us_grounds st) \<and> pred_option (source_ok is_nfc) (us_source st) \<and>
     pred_option bytes_ok (us_payload st) \<and> pred_option (lang_ok is_nfc) (us_lang st)"

interpretation unit_map: record_map "unit_handler is_nfc nfc at" 9 "unit_inv is_nfc" for is_nfc nfc at
proof
  fix k d s
  assume "9 < (k :: u16)"
  then show "unit_handler is_nfc nfc at s k d = Inr ((False, s), d)"
    by (auto simp: unit_handler_def pass_def)
next
  fix s k d b s' d'
  assume "unit_handler is_nfc nfc at s k d = Inr ((b, s'), d')" "buf_ok d" "unit_inv is_nfc s"
  then show "(b \<longleftrightarrow> k \<le> 9) \<and> unit_inv is_nfc s' \<and> moves d d'"
    by (auto simp: unit_handler_def unit_inv_def key_le_step split: if_splits
        dest!: schema_forward_item.field_ok text_item.field_ok uid_set_item.field_ok
          u8_item.field_ok source_reader.field_ok bytes_item.field_ok lang_item.field_ok)
qed

definition unit_puts :: "(string \<Rightarrow> bool) \<Rightarrow> (string \<Rightarrow> string) \<Rightarrow> unit_core \<Rightarrow> unit_state put list" where
  "unit_puts is_nfc nfc u =
     [must 0 (enc_schema is_nfc nfc (uc_schema u)) (\<lambda>st. st\<lparr>us_schema := Some (uc_schema u)\<rparr>),
      must 1 (enc_text is_nfc nfc (uc_gist u)) (\<lambda>st. st\<lparr>us_gist := Some (uc_gist u)\<rparr>),
      may 2 (uc_body u) (enc_text is_nfc nfc) (\<lambda>v st. st\<lparr>us_body := v\<rparr>),
      may 3 (uc_detail u) (enc_text is_nfc nfc) (\<lambda>v st. st\<lparr>us_detail := v\<rparr>),
      unless_nil 4 (uc_deps u) (enc_uid_set (uc_deps u)) (\<lambda>v st. st\<lparr>us_deps := v\<rparr>),
      unless_nil 5 (uc_grounds u) (enc_uid_set (uc_grounds u)) (\<lambda>v st. st\<lparr>us_grounds := v\<rparr>),
      must 6 (enc_u8 (status_as_u8 (uc_status u))) (\<lambda>st. st\<lparr>us_status := status_from_u8 (status_as_u8 (uc_status u))\<rparr>),
      may 7 (uc_source u) (enc_source is_nfc nfc) (\<lambda>v st. st\<lparr>us_source := v\<rparr>),
      may 8 (uc_payload u) enc_bytes (\<lambda>v st. st\<lparr>us_payload := v\<rparr>),
      may 9 (uc_lang u) (enc_text is_nfc nfc) (\<lambda>v st. st\<lparr>us_lang := v\<rparr>)]"

lemma unit_bytes_puts: "unit_bytes is_nfc nfc u = enc_map (concat (map put_entry (unit_puts is_nfc nfc u)) @ uc_extra u)"
  by (simp add: unit_bytes_def mb_puts mb_into_bytes_def mb_put_extra_def unit_puts_def)

lemma unit_puts_ok:
  assumes "ascii_is_nfc is_nfc" and "unit_ok is_nfc u"
  shows "list_all (put_ok (unit_handler is_nfc nfc at)) (unit_puts is_nfc nfc u)"
proof -
  note ok = assms(2) [unfolded unit_ok_def]
  show ?thesis
    unfolding unit_puts_def list.pred_inject(2)
    by (intro conjI list.pred_inject(1); (rule schema_forward_item.put_must text_item.put_must text_item.put_may
        put_unless_nil [OF uid_set_item.writable_axioms] u8_item.put_must
        writable.put_may [OF source_writable [OF assms(1)]] bytes_item.put_may lang_item.put_may,
        (simp add: unit_handler_def; fail), (use ok in \<open>simp; fail\<close>), (use ok in \<open>simp; fail\<close>)))
qed

lemma unit_puts_run:
  "fold put_run (unit_puts is_nfc nfc u) unit_state_new =
    \<lparr>us_schema = Some (uc_schema u),
     us_gist = Some (uc_gist u),
     us_body = uc_body u,
     us_detail = uc_detail u,
     us_deps = uc_deps u,
     us_grounds = uc_grounds u,
     us_status = status_from_u8 (status_as_u8 (uc_status u)),
     us_source = uc_source u,
     us_payload = uc_payload u,
     us_lang = uc_lang u\<rparr>"
  by (simp add: unit_puts_def unit_state_new_def)

lemma unit_finish_ok:
  "unit_inv is_nfc st \<Longrightarrow> extra_ok 9 is_nfc extra \<Longrightarrow> unit_finish is_nfc nfc st extra = Some u \<Longrightarrow> unit_ok is_nfc u"
proof -
  assume inv: "unit_inv is_nfc st" "extra_ok 9 is_nfc extra" and f: "unit_finish is_nfc nfc st extra = Some u"
  then obtain schema gist status where some: "us_schema st = Some schema" "us_gist st = Some gist" "us_status st = Some status"
    and new: "unit_core_new is_nfc nfc ((unit_builder_new schema gist status)
               \<lparr>uc_body := us_body st, uc_detail := us_detail st, uc_deps := us_deps st,
                uc_grounds := us_grounds st, uc_source := us_source st, uc_payload := us_payload st,
                uc_lang := us_lang st, uc_extra := extra\<rparr>) = Inr u"
    by (auto simp: unit_finish_def split: option.splits)
  have "is_nfc gist" "pred_option is_nfc (us_body st)" "pred_option is_nfc (us_detail st)"
    using inv(1) some by (auto simp: unit_inv_def text_ok_def option.pred_set)
  then have u: "unit_shape_ok u" "uc_gist u = gist" "uc_body u = None \<or> uc_body u = us_body st"
      "uc_detail u = None \<or> uc_detail u = us_detail st" "uc_schema u = schema" "uc_deps u = us_deps st"
      "uc_grounds u = us_grounds st" "uc_source u = us_source st" "uc_payload u = us_payload st"
      "uc_lang u = us_lang st" "uc_extra u = extra"
    using unit_core_new_normal [OF new] by (simp_all add: unit_builder_new_def)
  then show "unit_ok is_nfc u"
    using inv some by (auto simp: unit_ok_def unit_inv_def)
qed

lemma unit_finish_puts:
  "unit_ok is_nfc u \<Longrightarrow> unit_finish is_nfc nfc (fold put_run (unit_puts is_nfc nfc u) unit_state_new) (uc_extra u) = Some u"
proof -
  assume ok: "unit_ok is_nfc u"
  then have "unit_shape_ok u" "unit_text_normal is_nfc u"
    by (auto simp: unit_ok_def unit_text_normal_def text_ok_def)
  then have "unit_core_new is_nfc nfc u = Inr u" by (rule unit_core_new_fixed)
  moreover have "(unit_builder_new (uc_schema u) (uc_gist u) (uc_status u))
      \<lparr>uc_body := uc_body u, uc_detail := uc_detail u, uc_deps := uc_deps u, uc_grounds := uc_grounds u,
       uc_source := uc_source u, uc_payload := uc_payload u, uc_lang := uc_lang u, uc_extra := uc_extra u\<rparr> = u"
    by (cases u) (simp add: unit_builder_new_def)
  ultimately show ?thesis
    unfolding unit_puts_run by (simp add: unit_finish_def status_from_as right_opt_def)
qed

interpretation unit_reader: reader "dec_unit is_nfc nfc" "unit_ok is_nfc" for is_nfc nfc
  unfolding dec_unit_def
  by (rule record_reader [OF unit_map.record_map_axioms])
     (simp add: unit_inv_def unit_state_new_def, rule unit_finish_ok)

lemma unit_readable:
  assumes "ascii_is_nfc is_nfc"
  shows "readable (dec_unit is_nfc nfc) (unit_ok is_nfc) (unit_bytes is_nfc nfc)"
  unfolding dec_unit_def
  by (rule record_readable [OF unit_reader.reader_axioms [unfolded dec_unit_def] unit_map.record_map_axioms
        unit_bytes_puts unit_puts_ok [OF assms]])
     (assumption, simp add: unit_puts_def, simp add: unit_ok_def, erule unit_finish_puts)

subsection \<open>Attestations\<close>

record attestation_state =
  as_uid :: "uid option"
  as_agent :: "string option"
  as_hop :: u32
  as_parents :: "uid list"
  as_ts :: "hlc option"
  as_op :: "op_kind option"
  as_recipe :: "digest option"
  as_sig :: "bytes option"
  as_rung :: "rung option"
  as_family :: "digest option"

definition attestation_state_new :: attestation_state where
  "attestation_state_new =
     \<lparr>as_uid = None, as_agent = None, as_hop = 0, as_parents = [], as_ts = None, as_op = None,
      as_recipe = None, as_sig = None, as_rung = None, as_family = None\<rparr>"

definition attestation_handler :: "(string \<Rightarrow> bool) \<Rightarrow> nat \<Rightarrow> attestation_state handler" where
  "attestation_handler is_nfc at s k d =
     (if k = 0 then field d_uid (\<lambda>v st. st\<lparr>as_uid := Some v\<rparr>) s d
      else if k = 1 then field (d_parsed is_nfc at agent_new) (\<lambda>v st. st\<lparr>as_agent := Some v\<rparr>) s d
      else if k = 2 then field (d_u32 at) (\<lambda>v st. st\<lparr>as_hop := v\<rparr>) s d
      else if k = 3 then field d_uid_set (\<lambda>v st. st\<lparr>as_parents := v\<rparr>) s d
      else if k = 4 then field (dec_hlc is_nfc) (\<lambda>v st. st\<lparr>as_ts := Some v\<rparr>) s d
      else if k = 5 then field (d_u8 at) (\<lambda>c st. st\<lparr>as_op := op_kind_from_u8 c\<rparr>) s d
      else if k = 6 then field d_digest (\<lambda>v st. st\<lparr>as_recipe := Some v\<rparr>) s d
      else if k = 7 then field d_bytes (\<lambda>v st. st\<lparr>as_sig := Some v\<rparr>) s d
      else if k = 8 then field (d_u8 at) (\<lambda>c st. st\<lparr>as_rung := rung_from_u8 c\<rparr>) s d
      else if k = 9 then field d_digest (\<lambda>v st. st\<lparr>as_family := Some v\<rparr>) s d
      else pass s d)"

definition attestation_bytes :: "(string \<Rightarrow> bool) \<Rightarrow> (string \<Rightarrow> string) \<Rightarrow> attestation \<Rightarrow> bytes" where
  "attestation_bytes is_nfc nfc a =
     mb_into_bytes (mb_put_extra (at_extra a)
       (mb_put_opt 9 (at_family a) enc_bytes
       (mb_put 8 (enc_u8 (rung_as_u8 (at_rung a)))
       (mb_put_opt 7 (at_sig a) enc_bytes
       (mb_put_opt 6 (at_recipe a) enc_bytes
       (mb_put 5 (enc_u8 (op_kind_as_u8 (at_op a)))
       (mb_put 4 (enc_hlc is_nfc nfc (at_ts a))
       (mb_put_uid_set 3 (at_parents a)
       (mb_put 2 (enc_u32 (at_hop a))
       (mb_put 1 (enc_text is_nfc nfc (at_agent a))
       (mb_put 0 (enc_uid (at_uid a)) [])))))))))))"

definition attestation_finish :: "attestation_state \<Rightarrow> extra_fields \<Rightarrow> attestation option" where
  "attestation_finish s extra =
     (case (as_uid s, as_agent s, as_ts s, as_op s, as_rung s) of
        (Some u, Some a, Some t, Some p, Some r) \<Rightarrow>
          Some \<lparr>at_uid = u, at_agent = a, at_hop = as_hop s, at_parents = as_parents s, at_ts = t, at_op = p,
                at_rung = r, at_recipe = as_recipe s, at_family = as_family s, at_sig = as_sig s, at_extra = extra\<rparr>
      | _ \<Rightarrow> None)"

definition dec_attestation :: "(string \<Rightarrow> bool) \<Rightarrow> (string \<Rightarrow> string) \<Rightarrow> dec \<Rightarrow> codec_error + attestation \<times> dec" where
  "dec_attestation is_nfc nfc = dec_record is_nfc (attestation_handler is_nfc) attestation_state_new attestation_finish"

definition attestation_ok :: "(string \<Rightarrow> bool) \<Rightarrow> attestation \<Rightarrow> bool" where
  "attestation_ok is_nfc a \<longleftrightarrow>
     uid_ok (at_uid a) \<and> agent_ok is_nfc (at_agent a) \<and>
     uid_set_ok (at_parents a) \<and> hlc_ok is_nfc (at_ts a) \<and>
     pred_option digest_ok (at_recipe a) \<and> pred_option bytes_ok (at_sig a) \<and>
     pred_option digest_ok (at_family a) \<and> extra_ok 9 is_nfc (at_extra a)"

definition attestation_inv :: "(string \<Rightarrow> bool) \<Rightarrow> attestation_state \<Rightarrow> bool" where
  "attestation_inv is_nfc st \<longleftrightarrow>
     pred_option uid_ok (as_uid st) \<and> pred_option (agent_ok is_nfc) (as_agent st) \<and>
     uid_set_ok (as_parents st) \<and> pred_option (hlc_ok is_nfc) (as_ts st) \<and>
     pred_option digest_ok (as_recipe st) \<and> pred_option bytes_ok (as_sig st) \<and>
     pred_option digest_ok (as_family st)"

interpretation attestation_map: record_map "attestation_handler is_nfc at" 9 "attestation_inv is_nfc" for is_nfc at
proof
  fix k d s
  assume "9 < (k :: u16)"
  then show "attestation_handler is_nfc at s k d = Inr ((False, s), d)"
    by (auto simp: attestation_handler_def pass_def)
next
  fix s k d b s' d'
  assume "attestation_handler is_nfc at s k d = Inr ((b, s'), d')" "buf_ok d" "attestation_inv is_nfc s"
  then show "(b \<longleftrightarrow> k \<le> 9) \<and> attestation_inv is_nfc s' \<and> moves d d'"
    by (auto simp: attestation_handler_def attestation_inv_def key_le_step split: if_splits
        dest!: uid_item.field_ok agent_item.field_ok u32_item.field_ok uid_set_item.field_ok
          hlc_item.field_ok u8_item.field_ok digest_item.field_ok bytes_item.field_ok)
qed

definition attestation_puts :: "(string \<Rightarrow> bool) \<Rightarrow> (string \<Rightarrow> string) \<Rightarrow> attestation \<Rightarrow> attestation_state put list" where
  "attestation_puts is_nfc nfc a =
     [must 0 (enc_uid (at_uid a)) (\<lambda>st. st\<lparr>as_uid := Some (at_uid a)\<rparr>),
      must 1 (enc_text is_nfc nfc (at_agent a)) (\<lambda>st. st\<lparr>as_agent := Some (at_agent a)\<rparr>),
      must 2 (enc_u32 (at_hop a)) (\<lambda>st. st\<lparr>as_hop := at_hop a\<rparr>),
      unless_nil 3 (at_parents a) (enc_uid_set (at_parents a)) (\<lambda>v st. st\<lparr>as_parents := v\<rparr>),
      must 4 (enc_hlc is_nfc nfc (at_ts a)) (\<lambda>st. st\<lparr>as_ts := Some (at_ts a)\<rparr>),
      must 5 (enc_u8 (op_kind_as_u8 (at_op a))) (\<lambda>st. st\<lparr>as_op := op_kind_from_u8 (op_kind_as_u8 (at_op a))\<rparr>),
      may 6 (at_recipe a) enc_bytes (\<lambda>v st. st\<lparr>as_recipe := v\<rparr>),
      may 7 (at_sig a) enc_bytes (\<lambda>v st. st\<lparr>as_sig := v\<rparr>),
      must 8 (enc_u8 (rung_as_u8 (at_rung a))) (\<lambda>st. st\<lparr>as_rung := rung_from_u8 (rung_as_u8 (at_rung a))\<rparr>),
      may 9 (at_family a) enc_bytes (\<lambda>v st. st\<lparr>as_family := v\<rparr>)]"

lemma attestation_bytes_puts: "attestation_bytes is_nfc nfc a = enc_map (concat (map put_entry (attestation_puts is_nfc nfc a)) @ at_extra a)"
  by (simp add: attestation_bytes_def mb_puts mb_into_bytes_def mb_put_extra_def attestation_puts_def)

lemma attestation_puts_ok:
  assumes "attestation_ok is_nfc a"
  shows "list_all (put_ok (attestation_handler is_nfc at)) (attestation_puts is_nfc nfc a)"
proof -
  note ok = assms [unfolded attestation_ok_def]
  show ?thesis
    unfolding attestation_puts_def list.pred_inject(2)
    by (intro conjI list.pred_inject(1); (rule uid_item.put_must agent_item.put_must u32_item.put_must
        put_unless_nil [OF uid_set_item.writable_axioms] hlc_item.put_must u8_item.put_must
        digest_item.put_may bytes_item.put_may,
        (simp add: attestation_handler_def; fail), (use ok in \<open>simp; fail\<close>), (use ok in \<open>simp; fail\<close>)))
qed

lemma attestation_puts_run:
  "fold put_run (attestation_puts is_nfc nfc a) attestation_state_new =
    \<lparr>as_uid = Some (at_uid a),
     as_agent = Some (at_agent a),
     as_hop = at_hop a,
     as_parents = at_parents a,
     as_ts = Some (at_ts a),
     as_op = op_kind_from_u8 (op_kind_as_u8 (at_op a)),
     as_recipe = at_recipe a,
     as_sig = at_sig a,
     as_rung = rung_from_u8 (rung_as_u8 (at_rung a)),
     as_family = at_family a\<rparr>"
  by (simp add: attestation_puts_def attestation_state_new_def)

lemma attestation_finish_ok:
  "attestation_inv is_nfc st \<Longrightarrow> extra_ok 9 is_nfc extra \<Longrightarrow> attestation_finish st extra = Some a \<Longrightarrow> attestation_ok is_nfc a"
  by (auto simp: attestation_finish_def attestation_inv_def attestation_ok_def option.pred_set split: if_splits option.splits)

lemma attestation_finish_puts:
  "attestation_ok is_nfc a \<Longrightarrow> attestation_finish (fold put_run (attestation_puts is_nfc nfc a) attestation_state_new) (at_extra a) = Some a"
  unfolding attestation_puts_run by (cases a) (auto simp: attestation_finish_def attestation_ok_def op_kind_from_as rung_from_as split: if_splits option.splits)

interpretation attestation_reader: reader "dec_attestation is_nfc nfc" "attestation_ok is_nfc" for is_nfc nfc
  unfolding dec_attestation_def
  by (rule record_reader [OF attestation_map.record_map_axioms])
     (simp add: attestation_inv_def attestation_state_new_def, rule attestation_finish_ok)

interpretation attestation_item: readable "dec_attestation is_nfc nfc" "attestation_ok is_nfc" "attestation_bytes is_nfc nfc" for is_nfc nfc
  unfolding dec_attestation_def
  by (rule record_readable [OF attestation_reader.reader_axioms [unfolded dec_attestation_def] attestation_map.record_map_axioms
        attestation_bytes_puts attestation_puts_ok])
     (assumption, simp add: attestation_puts_def, simp add: attestation_ok_def, erule attestation_finish_puts)

subsection \<open>Relations\<close>

record relation_state =
  re_kind :: "rel_kind option"
  re_from :: "uid option"
  re_to :: "uid option"
  re_weight :: "f32 option"
  re_note :: "uid option"

definition relation_state_new :: relation_state where
  "relation_state_new =
     \<lparr>re_kind = None, re_from = None, re_to = None, re_weight = None, re_note = None\<rparr>"

definition relation_handler :: "(string \<Rightarrow> bool) \<Rightarrow> nat \<Rightarrow> relation_state handler" where
  "relation_handler is_nfc at s k d =
     (if k = 0 then field (dec_rel_kind is_nfc) (\<lambda>v st. st\<lparr>re_kind := Some v\<rparr>) s d
      else if k = 1 then field d_uid (\<lambda>v st. st\<lparr>re_from := Some v\<rparr>) s d
      else if k = 2 then field d_uid (\<lambda>v st. st\<lparr>re_to := Some v\<rparr>) s d
      else if k = 3 then field d_f32q (\<lambda>v st. st\<lparr>re_weight := Some v\<rparr>) s d
      else if k = 4 then field d_uid (\<lambda>v st. st\<lparr>re_note := Some v\<rparr>) s d
      else pass s d)"

definition relation_bytes :: "(string \<Rightarrow> bool) \<Rightarrow> (string \<Rightarrow> string) \<Rightarrow> relation \<Rightarrow> bytes" where
  "relation_bytes is_nfc nfc r =
     mb_into_bytes (mb_put_extra (rl_extra r)
       (mb_put_opt 4 (rl_note r) enc_uid
       (mb_put_opt 3 (rl_weight r) enc_f32q
       (mb_put 2 (enc_uid (rl_to r))
       (mb_put 1 (enc_uid (rl_from r))
       (mb_put 0 (enc_rel_kind is_nfc nfc (rl_kind r)) []))))))"

definition relation_finish :: "relation_state \<Rightarrow> extra_fields \<Rightarrow> relation option" where
  "relation_finish s extra =
     (case (re_kind s, re_from s, re_to s) of
        (Some k, Some a, Some b) \<Rightarrow>
          Some \<lparr>rl_kind = k, rl_from = a, rl_to = b, rl_weight = re_weight s, rl_note = re_note s,
                rl_attestations = {}, rl_extra = extra\<rparr>
      | _ \<Rightarrow> None)"

definition dec_relation :: "(string \<Rightarrow> bool) \<Rightarrow> (string \<Rightarrow> string) \<Rightarrow> dec \<Rightarrow> codec_error + relation \<times> dec" where
  "dec_relation is_nfc nfc = dec_record is_nfc (relation_handler is_nfc) relation_state_new relation_finish"

definition relation_ok :: "(string \<Rightarrow> bool) \<Rightarrow> relation \<Rightarrow> bool" where
  "relation_ok is_nfc r \<longleftrightarrow>
     rel_kind_ok is_nfc (rl_kind r) \<and> uid_ok (rl_from r) \<and> uid_ok (rl_to r) \<and>
     pred_option is_quantised (rl_weight r) \<and> pred_option uid_ok (rl_note r) \<and>
     extra_ok 4 is_nfc (rl_extra r) \<and> rl_attestations r = {}"

definition relation_inv :: "(string \<Rightarrow> bool) \<Rightarrow> relation_state \<Rightarrow> bool" where
  "relation_inv is_nfc st \<longleftrightarrow>
     pred_option (rel_kind_ok is_nfc) (re_kind st) \<and>
     pred_option uid_ok (re_from st) \<and> pred_option uid_ok (re_to st) \<and>
     pred_option is_quantised (re_weight st) \<and> pred_option uid_ok (re_note st)"

interpretation relation_map: record_map "relation_handler is_nfc at" 4 "relation_inv is_nfc" for is_nfc at
proof
  fix k d s
  assume "4 < (k :: u16)"
  then show "relation_handler is_nfc at s k d = Inr ((False, s), d)"
    by (auto simp: relation_handler_def pass_def)
next
  fix s k d b s' d'
  assume "relation_handler is_nfc at s k d = Inr ((b, s'), d')" "buf_ok d" "relation_inv is_nfc s"
  then show "(b \<longleftrightarrow> k \<le> 4) \<and> relation_inv is_nfc s' \<and> moves d d'"
    by (auto simp: relation_handler_def relation_inv_def key_le_step split: if_splits
        dest!: rel_kind_item.field_ok uid_item.field_ok f32q_item.field_ok)
qed

definition relation_puts :: "(string \<Rightarrow> bool) \<Rightarrow> (string \<Rightarrow> string) \<Rightarrow> relation \<Rightarrow> relation_state put list" where
  "relation_puts is_nfc nfc r =
     [must 0 (enc_rel_kind is_nfc nfc (rl_kind r)) (\<lambda>st. st\<lparr>re_kind := Some (rl_kind r)\<rparr>),
      must 1 (enc_uid (rl_from r)) (\<lambda>st. st\<lparr>re_from := Some (rl_from r)\<rparr>),
      must 2 (enc_uid (rl_to r)) (\<lambda>st. st\<lparr>re_to := Some (rl_to r)\<rparr>),
      may 3 (rl_weight r) enc_f32q (\<lambda>v st. st\<lparr>re_weight := v\<rparr>),
      may 4 (rl_note r) enc_uid (\<lambda>v st. st\<lparr>re_note := v\<rparr>)]"

lemma relation_bytes_puts: "relation_bytes is_nfc nfc r = enc_map (concat (map put_entry (relation_puts is_nfc nfc r)) @ rl_extra r)"
  by (simp add: relation_bytes_def mb_puts mb_into_bytes_def mb_put_extra_def relation_puts_def)

lemma relation_puts_ok:
  assumes "relation_ok is_nfc r"
  shows "list_all (put_ok (relation_handler is_nfc at)) (relation_puts is_nfc nfc r)"
proof -
  note ok = assms [unfolded relation_ok_def]
  show ?thesis
    unfolding relation_puts_def list.pred_inject(2)
    by (intro conjI list.pred_inject(1); (rule rel_kind_item.put_must uid_item.put_must f32q_item.put_may uid_item.put_may,
        (simp add: relation_handler_def; fail), (use ok in \<open>simp; fail\<close>), (use ok in \<open>simp; fail\<close>)))
qed

lemma relation_puts_run:
  "fold put_run (relation_puts is_nfc nfc r) relation_state_new =
    \<lparr>re_kind = Some (rl_kind r),
     re_from = Some (rl_from r),
     re_to = Some (rl_to r),
     re_weight = rl_weight r,
     re_note = rl_note r\<rparr>"
  by (simp add: relation_puts_def relation_state_new_def)

lemma relation_finish_ok:
  "relation_inv is_nfc st \<Longrightarrow> extra_ok 4 is_nfc extra \<Longrightarrow> relation_finish st extra = Some r \<Longrightarrow> relation_ok is_nfc r"
  by (auto simp: relation_finish_def relation_inv_def relation_ok_def option.pred_set split: if_splits option.splits)

lemma relation_finish_puts:
  "relation_ok is_nfc r \<Longrightarrow> relation_finish (fold put_run (relation_puts is_nfc nfc r) relation_state_new) (rl_extra r) = Some r"
  unfolding relation_puts_run by (cases r) (auto simp: relation_finish_def relation_ok_def split: if_splits option.splits)

interpretation relation_reader: reader "dec_relation is_nfc nfc" "relation_ok is_nfc" for is_nfc nfc
  unfolding dec_relation_def
  by (rule record_reader [OF relation_map.record_map_axioms])
     (simp add: relation_inv_def relation_state_new_def, rule relation_finish_ok)

interpretation relation_item: readable "dec_relation is_nfc nfc" "relation_ok is_nfc" "relation_bytes is_nfc nfc" for is_nfc nfc
  unfolding dec_relation_def
  by (rule record_readable [OF relation_reader.reader_axioms [unfolded dec_relation_def] relation_map.record_map_axioms
        relation_bytes_puts relation_puts_ok])
     (assumption, simp add: relation_puts_def, simp add: relation_ok_def, erule relation_finish_puts)

subsection \<open>Label bindings\<close>

record label_binding_state =
  ls_label :: "string option"
  ls_uid :: "uid option"

definition label_binding_state_new :: label_binding_state where
  "label_binding_state_new =
     \<lparr>ls_label = None, ls_uid = None\<rparr>"

definition label_binding_handler :: "(string \<Rightarrow> bool) \<Rightarrow> nat \<Rightarrow> label_binding_state handler" where
  "label_binding_handler is_nfc at s k d =
     (if k = 0 then field (d_parsed is_nfc at (label_new ''label'')) (\<lambda>v st. st\<lparr>ls_label := Some v\<rparr>) s d
      else if k = 1 then field d_uid (\<lambda>v st. st\<lparr>ls_uid := Some v\<rparr>) s d
      else pass s d)"

definition label_binding_bytes :: "(string \<Rightarrow> bool) \<Rightarrow> (string \<Rightarrow> string) \<Rightarrow> label_binding \<Rightarrow> bytes" where
  "label_binding_bytes is_nfc nfc b =
     mb_into_bytes (mb_put_extra (lb_extra b)
       (mb_put 1 (enc_uid (lb_uid b))
       (mb_put 0 (enc_text is_nfc nfc (lb_label b)) [])))"

definition label_binding_finish :: "label_binding_state \<Rightarrow> extra_fields \<Rightarrow> label_binding option" where
  "label_binding_finish s extra =
     (case (ls_label s, ls_uid s) of
        (Some l, Some u) \<Rightarrow>
          Some \<lparr>lb_label = l, lb_uid = u, lb_extra = extra\<rparr>
      | _ \<Rightarrow> None)"

definition dec_label_binding :: "(string \<Rightarrow> bool) \<Rightarrow> (string \<Rightarrow> string) \<Rightarrow> dec \<Rightarrow> codec_error + label_binding \<times> dec" where
  "dec_label_binding is_nfc nfc = dec_record is_nfc (label_binding_handler is_nfc) label_binding_state_new label_binding_finish"

definition label_binding_ok :: "(string \<Rightarrow> bool) \<Rightarrow> label_binding \<Rightarrow> bool" where
  "label_binding_ok is_nfc b \<longleftrightarrow>
     label_ok ''label'' is_nfc (lb_label b) \<and> uid_ok (lb_uid b) \<and>
     extra_ok 1 is_nfc (lb_extra b)"

definition label_binding_inv :: "(string \<Rightarrow> bool) \<Rightarrow> label_binding_state \<Rightarrow> bool" where
  "label_binding_inv is_nfc st \<longleftrightarrow>
     pred_option (label_ok ''label'' is_nfc) (ls_label st) \<and> pred_option uid_ok (ls_uid st)"

interpretation label_binding_map: record_map "label_binding_handler is_nfc at" 1 "label_binding_inv is_nfc" for is_nfc at
proof
  fix k d s
  assume "1 < (k :: u16)"
  then show "label_binding_handler is_nfc at s k d = Inr ((False, s), d)"
    by (auto simp: label_binding_handler_def pass_def)
next
  fix s k d b s' d'
  assume "label_binding_handler is_nfc at s k d = Inr ((b, s'), d')" "buf_ok d" "label_binding_inv is_nfc s"
  then show "(b \<longleftrightarrow> k \<le> 1) \<and> label_binding_inv is_nfc s' \<and> moves d d'"
    by (auto simp: label_binding_handler_def label_binding_inv_def key_le_step split: if_splits
        dest!: label_item.field_ok uid_item.field_ok)
qed

definition label_binding_puts :: "(string \<Rightarrow> bool) \<Rightarrow> (string \<Rightarrow> string) \<Rightarrow> label_binding \<Rightarrow> label_binding_state put list" where
  "label_binding_puts is_nfc nfc b =
     [must 0 (enc_text is_nfc nfc (lb_label b)) (\<lambda>st. st\<lparr>ls_label := Some (lb_label b)\<rparr>),
      must 1 (enc_uid (lb_uid b)) (\<lambda>st. st\<lparr>ls_uid := Some (lb_uid b)\<rparr>)]"

lemma label_binding_bytes_puts: "label_binding_bytes is_nfc nfc b = enc_map (concat (map put_entry (label_binding_puts is_nfc nfc b)) @ lb_extra b)"
  by (simp add: label_binding_bytes_def mb_puts mb_into_bytes_def mb_put_extra_def label_binding_puts_def)

lemma label_binding_puts_ok:
  assumes "label_binding_ok is_nfc b"
  shows "list_all (put_ok (label_binding_handler is_nfc at)) (label_binding_puts is_nfc nfc b)"
proof -
  note ok = assms [unfolded label_binding_ok_def]
  show ?thesis
    unfolding label_binding_puts_def list.pred_inject(2)
    by (intro conjI list.pred_inject(1); (rule label_item.put_must uid_item.put_must,
        (simp add: label_binding_handler_def; fail), (use ok in \<open>simp; fail\<close>), (use ok in \<open>simp; fail\<close>)))
qed

lemma label_binding_puts_run:
  "fold put_run (label_binding_puts is_nfc nfc b) label_binding_state_new =
    \<lparr>ls_label = Some (lb_label b),
     ls_uid = Some (lb_uid b)\<rparr>"
  by (simp add: label_binding_puts_def label_binding_state_new_def)

lemma label_binding_finish_ok:
  "label_binding_inv is_nfc st \<Longrightarrow> extra_ok 1 is_nfc extra \<Longrightarrow> label_binding_finish st extra = Some b \<Longrightarrow> label_binding_ok is_nfc b"
  by (auto simp: label_binding_finish_def label_binding_inv_def label_binding_ok_def option.pred_set split: if_splits option.splits)

lemma label_binding_finish_puts:
  "label_binding_ok is_nfc b \<Longrightarrow> label_binding_finish (fold put_run (label_binding_puts is_nfc nfc b) label_binding_state_new) (lb_extra b) = Some b"
  unfolding label_binding_puts_run by (cases b) (auto simp: label_binding_finish_def label_binding_ok_def split: if_splits option.splits)

interpretation label_binding_reader: reader "dec_label_binding is_nfc nfc" "label_binding_ok is_nfc" for is_nfc nfc
  unfolding dec_label_binding_def
  by (rule record_reader [OF label_binding_map.record_map_axioms])
     (simp add: label_binding_inv_def label_binding_state_new_def, rule label_binding_finish_ok)

interpretation label_binding_item: readable "dec_label_binding is_nfc nfc" "label_binding_ok is_nfc" "label_binding_bytes is_nfc nfc" for is_nfc nfc
  unfolding dec_label_binding_def
  by (rule record_readable [OF label_binding_reader.reader_axioms [unfolded dec_label_binding_def] label_binding_map.record_map_axioms
        label_binding_bytes_puts label_binding_puts_ok])
     (assumption, simp add: label_binding_puts_def, simp add: label_binding_ok_def, erule label_binding_finish_puts)

subsection \<open>Withdrawals\<close>

record withdrawal_state =
  ws_relation :: "uid option"
  ws_agent :: "string option"
  ws_ts :: "hlc option"
  ws_reason :: "uid option"

definition withdrawal_state_new :: withdrawal_state where
  "withdrawal_state_new =
     \<lparr>ws_relation = None, ws_agent = None, ws_ts = None, ws_reason = None\<rparr>"

definition withdrawal_handler :: "(string \<Rightarrow> bool) \<Rightarrow> nat \<Rightarrow> withdrawal_state handler" where
  "withdrawal_handler is_nfc at s k d =
     (if k = 0 then field d_uid (\<lambda>v st. st\<lparr>ws_relation := Some v\<rparr>) s d
      else if k = 1 then field (d_parsed is_nfc at agent_new) (\<lambda>v st. st\<lparr>ws_agent := Some v\<rparr>) s d
      else if k = 2 then field (dec_hlc is_nfc) (\<lambda>v st. st\<lparr>ws_ts := Some v\<rparr>) s d
      else if k = 3 then field d_uid (\<lambda>v st. st\<lparr>ws_reason := Some v\<rparr>) s d
      else pass s d)"

definition withdrawal_bytes :: "(string \<Rightarrow> bool) \<Rightarrow> (string \<Rightarrow> string) \<Rightarrow> withdrawal \<Rightarrow> bytes" where
  "withdrawal_bytes is_nfc nfc w =
     mb_into_bytes (mb_put_extra (wd_extra w)
       (mb_put_opt 3 (wd_reason w) enc_uid
       (mb_put 2 (enc_hlc is_nfc nfc (wd_ts w))
       (mb_put 1 (enc_text is_nfc nfc (wd_agent w))
       (mb_put 0 (enc_uid (wd_relation w)) [])))))"

definition withdrawal_finish :: "withdrawal_state \<Rightarrow> extra_fields \<Rightarrow> withdrawal option" where
  "withdrawal_finish s extra =
     (case (ws_relation s, ws_agent s, ws_ts s) of
        (Some r, Some a, Some t) \<Rightarrow>
          Some \<lparr>wd_relation = r, wd_agent = a, wd_ts = t, wd_reason = ws_reason s, wd_extra = extra\<rparr>
      | _ \<Rightarrow> None)"

definition dec_withdrawal :: "(string \<Rightarrow> bool) \<Rightarrow> (string \<Rightarrow> string) \<Rightarrow> dec \<Rightarrow> codec_error + withdrawal \<times> dec" where
  "dec_withdrawal is_nfc nfc = dec_record is_nfc (withdrawal_handler is_nfc) withdrawal_state_new withdrawal_finish"

definition withdrawal_ok :: "(string \<Rightarrow> bool) \<Rightarrow> withdrawal \<Rightarrow> bool" where
  "withdrawal_ok is_nfc w \<longleftrightarrow>
     uid_ok (wd_relation w) \<and> agent_ok is_nfc (wd_agent w) \<and>
     hlc_ok is_nfc (wd_ts w) \<and> pred_option uid_ok (wd_reason w) \<and>
     extra_ok 3 is_nfc (wd_extra w)"

definition withdrawal_inv :: "(string \<Rightarrow> bool) \<Rightarrow> withdrawal_state \<Rightarrow> bool" where
  "withdrawal_inv is_nfc st \<longleftrightarrow>
     pred_option uid_ok (ws_relation st) \<and>
     pred_option (agent_ok is_nfc) (ws_agent st) \<and>
     pred_option (hlc_ok is_nfc) (ws_ts st) \<and> pred_option uid_ok (ws_reason st)"

interpretation withdrawal_map: record_map "withdrawal_handler is_nfc at" 3 "withdrawal_inv is_nfc" for is_nfc at
proof
  fix k d s
  assume "3 < (k :: u16)"
  then show "withdrawal_handler is_nfc at s k d = Inr ((False, s), d)"
    by (auto simp: withdrawal_handler_def pass_def)
next
  fix s k d b s' d'
  assume "withdrawal_handler is_nfc at s k d = Inr ((b, s'), d')" "buf_ok d" "withdrawal_inv is_nfc s"
  then show "(b \<longleftrightarrow> k \<le> 3) \<and> withdrawal_inv is_nfc s' \<and> moves d d'"
    by (auto simp: withdrawal_handler_def withdrawal_inv_def key_le_step split: if_splits
        dest!: uid_item.field_ok agent_item.field_ok hlc_item.field_ok)
qed

definition withdrawal_puts :: "(string \<Rightarrow> bool) \<Rightarrow> (string \<Rightarrow> string) \<Rightarrow> withdrawal \<Rightarrow> withdrawal_state put list" where
  "withdrawal_puts is_nfc nfc w =
     [must 0 (enc_uid (wd_relation w)) (\<lambda>st. st\<lparr>ws_relation := Some (wd_relation w)\<rparr>),
      must 1 (enc_text is_nfc nfc (wd_agent w)) (\<lambda>st. st\<lparr>ws_agent := Some (wd_agent w)\<rparr>),
      must 2 (enc_hlc is_nfc nfc (wd_ts w)) (\<lambda>st. st\<lparr>ws_ts := Some (wd_ts w)\<rparr>),
      may 3 (wd_reason w) enc_uid (\<lambda>v st. st\<lparr>ws_reason := v\<rparr>)]"

lemma withdrawal_bytes_puts: "withdrawal_bytes is_nfc nfc w = enc_map (concat (map put_entry (withdrawal_puts is_nfc nfc w)) @ wd_extra w)"
  by (simp add: withdrawal_bytes_def mb_puts mb_into_bytes_def mb_put_extra_def withdrawal_puts_def)

lemma withdrawal_puts_ok:
  assumes "withdrawal_ok is_nfc w"
  shows "list_all (put_ok (withdrawal_handler is_nfc at)) (withdrawal_puts is_nfc nfc w)"
proof -
  note ok = assms [unfolded withdrawal_ok_def]
  show ?thesis
    unfolding withdrawal_puts_def list.pred_inject(2)
    by (intro conjI list.pred_inject(1); (rule uid_item.put_must agent_item.put_must hlc_item.put_must uid_item.put_may,
        (simp add: withdrawal_handler_def; fail), (use ok in \<open>simp; fail\<close>), (use ok in \<open>simp; fail\<close>)))
qed

lemma withdrawal_puts_run:
  "fold put_run (withdrawal_puts is_nfc nfc w) withdrawal_state_new =
    \<lparr>ws_relation = Some (wd_relation w),
     ws_agent = Some (wd_agent w),
     ws_ts = Some (wd_ts w),
     ws_reason = wd_reason w\<rparr>"
  by (simp add: withdrawal_puts_def withdrawal_state_new_def)

lemma withdrawal_finish_ok:
  "withdrawal_inv is_nfc st \<Longrightarrow> extra_ok 3 is_nfc extra \<Longrightarrow> withdrawal_finish st extra = Some w \<Longrightarrow> withdrawal_ok is_nfc w"
  by (auto simp: withdrawal_finish_def withdrawal_inv_def withdrawal_ok_def option.pred_set split: if_splits option.splits)

lemma withdrawal_finish_puts:
  "withdrawal_ok is_nfc w \<Longrightarrow> withdrawal_finish (fold put_run (withdrawal_puts is_nfc nfc w) withdrawal_state_new) (wd_extra w) = Some w"
  unfolding withdrawal_puts_run by (cases w) (auto simp: withdrawal_finish_def withdrawal_ok_def split: if_splits option.splits)

interpretation withdrawal_reader: reader "dec_withdrawal is_nfc nfc" "withdrawal_ok is_nfc" for is_nfc nfc
  unfolding dec_withdrawal_def
  by (rule record_reader [OF withdrawal_map.record_map_axioms])
     (simp add: withdrawal_inv_def withdrawal_state_new_def, rule withdrawal_finish_ok)

interpretation withdrawal_item: readable "dec_withdrawal is_nfc nfc" "withdrawal_ok is_nfc" "withdrawal_bytes is_nfc nfc" for is_nfc nfc
  unfolding dec_withdrawal_def
  by (rule record_readable [OF withdrawal_reader.reader_axioms [unfolded dec_withdrawal_def] withdrawal_map.record_map_axioms
        withdrawal_bytes_puts withdrawal_puts_ok])
     (assumption, simp add: withdrawal_puts_def, simp add: withdrawal_ok_def, erule withdrawal_finish_puts)

subsection \<open>Commitments\<close>

definition enc_commitment :: "commitment \<Rightarrow> bytes" where
  "enc_commitment x = enc_u8 (commitment_as_u8 x)"

interpretation commitment_item: item_codec "d_code at commitment_from_u8" enc_commitment "\<lambda>_. True" for at
  unfolding enc_commitment_def by (rule commitment_code.code_codec)

lemma enc_commitment_not_null [simp]: "not_null (enc_commitment x)"
  by (simp add: enc_commitment_def)

record commit_state =
  cs_unit :: "uid option"
  cs_level :: "commitment option"
  cs_agent :: "string option"
  cs_ts :: "hlc option"
  cs_note :: "uid option"

definition commit_state_new :: commit_state where
  "commit_state_new =
     \<lparr>cs_unit = None, cs_level = None, cs_agent = None, cs_ts = None, cs_note = None\<rparr>"

definition commit_handler :: "(string \<Rightarrow> bool) \<Rightarrow> nat \<Rightarrow> commit_state handler" where
  "commit_handler is_nfc at s k d =
     (if k = 0 then field d_uid (\<lambda>v st. st\<lparr>cs_unit := Some v\<rparr>) s d
      else if k = 1 then field (d_code at commitment_from_u8) (\<lambda>v st. st\<lparr>cs_level := Some v\<rparr>) s d
      else if k = 2 then field (d_parsed is_nfc at agent_new) (\<lambda>v st. st\<lparr>cs_agent := Some v\<rparr>) s d
      else if k = 3 then field (dec_hlc is_nfc) (\<lambda>v st. st\<lparr>cs_ts := Some v\<rparr>) s d
      else if k = 4 then field d_uid (\<lambda>v st. st\<lparr>cs_note := Some v\<rparr>) s d
      else pass s d)"

definition commit_bytes :: "(string \<Rightarrow> bool) \<Rightarrow> (string \<Rightarrow> string) \<Rightarrow> commit \<Rightarrow> bytes" where
  "commit_bytes is_nfc nfc c =
     mb_into_bytes (mb_put_extra (cm_extra c)
       (mb_put_opt 4 (cm_note c) enc_uid
       (mb_put 3 (enc_hlc is_nfc nfc (cm_ts c))
       (mb_put 2 (enc_text is_nfc nfc (cm_agent c))
       (mb_put 1 (enc_commitment (cm_level c))
       (mb_put 0 (enc_uid (cm_unit c)) []))))))"

definition commit_finish :: "commit_state \<Rightarrow> extra_fields \<Rightarrow> commit option" where
  "commit_finish s extra =
     (case (cs_unit s, cs_level s, cs_agent s, cs_ts s) of
        (Some u, Some l, Some a, Some t) \<Rightarrow>
          Some \<lparr>cm_unit = u, cm_level = l, cm_agent = a, cm_ts = t, cm_note = cs_note s, cm_extra = extra\<rparr>
      | _ \<Rightarrow> None)"

definition dec_commit :: "(string \<Rightarrow> bool) \<Rightarrow> (string \<Rightarrow> string) \<Rightarrow> dec \<Rightarrow> codec_error + commit \<times> dec" where
  "dec_commit is_nfc nfc = dec_record is_nfc (commit_handler is_nfc) commit_state_new commit_finish"

definition commit_ok :: "(string \<Rightarrow> bool) \<Rightarrow> commit \<Rightarrow> bool" where
  "commit_ok is_nfc c \<longleftrightarrow>
     uid_ok (cm_unit c) \<and> agent_ok is_nfc (cm_agent c) \<and>
     hlc_ok is_nfc (cm_ts c) \<and> pred_option uid_ok (cm_note c) \<and>
     extra_ok 4 is_nfc (cm_extra c)"

definition commit_inv :: "(string \<Rightarrow> bool) \<Rightarrow> commit_state \<Rightarrow> bool" where
  "commit_inv is_nfc st \<longleftrightarrow>
     pred_option uid_ok (cs_unit st) \<and> pred_option (agent_ok is_nfc) (cs_agent st) \<and>
     pred_option (hlc_ok is_nfc) (cs_ts st) \<and> pred_option uid_ok (cs_note st)"

interpretation commit_map: record_map "commit_handler is_nfc at" 4 "commit_inv is_nfc" for is_nfc at
proof
  fix k d s
  assume "4 < (k :: u16)"
  then show "commit_handler is_nfc at s k d = Inr ((False, s), d)"
    by (auto simp: commit_handler_def pass_def)
next
  fix s k d b s' d'
  assume "commit_handler is_nfc at s k d = Inr ((b, s'), d')" "buf_ok d" "commit_inv is_nfc s"
  then show "(b \<longleftrightarrow> k \<le> 4) \<and> commit_inv is_nfc s' \<and> moves d d'"
    by (auto simp: commit_handler_def commit_inv_def key_le_step split: if_splits
        dest!: uid_item.field_ok commitment_item.field_ok agent_item.field_ok hlc_item.field_ok)
qed

definition commit_puts :: "(string \<Rightarrow> bool) \<Rightarrow> (string \<Rightarrow> string) \<Rightarrow> commit \<Rightarrow> commit_state put list" where
  "commit_puts is_nfc nfc c =
     [must 0 (enc_uid (cm_unit c)) (\<lambda>st. st\<lparr>cs_unit := Some (cm_unit c)\<rparr>),
      must 1 (enc_commitment (cm_level c)) (\<lambda>st. st\<lparr>cs_level := Some (cm_level c)\<rparr>),
      must 2 (enc_text is_nfc nfc (cm_agent c)) (\<lambda>st. st\<lparr>cs_agent := Some (cm_agent c)\<rparr>),
      must 3 (enc_hlc is_nfc nfc (cm_ts c)) (\<lambda>st. st\<lparr>cs_ts := Some (cm_ts c)\<rparr>),
      may 4 (cm_note c) enc_uid (\<lambda>v st. st\<lparr>cs_note := v\<rparr>)]"

lemma commit_bytes_puts: "commit_bytes is_nfc nfc c = enc_map (concat (map put_entry (commit_puts is_nfc nfc c)) @ cm_extra c)"
  by (simp add: commit_bytes_def mb_puts mb_into_bytes_def mb_put_extra_def commit_puts_def)

lemma commit_puts_ok:
  assumes "commit_ok is_nfc c"
  shows "list_all (put_ok (commit_handler is_nfc at)) (commit_puts is_nfc nfc c)"
proof -
  note ok = assms [unfolded commit_ok_def]
  show ?thesis
    unfolding commit_puts_def list.pred_inject(2)
    by (intro conjI list.pred_inject(1); (rule uid_item.put_must commitment_item.put_must agent_item.put_must hlc_item.put_must
        uid_item.put_may,
        (simp add: commit_handler_def; fail), (use ok in \<open>simp; fail\<close>), (use ok in \<open>simp; fail\<close>)))
qed

lemma commit_puts_run:
  "fold put_run (commit_puts is_nfc nfc c) commit_state_new =
    \<lparr>cs_unit = Some (cm_unit c),
     cs_level = Some (cm_level c),
     cs_agent = Some (cm_agent c),
     cs_ts = Some (cm_ts c),
     cs_note = cm_note c\<rparr>"
  by (simp add: commit_puts_def commit_state_new_def)

lemma commit_finish_ok:
  "commit_inv is_nfc st \<Longrightarrow> extra_ok 4 is_nfc extra \<Longrightarrow> commit_finish st extra = Some c \<Longrightarrow> commit_ok is_nfc c"
  by (auto simp: commit_finish_def commit_inv_def commit_ok_def option.pred_set split: if_splits option.splits)

lemma commit_finish_puts:
  "commit_ok is_nfc c \<Longrightarrow> commit_finish (fold put_run (commit_puts is_nfc nfc c) commit_state_new) (cm_extra c) = Some c"
  unfolding commit_puts_run by (cases c) (auto simp: commit_finish_def commit_ok_def split: if_splits option.splits)

interpretation commit_reader: reader "dec_commit is_nfc nfc" "commit_ok is_nfc" for is_nfc nfc
  unfolding dec_commit_def
  by (rule record_reader [OF commit_map.record_map_axioms])
     (simp add: commit_inv_def commit_state_new_def, rule commit_finish_ok)

interpretation commit_item: readable "dec_commit is_nfc nfc" "commit_ok is_nfc" "commit_bytes is_nfc nfc" for is_nfc nfc
  unfolding dec_commit_def
  by (rule record_readable [OF commit_reader.reader_axioms [unfolded dec_commit_def] commit_map.record_map_axioms
        commit_bytes_puts commit_puts_ok])
     (assumption, simp add: commit_puts_def, simp add: commit_ok_def, erule commit_finish_puts)

subsection \<open>Contentions\<close>

abbreviation uids_ok :: "uid list \<Rightarrow> bool" where
  "uids_ok \<equiv> \<lambda>us. list_all uid_ok us \<and> length us < 2 ^ 64"

definition enc_detected :: "(string \<Rightarrow> bool) \<Rightarrow> (string \<Rightarrow> string) \<Rightarrow> detected \<Rightarrow> bytes" where
  "enc_detected is_nfc nfc t = enc_array_head 2 @ enc_u8 (detected_kind_code t) @ enc_hlc is_nfc nfc (dt_ts t)"

definition dec_detected :: "(string \<Rightarrow> bool) \<Rightarrow> dec \<Rightarrow> codec_error + detected \<times> dec" where
  "dec_detected is_nfc d =
     (let bad = MalformedEnvelope (dpos d) in
      and_then (d_array_head d) (\<lambda>(n, d1).
        if n \<noteq> 2 then Inl bad
        else and_then (d_u8 (dpos d) d1) (\<lambda>(c, d2).
             and_then (dec_hlc is_nfc d2) (\<lambda>(ts, d3).
               (case detection_kind_from_u8 c of
                  Some kind \<Rightarrow>
                    if kind = DkUnknown
                    then and_then (ok_or (detected_with_unknown_kind c \<lparr>dt_kind = DkUnknown, dt_ts = ts, dt_kind_code = None\<rparr>) bad)
                           (\<lambda>t. Inr (t, d3))
                    else Inr (\<lparr>dt_kind = kind, dt_ts = ts, dt_kind_code = None\<rparr>, d3)
                | None \<Rightarrow>
                    and_then (ok_or (detected_with_unknown_kind c \<lparr>dt_kind = DkUnknown, dt_ts = ts, dt_kind_code = None\<rparr>) bad)
                      (\<lambda>t. Inr (t, d3)))))))"

definition detected_ok :: "(string \<Rightarrow> bool) \<Rightarrow> detected \<Rightarrow> bool" where
  "detected_ok is_nfc t \<longleftrightarrow> hlc_ok is_nfc (dt_ts t) \<and>
     (if dt_kind t = DkUnknown
      then (\<exists>c. dt_kind_code t = Some c \<and> c \<noteq> 255 \<and> detection_kind_from_u8 c = None)
      else dt_kind_code t = None)"

interpretation detected_item: readable "dec_detected is_nfc" "detected_ok is_nfc" "enc_detected is_nfc nfc" for is_nfc nfc
proof (intro readable.intro reader.intro writable.intro)
  fix d x d'
  assume "dec_detected is_nfc d = Inr (x, d')" "buf_ok d"
  then obtain d1 c d2 ts where heads: "d_array_head d = Inr (2, d1)" "d_u8 (dpos d) d1 = Inr (c, d2)" "dec_hlc is_nfc d2 = Inr (ts, d')"
    and x: "(\<exists>kind. detection_kind_from_u8 c = Some kind \<and> kind \<noteq> DkUnknown \<and>
        x = \<lparr>dt_kind = kind, dt_ts = ts, dt_kind_code = None\<rparr>) \<or>
      detected_with_unknown_kind c \<lparr>dt_kind = DkUnknown, dt_ts = ts, dt_kind_code = None\<rparr> = Some x"
    by (auto simp: dec_detected_def Let_def and_then_Inr_iff split: if_splits option.splits)
  have d1: "moves d d1"
    using heads(1) \<open>buf_ok d\<close> moves_written [of d "enc_array_head 2"] by (simp add: d_array_head_Inr)
  then have d2: "moves d1 d2" using u8_item.reads_ok [OF heads(2)] by blast
  then have "hlc_ok is_nfc ts" "moves d2 d'" using hlc_item.reads_ok [OF heads(3)] by blast+
  with d1 d2 x show "detected_ok is_nfc x \<and> moves d d'"
    by (auto simp: detected_ok_def detected_with_unknown_kind_def split: if_splits option.splits)
next
  fix d x
  assume ok: "detected_ok is_nfc x" and d: "starts d (enc_detected is_nfc nfc x)" "buf_ok d"
  let ?d1 = "d_move d (length (enc_array_head 2))" and ?c = "detected_kind_code x"
  let ?d2 = "d_move ?d1 (length (enc_u8 ?c))"
  have "d_array_head d = Inr (2, ?d1)" "d_u8 (dpos d) ?d1 = Inr (?c, ?d2)"
    "dec_hlc is_nfc ?d2 = Inr (dt_ts x, d_move d (length (enc_detected is_nfc nfc x)))"
    using d ok by (simp_all add: enc_detected_def d_array_head_Inr u8_item.read_iff hlc_item.read_iff [where nfc = nfc] detected_ok_def)
  then show "dec_detected is_nfc d = Inr (x, d_move d (length (enc_detected is_nfc nfc x)))"
    using ok by (cases x) (auto simp: dec_detected_def Let_def detected_ok_def detected_kind_code_def
        detected_with_unknown_kind_def detection_kind_from_as split: if_splits option.splits)
qed

lemma enc_detected_not_null [simp]: "not_null (enc_detected is_nfc nfc t)"
  by (simp add: enc_detected_def enc_array_head_def)

record contention_state =
  ks_id :: "string option"
  ks_over :: "uid option"
  ks_positions :: "uid list"
  ks_detected :: "detected option"
  ks_status :: "contention_status option"

definition contention_state_new :: contention_state where
  "contention_state_new =
     \<lparr>ks_id = None, ks_over = None, ks_positions = [], ks_detected = None, ks_status = None\<rparr>"

definition contention_handler :: "(string \<Rightarrow> bool) \<Rightarrow> nat \<Rightarrow> contention_state handler" where
  "contention_handler is_nfc at s k d =
     (if k = 0 then field (d_parsed is_nfc at (label_new ''contention id'')) (\<lambda>v st. st\<lparr>ks_id := Some v\<rparr>) s d
      else if k = 1 then field d_uid (\<lambda>v st. st\<lparr>ks_over := Some v\<rparr>) s d
      else if k = 2 then field (d_array d_uid) (\<lambda>v st. st\<lparr>ks_positions := v\<rparr>) s d
      else if k = 3 then field (dec_detected is_nfc) (\<lambda>v st. st\<lparr>ks_detected := Some v\<rparr>) s d
      else if k = 4 then field (d_u8 at) (\<lambda>c st. st\<lparr>ks_status := contention_status_from_u8 c\<rparr>) s d
      else pass s d)"

definition contention_bytes :: "(string \<Rightarrow> bool) \<Rightarrow> (string \<Rightarrow> string) \<Rightarrow> contention \<Rightarrow> bytes" where
  "contention_bytes is_nfc nfc c =
     mb_into_bytes (mb_put_extra (ct_extra c)
       (mb_put 4 (enc_u8 (contention_status_as_u8 (ct_status c)))
       (mb_put 3 (enc_detected is_nfc nfc (ct_detected c))
       (mb_put_array 2 (map enc_uid (ct_positions c))
       (mb_put 1 (enc_uid (ct_over c))
       (mb_put 0 (enc_text is_nfc nfc (ct_id c)) []))))))"

definition contention_finish :: "contention_state \<Rightarrow> extra_fields \<Rightarrow> contention option" where
  "contention_finish s extra =
     (case (ks_id s, ks_over s, ks_detected s, ks_status s) of
        (Some i, Some u, Some t, Some c) \<Rightarrow>
          Some \<lparr>ct_id = i, ct_over = u, ct_positions = ks_positions s, ct_detected = t, ct_status = c, ct_extra = extra\<rparr>
      | _ \<Rightarrow> None)"

definition dec_contention :: "(string \<Rightarrow> bool) \<Rightarrow> (string \<Rightarrow> string) \<Rightarrow> dec \<Rightarrow> codec_error + contention \<times> dec" where
  "dec_contention is_nfc nfc = dec_record is_nfc (contention_handler is_nfc) contention_state_new contention_finish"

definition contention_ok :: "(string \<Rightarrow> bool) \<Rightarrow> contention \<Rightarrow> bool" where
  "contention_ok is_nfc c \<longleftrightarrow>
     label_ok ''contention id'' is_nfc (ct_id c) \<and> uid_ok (ct_over c) \<and>
     uids_ok (ct_positions c) \<and> detected_ok is_nfc (ct_detected c) \<and>
     extra_ok 4 is_nfc (ct_extra c)"

definition contention_inv :: "(string \<Rightarrow> bool) \<Rightarrow> contention_state \<Rightarrow> bool" where
  "contention_inv is_nfc st \<longleftrightarrow>
     pred_option (label_ok ''contention id'' is_nfc) (ks_id st) \<and>
     pred_option uid_ok (ks_over st) \<and> uids_ok (ks_positions st) \<and>
     pred_option (detected_ok is_nfc) (ks_detected st)"

interpretation contention_map: record_map "contention_handler is_nfc at" 4 "contention_inv is_nfc" for is_nfc at
proof
  fix k d s
  assume "4 < (k :: u16)"
  then show "contention_handler is_nfc at s k d = Inr ((False, s), d)"
    by (auto simp: contention_handler_def pass_def)
next
  fix s k d b s' d'
  assume "contention_handler is_nfc at s k d = Inr ((b, s'), d')" "buf_ok d" "contention_inv is_nfc s"
  then show "(b \<longleftrightarrow> k \<le> 4) \<and> contention_inv is_nfc s' \<and> moves d d'"
    by (auto simp: contention_handler_def contention_inv_def key_le_step split: if_splits
        dest!: label_item.field_ok uid_item.field_ok uid_array_item.field_ok detected_item.field_ok
          u8_item.field_ok)
qed

definition contention_puts :: "(string \<Rightarrow> bool) \<Rightarrow> (string \<Rightarrow> string) \<Rightarrow> contention \<Rightarrow> contention_state put list" where
  "contention_puts is_nfc nfc c =
     [must 0 (enc_text is_nfc nfc (ct_id c)) (\<lambda>st. st\<lparr>ks_id := Some (ct_id c)\<rparr>),
      must 1 (enc_uid (ct_over c)) (\<lambda>st. st\<lparr>ks_over := Some (ct_over c)\<rparr>),
      unless_nil 2 (ct_positions c) (enc_array (map enc_uid (ct_positions c))) (\<lambda>v st. st\<lparr>ks_positions := v\<rparr>),
      must 3 (enc_detected is_nfc nfc (ct_detected c)) (\<lambda>st. st\<lparr>ks_detected := Some (ct_detected c)\<rparr>),
      must 4 (enc_u8 (contention_status_as_u8 (ct_status c))) (\<lambda>st. st\<lparr>ks_status := contention_status_from_u8 (contention_status_as_u8 (ct_status c))\<rparr>)]"

lemma contention_bytes_puts: "contention_bytes is_nfc nfc c = enc_map (concat (map put_entry (contention_puts is_nfc nfc c)) @ ct_extra c)"
  by (simp add: contention_bytes_def mb_puts mb_into_bytes_def mb_put_extra_def contention_puts_def)

lemma contention_puts_ok:
  assumes "contention_ok is_nfc c"
  shows "list_all (put_ok (contention_handler is_nfc at)) (contention_puts is_nfc nfc c)"
proof -
  note ok = assms [unfolded contention_ok_def]
  show ?thesis
    unfolding contention_puts_def list.pred_inject(2)
    by (intro conjI list.pred_inject(1); (rule label_item.put_must uid_item.put_must
        put_unless_nil [OF uid_array_item.writable_axioms] detected_item.put_must
        u8_item.put_must,
        (simp add: contention_handler_def; fail), (use ok in \<open>simp; fail\<close>), (use ok in \<open>simp; fail\<close>)))
qed

lemma contention_puts_run:
  "fold put_run (contention_puts is_nfc nfc c) contention_state_new =
    \<lparr>ks_id = Some (ct_id c),
     ks_over = Some (ct_over c),
     ks_positions = ct_positions c,
     ks_detected = Some (ct_detected c),
     ks_status = contention_status_from_u8 (contention_status_as_u8 (ct_status c))\<rparr>"
  by (simp add: contention_puts_def contention_state_new_def)

lemma contention_finish_ok:
  "contention_inv is_nfc st \<Longrightarrow> extra_ok 4 is_nfc extra \<Longrightarrow> contention_finish st extra = Some c \<Longrightarrow> contention_ok is_nfc c"
  by (auto simp: contention_finish_def contention_inv_def contention_ok_def option.pred_set split: if_splits option.splits)

lemma contention_finish_puts:
  "contention_ok is_nfc c \<Longrightarrow> contention_finish (fold put_run (contention_puts is_nfc nfc c) contention_state_new) (ct_extra c) = Some c"
  unfolding contention_puts_run by (cases c) (auto simp: contention_finish_def contention_ok_def contention_status_from_as split: if_splits option.splits)

interpretation contention_reader: reader "dec_contention is_nfc nfc" "contention_ok is_nfc" for is_nfc nfc
  unfolding dec_contention_def
  by (rule record_reader [OF contention_map.record_map_axioms])
     (simp add: contention_inv_def contention_state_new_def, rule contention_finish_ok)

interpretation contention_item: readable "dec_contention is_nfc nfc" "contention_ok is_nfc" "contention_bytes is_nfc nfc" for is_nfc nfc
  unfolding dec_contention_def
  by (rule record_readable [OF contention_reader.reader_axioms [unfolded dec_contention_def] contention_map.record_map_axioms
        contention_bytes_puts contention_puts_ok])
     (assumption, simp add: contention_puts_def, simp add: contention_ok_def, erule contention_finish_puts)

subsection \<open>Resolutions\<close>

text \<open>The writer's \<open>match\<close> on the target puts one key or the other.\<close>

definition target_contention :: "resolution_target \<Rightarrow> string option" where
  "target_contention t = (case t of RtContention c \<Rightarrow> Some c | RtRelation _ \<Rightarrow> None)"

definition target_relation :: "resolution_target \<Rightarrow> uid option" where
  "target_relation t = (case t of RtContention _ \<Rightarrow> None | RtRelation r \<Rightarrow> Some r)"

record resolution_state =
  vs_contention :: "string option"
  vs_relation :: "uid option"
  vs_agent :: "string option"
  vs_ts :: "hlc option"
  vs_note :: "uid option"

definition resolution_state_new :: resolution_state where
  "resolution_state_new =
     \<lparr>vs_contention = None, vs_relation = None, vs_agent = None, vs_ts = None, vs_note = None\<rparr>"

definition resolution_handler :: "(string \<Rightarrow> bool) \<Rightarrow> nat \<Rightarrow> resolution_state handler" where
  "resolution_handler is_nfc at s k d =
     (if k = 0 then field (d_parsed is_nfc at (label_new ''contention id'')) (\<lambda>v st. st\<lparr>vs_contention := Some v\<rparr>) s d
      else if k = 1 then field d_uid (\<lambda>v st. st\<lparr>vs_relation := Some v\<rparr>) s d
      else if k = 2 then field (d_parsed is_nfc at agent_new) (\<lambda>v st. st\<lparr>vs_agent := Some v\<rparr>) s d
      else if k = 3 then field (dec_hlc is_nfc) (\<lambda>v st. st\<lparr>vs_ts := Some v\<rparr>) s d
      else if k = 4 then field d_uid (\<lambda>v st. st\<lparr>vs_note := Some v\<rparr>) s d
      else pass s d)"

definition resolution_bytes :: "(string \<Rightarrow> bool) \<Rightarrow> (string \<Rightarrow> string) \<Rightarrow> resolution \<Rightarrow> bytes" where
  "resolution_bytes is_nfc nfc r =
     mb_into_bytes (mb_put_extra (rs_extra r)
       (mb_put_opt 4 (rs_note r) enc_uid
       (mb_put 3 (enc_hlc is_nfc nfc (rs_ts r))
       (mb_put 2 (enc_text is_nfc nfc (rs_agent r))
       (mb_put_opt 1 (target_relation (rs_target r)) enc_uid
       (mb_put_opt 0 (target_contention (rs_target r)) (enc_text is_nfc nfc) []))))))"

definition resolution_build :: "resolution_target \<Rightarrow> resolution_state \<Rightarrow> extra_fields \<Rightarrow> resolution option" where
  "resolution_build target s extra =
     (case (vs_agent s, vs_ts s) of
        (Some a, Some t) \<Rightarrow> Some \<lparr>rs_target = target, rs_agent = a, rs_ts = t, rs_note = vs_note s, rs_extra = extra\<rparr>
      | _ \<Rightarrow> None)"

definition resolution_finish :: "resolution_state \<Rightarrow> extra_fields \<Rightarrow> resolution option" where
  "resolution_finish s extra =
     (case (vs_contention s, vs_relation s) of
        (Some c, None) \<Rightarrow> resolution_build (RtContention c) s extra
      | (None, Some r) \<Rightarrow> resolution_build (RtRelation r) s extra
      | _ \<Rightarrow> None)"

definition dec_resolution :: "(string \<Rightarrow> bool) \<Rightarrow> (string \<Rightarrow> string) \<Rightarrow> dec \<Rightarrow> codec_error + resolution \<times> dec" where
  "dec_resolution is_nfc nfc = dec_record is_nfc (resolution_handler is_nfc) resolution_state_new resolution_finish"

definition resolution_ok :: "(string \<Rightarrow> bool) \<Rightarrow> resolution \<Rightarrow> bool" where
  "resolution_ok is_nfc r \<longleftrightarrow>
     pred_option (label_ok ''contention id'' is_nfc) (target_contention (rs_target r)) \<and>
     pred_option uid_ok (target_relation (rs_target r)) \<and>
     agent_ok is_nfc (rs_agent r) \<and> hlc_ok is_nfc (rs_ts r) \<and>
     pred_option uid_ok (rs_note r) \<and> extra_ok 4 is_nfc (rs_extra r)"

definition resolution_inv :: "(string \<Rightarrow> bool) \<Rightarrow> resolution_state \<Rightarrow> bool" where
  "resolution_inv is_nfc st \<longleftrightarrow>
     pred_option (label_ok ''contention id'' is_nfc) (vs_contention st) \<and>
     pred_option uid_ok (vs_relation st) \<and>
     pred_option (agent_ok is_nfc) (vs_agent st) \<and>
     pred_option (hlc_ok is_nfc) (vs_ts st) \<and> pred_option uid_ok (vs_note st)"

interpretation resolution_map: record_map "resolution_handler is_nfc at" 4 "resolution_inv is_nfc" for is_nfc at
proof
  fix k d s
  assume "4 < (k :: u16)"
  then show "resolution_handler is_nfc at s k d = Inr ((False, s), d)"
    by (auto simp: resolution_handler_def pass_def)
next
  fix s k d b s' d'
  assume "resolution_handler is_nfc at s k d = Inr ((b, s'), d')" "buf_ok d" "resolution_inv is_nfc s"
  then show "(b \<longleftrightarrow> k \<le> 4) \<and> resolution_inv is_nfc s' \<and> moves d d'"
    by (auto simp: resolution_handler_def resolution_inv_def key_le_step split: if_splits
        dest!: label_item.field_ok uid_item.field_ok agent_item.field_ok hlc_item.field_ok)
qed

definition resolution_puts :: "(string \<Rightarrow> bool) \<Rightarrow> (string \<Rightarrow> string) \<Rightarrow> resolution \<Rightarrow> resolution_state put list" where
  "resolution_puts is_nfc nfc r =
     [may 0 (target_contention (rs_target r)) (enc_text is_nfc nfc) (\<lambda>v st. st\<lparr>vs_contention := v\<rparr>),
      may 1 (target_relation (rs_target r)) enc_uid (\<lambda>v st. st\<lparr>vs_relation := v\<rparr>),
      must 2 (enc_text is_nfc nfc (rs_agent r)) (\<lambda>st. st\<lparr>vs_agent := Some (rs_agent r)\<rparr>),
      must 3 (enc_hlc is_nfc nfc (rs_ts r)) (\<lambda>st. st\<lparr>vs_ts := Some (rs_ts r)\<rparr>),
      may 4 (rs_note r) enc_uid (\<lambda>v st. st\<lparr>vs_note := v\<rparr>)]"

lemma resolution_bytes_puts: "resolution_bytes is_nfc nfc r = enc_map (concat (map put_entry (resolution_puts is_nfc nfc r)) @ rs_extra r)"
  by (simp add: resolution_bytes_def mb_puts mb_into_bytes_def mb_put_extra_def resolution_puts_def)

lemma resolution_puts_ok:
  assumes "resolution_ok is_nfc r"
  shows "list_all (put_ok (resolution_handler is_nfc at)) (resolution_puts is_nfc nfc r)"
proof -
  note ok = assms [unfolded resolution_ok_def]
  show ?thesis
    unfolding resolution_puts_def list.pred_inject(2)
    by (intro conjI list.pred_inject(1); (rule label_item.put_may uid_item.put_may agent_item.put_must hlc_item.put_must,
        (simp add: resolution_handler_def; fail), (use ok in \<open>simp; fail\<close>), (use ok in \<open>simp; fail\<close>)))
qed

lemma resolution_puts_run:
  "fold put_run (resolution_puts is_nfc nfc r) resolution_state_new =
    \<lparr>vs_contention = target_contention (rs_target r),
     vs_relation = target_relation (rs_target r),
     vs_agent = Some (rs_agent r),
     vs_ts = Some (rs_ts r),
     vs_note = rs_note r\<rparr>"
  by (simp add: resolution_puts_def resolution_state_new_def)

lemma resolution_finish_ok:
  "resolution_inv is_nfc st \<Longrightarrow> extra_ok 4 is_nfc extra \<Longrightarrow> resolution_finish st extra = Some r \<Longrightarrow> resolution_ok is_nfc r"
  by (auto simp: resolution_finish_def resolution_inv_def resolution_ok_def option.pred_set resolution_build_def target_contention_def target_relation_def split: if_splits option.splits)

lemma resolution_finish_puts:
  "resolution_ok is_nfc r \<Longrightarrow> resolution_finish (fold put_run (resolution_puts is_nfc nfc r) resolution_state_new) (rs_extra r) = Some r"
  unfolding resolution_puts_run by (cases r; cases "rs_target r") (auto simp: resolution_finish_def resolution_ok_def resolution_build_def target_contention_def target_relation_def split: if_splits option.splits)

interpretation resolution_reader: reader "dec_resolution is_nfc nfc" "resolution_ok is_nfc" for is_nfc nfc
  unfolding dec_resolution_def
  by (rule record_reader [OF resolution_map.record_map_axioms])
     (simp add: resolution_inv_def resolution_state_new_def, rule resolution_finish_ok)

interpretation resolution_item: readable "dec_resolution is_nfc nfc" "resolution_ok is_nfc" "resolution_bytes is_nfc nfc" for is_nfc nfc
  unfolding dec_resolution_def
  by (rule record_readable [OF resolution_reader.reader_axioms [unfolded dec_resolution_def] resolution_map.record_map_axioms
        resolution_bytes_puts resolution_puts_ok])
     (assumption, simp add: resolution_puts_def, simp add: resolution_ok_def, erule resolution_finish_puts)

end
