(* ===== verification/Discourse_Codecs.thy ===== *)
theory Discourse_Codecs
  imports Record_Parts Discourse
begin

section \<open>Codecs of threads, views, pack reports and schema declarations (smysl-core/src/cbor/envelope.rs)\<close>

text \<open>
  Laid out as in \<open>Graph_Codecs\<close>. A view nests a granularity profile, whose decoder starts from the
  standard profile and accepts an explicit default estimator that its writer drops: views and
  profiles are \<open>reader\<close>s of more values (\<open>_read_ok\<close>) than they are \<open>writable\<close> for (\<open>_ok\<close>).
\<close>

definition opt_or :: "'a \<Rightarrow> 'a option \<Rightarrow> 'a" where
  "opt_or x v = (case v of None \<Rightarrow> x | Some y \<Rightarrow> y)"

lemma opt_or_simps [simp]: "opt_or x None = x" "opt_or x (Some y) = y"
  by (simp_all add: opt_or_def)

subsection \<open>Threads\<close>

definition enc_step :: "(string \<Rightarrow> bool) \<Rightarrow> (string \<Rightarrow> string) \<Rightarrow> step \<Rightarrow> bytes" where
  "enc_step is_nfc nfc s =
     enc_array_head (if st_note s \<noteq> None then 3 else 2) @ enc_u8 (step_role_code s) @ enc_uid (st_unit s) @
     (case st_note s of None \<Rightarrow> [] | Some n \<Rightarrow> enc_text is_nfc nfc n)"

text \<open>The third element, read only from an array of three.\<close>

definition dec_step_note :: "(string \<Rightarrow> bool) \<Rightarrow> nat \<Rightarrow> dec \<Rightarrow> codec_error + string option \<times> dec" where
  "dec_step_note is_nfc n d =
     (if n = 3 then and_then (d_text is_nfc d) (\<lambda>(t, d'). Inr (Some t, d')) else Inr (None, d))"

definition dec_step :: "(string \<Rightarrow> bool) \<Rightarrow> dec \<Rightarrow> codec_error + step \<times> dec" where
  "dec_step is_nfc d =
     (let bad = MalformedEnvelope (dpos d) in
      and_then (d_array_head d) (\<lambda>(n, d1).
        if \<not> (2 \<le> n \<and> n \<le> 3) then Inl bad
        else and_then (d_u8 (dpos d) d1) (\<lambda>(rc, d2).
             and_then (d_uid d2) (\<lambda>(u, d3).
             and_then (dec_step_note is_nfc n d3) (\<lambda>(note, d4).
               let role = (case role_from_u8 rc of Some r \<Rightarrow> r | None \<Rightarrow> RoUnknown);
                   s = (step_new role u)\<lparr>st_note := note\<rparr> in
               if role = RoUnknown
               then and_then (ok_or (step_with_unknown_role rc s) bad) (\<lambda>s. Inr (s, d4))
               else Inr (s, d4))))))"

definition step_ok :: "(string \<Rightarrow> bool) \<Rightarrow> step \<Rightarrow> bool" where
  "step_ok is_nfc s \<longleftrightarrow> uid_ok (st_unit s) \<and> pred_option (text_ok is_nfc) (st_note s) \<and>
     (if st_role s = RoUnknown
      then (\<exists>c. st_role_code s = Some c \<and> c \<noteq> 255 \<and> role_from_u8 c = None)
      else st_role_code s = None)"

interpretation step_item: readable "dec_step is_nfc" "step_ok is_nfc" "enc_step is_nfc nfc" for is_nfc nfc
proof (intro readable.intro reader.intro writable.intro)
  fix d x d'
  assume "dec_step is_nfc d = Inr (x, d')" "buf_ok d"
  then obtain n d1 rc d2 u d3 nt where heads: "d_array_head d = Inr (n, d1)" "d_u8 (dpos d) d1 = Inr (rc, d2)"
      "d_uid d2 = Inr (u, d3)" "dec_step_note is_nfc n d3 = Inr (nt, d')"
    and x: "(\<exists>r. role_from_u8 rc = Some r \<and> r \<noteq> RoUnknown \<and> x = (step_new r u)\<lparr>st_note := nt\<rparr>) \<or>
      step_with_unknown_role rc ((step_new RoUnknown u)\<lparr>st_note := nt\<rparr>) = Some x"
    by (auto simp: dec_step_def Let_def and_then_Inr_iff split: if_splits option.splits)
  have d1: "moves d d1"
    using heads(1) \<open>buf_ok d\<close> moves_written [of d "enc_array_head n"] by (simp add: d_array_head_Inr)
  then have d2: "moves d1 d2" using u8_item.reads_ok [OF heads(2)] by blast
  then have u: "uid_ok u" "moves d2 d3" using uid_item.reads_ok [OF heads(3)] by blast+
  then have nt: "pred_option (text_ok is_nfc) nt" "moves d3 d'"
    using heads(4) by (auto simp: dec_step_note_def and_then_Inr_iff split: if_splits dest!: text_item.reads_ok)
  then show "step_ok is_nfc x \<and> moves d d'"
    using x u d1 d2 by (auto simp: step_ok_def step_with_unknown_role_def step_new_def split: if_splits)
next
  fix d x
  assume ok: "step_ok is_nfc x" and d: "starts d (enc_step is_nfc nfc x)" "buf_ok d"
  let ?n = "if st_note x \<noteq> None then 3 else 2 :: nat" and ?c = "step_role_code x"
  let ?d1 = "d_move d (length (enc_array_head ?n))"
  let ?d2 = "d_move ?d1 (length (enc_u8 ?c))"
  let ?d3 = "d_move ?d2 (length (enc_uid (st_unit x)))"
  have heads: "d_array_head d = Inr (?n, ?d1)" "d_u8 (dpos d) ?d1 = Inr (?c, ?d2)" "d_uid ?d2 = Inr (st_unit x, ?d3)"
    using d ok by (simp_all add: enc_step_def d_array_head_Inr u8_item.read_iff uid_item.read_iff step_ok_def)
  have "dec_step_note is_nfc ?n ?d3 = Inr (st_note x, d_move d (length (enc_step is_nfc nfc x)))"
    using d ok by (cases "st_note x")
      (simp_all add: enc_step_def dec_step_note_def text_item.read_iff [where nfc = nfc] step_ok_def and_then_Inr_iff)
  note heads = heads this
  show "dec_step is_nfc d = Inr (x, d_move d (length (enc_step is_nfc nfc x)))"
  proof (cases "st_role x = RoUnknown")
    case True
    then obtain c where c: "st_role_code x = Some c" "c \<noteq> 255" "role_from_u8 c = None"
      using ok by (auto simp: step_ok_def)
    then have "step_with_unknown_role c ((step_new RoUnknown (st_unit x))\<lparr>st_note := st_note x\<rparr>) = Some x"
      using True by (cases x) (simp add: step_with_unknown_role_def step_new_def)
    then show ?thesis using heads c by (simp add: dec_step_def Let_def step_role_code_def)
  next
    case False
    then have "st_role_code x = None" using ok by (simp add: step_ok_def)
    moreover from this have "(step_new (st_role x) (st_unit x))\<lparr>st_note := st_note x\<rparr> = x"
      by (cases x) (simp add: step_new_def)
    ultimately show ?thesis using heads False by (simp add: dec_step_def Let_def step_role_code_def role_from_as)
  qed
qed

lemmas steps_reader = step_item.array_reader and steps_writable = readable.axioms(2) [OF step_item.array_readable]

abbreviation steps_ok :: "(string \<Rightarrow> bool) \<Rightarrow> step list \<Rightarrow> bool" where
  "steps_ok is_nfc \<equiv> \<lambda>ss. list_all (step_ok is_nfc) ss \<and> length ss < 2 ^ 64"

record thread_state =
  ts_id :: "string option"
  ts_schema :: "thread_schema option"
  ts_raw_schema :: "u8 option"
  ts_owner :: "string option"
  ts_gist :: "string option"
  ts_steps :: "step list"
  ts_ts :: "hlc option"

definition thread_state_new :: thread_state where
  "thread_state_new =
     \<lparr>ts_id = None, ts_schema = None, ts_raw_schema = None, ts_owner = None, ts_gist = None,
      ts_steps = [], ts_ts = None\<rparr>"

definition thread_handler :: "(string \<Rightarrow> bool) \<Rightarrow> nat \<Rightarrow> thread_state handler" where
  "thread_handler is_nfc at s k d =
     (if k = 0 then field (d_parsed is_nfc at (label_new ''thread id'')) (\<lambda>v st. st\<lparr>ts_id := Some v\<rparr>) s d
      else if k = 1 then field (d_u8 at) (\<lambda>c st. st\<lparr>ts_raw_schema := Some c, ts_schema := Some (opt_or TsUnknown (thread_schema_from_u8 c))\<rparr>) s d
      else if k = 2 then field (d_parsed is_nfc at agent_new) (\<lambda>v st. st\<lparr>ts_owner := Some v\<rparr>) s d
      else if k = 3 then field (d_text is_nfc) (\<lambda>v st. st\<lparr>ts_gist := Some v\<rparr>) s d
      else if k = 4 then field (d_array (dec_step is_nfc)) (\<lambda>v st. st\<lparr>ts_steps := v\<rparr>) s d
      else if k = 5 then field (dec_hlc is_nfc) (\<lambda>v st. st\<lparr>ts_ts := Some v\<rparr>) s d
      else pass s d)"

definition thread_bytes :: "(string \<Rightarrow> bool) \<Rightarrow> (string \<Rightarrow> string) \<Rightarrow> thread \<Rightarrow> bytes" where
  "thread_bytes is_nfc nfc t =
     mb_into_bytes (mb_put_extra (th_extra t)
       (mb_put 5 (enc_hlc is_nfc nfc (th_ts t))
       (mb_put_array 4 (map (enc_step is_nfc nfc) (th_steps t))
       (mb_put 3 (enc_text is_nfc nfc (th_gist t))
       (mb_put 2 (enc_text is_nfc nfc (th_owner t))
       (mb_put 1 (enc_u8 (thread_code t))
       (mb_put 0 (enc_text is_nfc nfc (th_id t)) [])))))))"

definition thread_finish :: "thread_state \<Rightarrow> extra_fields \<Rightarrow> thread option" where
  "thread_finish s extra =
     (case (ts_id s, ts_schema s, ts_owner s, ts_gist s, ts_ts s) of
        (Some i, Some schema, Some owner, Some gist, Some ts) \<Rightarrow>
          (let th = (thread_new i schema owner gist ts)\<lparr>th_steps := ts_steps s, th_extra := extra\<rparr> in
           if schema = TsUnknown
           then Option.bind (ts_raw_schema s) (\<lambda>c. thread_with_unknown_schema c th)
           else Some th)
      | _ \<Rightarrow> None)"

definition dec_thread :: "(string \<Rightarrow> bool) \<Rightarrow> (string \<Rightarrow> string) \<Rightarrow> dec \<Rightarrow> codec_error + thread \<times> dec" where
  "dec_thread is_nfc nfc = dec_record is_nfc (thread_handler is_nfc) thread_state_new thread_finish"

definition thread_ok :: "(string \<Rightarrow> bool) \<Rightarrow> thread \<Rightarrow> bool" where
  "thread_ok is_nfc t \<longleftrightarrow>
     label_ok ''thread id'' is_nfc (th_id t) \<and>
     (if th_schema t = TsUnknown
      then (\<exists>c. th_schema_code t = Some c \<and> c \<noteq> 255 \<and> thread_schema_from_u8 c = None)
      else th_schema_code t = None) \<and>
     agent_ok is_nfc (th_owner t) \<and> text_ok is_nfc (th_gist t) \<and>
     steps_ok is_nfc (th_steps t) \<and> hlc_ok is_nfc (th_ts t) \<and>
     extra_ok 5 is_nfc (th_extra t)"

definition thread_inv :: "(string \<Rightarrow> bool) \<Rightarrow> thread_state \<Rightarrow> bool" where
  "thread_inv is_nfc st \<longleftrightarrow>
     pred_option (label_ok ''thread id'' is_nfc) (ts_id st) \<and>
     (ts_schema st = Some TsUnknown \<longrightarrow> ts_raw_schema st \<noteq> None) \<and>
     (\<forall>c. ts_raw_schema st = Some c \<longrightarrow> ts_schema st = Some (opt_or TsUnknown (thread_schema_from_u8 c))) \<and>
     pred_option (agent_ok is_nfc) (ts_owner st) \<and>
     pred_option (text_ok is_nfc) (ts_gist st) \<and> steps_ok is_nfc (ts_steps st) \<and>
     pred_option (hlc_ok is_nfc) (ts_ts st)"

interpretation thread_map: record_map "thread_handler is_nfc at" 5 "thread_inv is_nfc" for is_nfc at
proof
  fix k d s
  assume "5 < (k :: u16)"
  then show "thread_handler is_nfc at s k d = Inr ((False, s), d)"
    by (auto simp: thread_handler_def pass_def)
next
  fix s k d b s' d'
  assume "thread_handler is_nfc at s k d = Inr ((b, s'), d')" "buf_ok d" "thread_inv is_nfc s"
  then show "(b \<longleftrightarrow> k \<le> 5) \<and> thread_inv is_nfc s' \<and> moves d d'"
    by (auto simp: thread_handler_def thread_inv_def key_le_step split: if_splits
        dest!: label_item.field_ok u8_item.field_ok agent_item.field_ok text_item.field_ok
          reader.field_ok [OF steps_reader] hlc_item.field_ok)
qed

definition thread_puts :: "(string \<Rightarrow> bool) \<Rightarrow> (string \<Rightarrow> string) \<Rightarrow> thread \<Rightarrow> thread_state put list" where
  "thread_puts is_nfc nfc t =
     [must 0 (enc_text is_nfc nfc (th_id t)) (\<lambda>st. st\<lparr>ts_id := Some (th_id t)\<rparr>),
      must 1 (enc_u8 (thread_code t))
        (\<lambda>st. st\<lparr>ts_raw_schema := Some (thread_code t),
          ts_schema := Some (opt_or TsUnknown (thread_schema_from_u8 (thread_code t)))\<rparr>),
      must 2 (enc_text is_nfc nfc (th_owner t)) (\<lambda>st. st\<lparr>ts_owner := Some (th_owner t)\<rparr>),
      must 3 (enc_text is_nfc nfc (th_gist t)) (\<lambda>st. st\<lparr>ts_gist := Some (th_gist t)\<rparr>),
      unless_nil 4 (th_steps t) (enc_array (map (enc_step is_nfc nfc) (th_steps t))) (\<lambda>v st. st\<lparr>ts_steps := v\<rparr>),
      must 5 (enc_hlc is_nfc nfc (th_ts t)) (\<lambda>st. st\<lparr>ts_ts := Some (th_ts t)\<rparr>)]"

lemma thread_bytes_puts: "thread_bytes is_nfc nfc t = enc_map (concat (map put_entry (thread_puts is_nfc nfc t)) @ th_extra t)"
  by (simp add: thread_bytes_def mb_puts mb_into_bytes_def mb_put_extra_def thread_puts_def)

lemma thread_puts_ok:
  assumes "thread_ok is_nfc t"
  shows "list_all (put_ok (thread_handler is_nfc at)) (thread_puts is_nfc nfc t)"
proof -
  note ok = assms [unfolded thread_ok_def]
  show ?thesis
    unfolding thread_puts_def list.pred_inject(2)
    by (intro conjI list.pred_inject(1); (rule label_item.put_must u8_item.put_must agent_item.put_must text_item.put_must
        put_unless_nil [OF steps_writable] hlc_item.put_must,
        (simp add: thread_handler_def; fail), (use ok in \<open>simp; fail\<close>), (use ok in \<open>simp; fail\<close>)))
qed

lemma thread_puts_run:
  "fold put_run (thread_puts is_nfc nfc t) thread_state_new =
    \<lparr>ts_id = Some (th_id t),
     ts_schema = Some (opt_or TsUnknown (thread_schema_from_u8 (thread_code t))),
     ts_raw_schema = Some (thread_code t),
     ts_owner = Some (th_owner t),
     ts_gist = Some (th_gist t),
     ts_steps = th_steps t,
     ts_ts = Some (th_ts t)\<rparr>"
  by (simp add: thread_puts_def thread_state_new_def)

lemma thread_finish_ok:
  "thread_inv is_nfc st \<Longrightarrow> extra_ok 5 is_nfc extra \<Longrightarrow> thread_finish st extra = Some t \<Longrightarrow> thread_ok is_nfc t"
  by (auto simp: thread_finish_def thread_inv_def thread_ok_def option.pred_set thread_new_def thread_with_unknown_schema_def Let_def bind_eq_Some_conv split: if_splits option.splits)

lemma thread_finish_puts:
  "thread_ok is_nfc t \<Longrightarrow> thread_finish (fold put_run (thread_puts is_nfc nfc t) thread_state_new) (th_extra t) = Some t"
proof -
  assume ok: "thread_ok is_nfc t"
  let ?th = "(thread_new (th_id t) (th_schema t) (th_owner t) (th_gist t) (th_ts t))\<lparr>th_steps := th_steps t, th_extra := th_extra t\<rparr>"
  have "opt_or TsUnknown (thread_schema_from_u8 (thread_code t)) = th_schema t"
    using ok by (cases "th_schema t = TsUnknown") (auto simp: thread_ok_def thread_code_def thread_schema_from_as)
  moreover have "if th_schema t = TsUnknown then thread_with_unknown_schema (thread_code t) ?th = Some t else ?th = t"
    using ok by (cases t) (auto simp: thread_ok_def thread_code_def thread_with_unknown_schema_def thread_new_def)
  ultimately show ?thesis
    unfolding thread_puts_run by (simp add: thread_finish_def Let_def split: if_splits)
qed

interpretation thread_reader: reader "dec_thread is_nfc nfc" "thread_ok is_nfc" for is_nfc nfc
  unfolding dec_thread_def
  by (rule record_reader [OF thread_map.record_map_axioms])
     (simp add: thread_inv_def thread_state_new_def, rule thread_finish_ok)

interpretation thread_item: readable "dec_thread is_nfc nfc" "thread_ok is_nfc" "thread_bytes is_nfc nfc" for is_nfc nfc
  unfolding dec_thread_def
  by (rule record_readable [OF thread_reader.reader_axioms [unfolded dec_thread_def] thread_map.record_map_axioms
        thread_bytes_puts thread_puts_ok])
     (assumption, simp add: thread_puts_def, simp add: thread_ok_def, erule thread_finish_puts)

subsection \<open>Granularity profiles\<close>

text \<open>What a profile's estimator may be after a read, and what the writer gives back unchanged.\<close>

definition est_read_ok :: "(string \<Rightarrow> bool) \<Rightarrow> profile_estimator \<Rightarrow> bool" where
  "est_read_ok is_nfc e = (case e of PeUnknown s \<Rightarrow> text_ok is_nfc s \<and> token_estimator_parse s = None | _ \<Rightarrow> True)"

definition est_ok :: "(string \<Rightarrow> bool) \<Rightarrow> profile_estimator \<Rightarrow> bool" where
  "est_ok is_nfc e \<longleftrightarrow> est_read_ok is_nfc e \<and> e \<noteq> PeKnown Utf8Div4"

definition profile_read_ok :: "(string \<Rightarrow> bool) \<Rightarrow> string \<Rightarrow> bool" where
  "profile_read_ok is_nfc s \<longleftrightarrow> text_ok is_nfc s \<or> s = gr_profile granularity_standard"

lemma from_wire_ok: "text_ok is_nfc s \<Longrightarrow> est_read_ok is_nfc (from_wire s)"
  by (simp add: from_wire_def est_read_ok_def split: option.splits)

lemma estimator_text_ok:
  assumes "ascii_is_nfc is_nfc" "est_ok is_nfc e"
  shows "pred_option (text_ok is_nfc) (wire_id e)"
proof -
  have "text_ok is_nfc (token_estimator_id x)" for x
    using assms(1) by (cases x) (auto intro!: text_ok_ascii [OF assms(1)] simp: char_code_def)
  then show ?thesis
    using assms(2) by (cases e) (auto simp: wire_id_def est_ok_def est_read_ok_def)
qed

lemma standard_parts [simp]:
  "gr_estimator granularity_standard = PeUnset" "gr_admission granularity_standard = AdmSingleAssertion"
  "profile_read_ok is_nfc (gr_profile granularity_standard)" "est_read_ok is_nfc PeUnset"
  by (simp_all add: granularity_standard_def profile_read_ok_def est_read_ok_def)

lemma estimator_from_wire_id:
  "est_ok is_nfc e \<Longrightarrow> (case wire_id e of None \<Rightarrow> PeUnset | Some s \<Rightarrow> from_wire s) = e"
proof (cases e)
  case (PeKnown x)
  then show "est_ok is_nfc e \<Longrightarrow> (case wire_id e of None \<Rightarrow> PeUnset | Some s \<Rightarrow> from_wire s) = e"
    using token_estimator_name.parse_as_str [of x] by (cases x) (auto simp: wire_id_def from_wire_def est_ok_def)
qed (auto simp: wire_id_def from_wire_def est_ok_def est_read_ok_def)

record granularity_state =
  gs_profile :: string
  gs_l0_max :: u32
  gs_l1_min :: u32
  gs_l1_max :: u32
  gs_admission :: admission
  gs_raw_admission :: "u8 option"
  gs_estimator :: profile_estimator

definition granularity_state_new :: granularity_state where
  "granularity_state_new =
     \<lparr>gs_profile = gr_profile granularity_standard, gs_l0_max = gr_l0_max granularity_standard,
      gs_l1_min = gr_l1_min granularity_standard, gs_l1_max = gr_l1_max granularity_standard,
      gs_admission = gr_admission granularity_standard, gs_raw_admission = None,
      gs_estimator = gr_estimator granularity_standard\<rparr>"

definition granularity_handler :: "(string \<Rightarrow> bool) \<Rightarrow> nat \<Rightarrow> granularity_state handler" where
  "granularity_handler is_nfc at s k d =
     (if k = 0 then field (d_text is_nfc) (\<lambda>v st. st\<lparr>gs_profile := v\<rparr>) s d
      else if k = 1 then field (d_u32 at) (\<lambda>v st. st\<lparr>gs_l0_max := v\<rparr>) s d
      else if k = 2 then field (d_u32 at) (\<lambda>v st. st\<lparr>gs_l1_min := v\<rparr>) s d
      else if k = 3 then field (d_u32 at) (\<lambda>v st. st\<lparr>gs_l1_max := v\<rparr>) s d
      else if k = 4 then field (d_u8 at) (\<lambda>c st. st\<lparr>gs_raw_admission := Some c, gs_admission := opt_or AdmUnknown (admission_from_u8 c)\<rparr>) s d
      else if k = 5 then field (d_text is_nfc) (\<lambda>v st. st\<lparr>gs_estimator := from_wire v\<rparr>) s d
      else pass s d)"

definition granularity_bytes :: "(string \<Rightarrow> bool) \<Rightarrow> (string \<Rightarrow> string) \<Rightarrow> granularity \<Rightarrow> bytes" where
  "granularity_bytes is_nfc nfc g =
     mb_into_bytes (mb_put_extra (gr_extra g)
       (mb_put_opt 5 (wire_id (gr_estimator g)) (enc_text is_nfc nfc)
       (mb_put 4 (enc_u8 (granularity_admission_code g))
       (mb_put 3 (enc_u32 (gr_l1_max g))
       (mb_put 2 (enc_u32 (gr_l1_min g))
       (mb_put 1 (enc_u32 (gr_l0_max g))
       (mb_put 0 (enc_text is_nfc nfc (gr_profile g)) [])))))))"

definition granularity_finish :: "granularity_state \<Rightarrow> extra_fields \<Rightarrow> granularity option" where
  "granularity_finish s extra =
     (let g = \<lparr>gr_profile = gs_profile s, gr_l0_max = gs_l0_max s, gr_l1_min = gs_l1_min s, gr_l1_max = gs_l1_max s,
               gr_admission = gs_admission s, gr_admission_code = None, gr_estimator = gs_estimator s,
               gr_extra = extra\<rparr> in
      if gr_admission g = AdmUnknown
      then Option.bind (gs_raw_admission s) (\<lambda>c. granularity_with_unknown_admission c g)
      else Some g)"

definition dec_granularity :: "(string \<Rightarrow> bool) \<Rightarrow> (string \<Rightarrow> string) \<Rightarrow> dec \<Rightarrow> codec_error + granularity \<times> dec" where
  "dec_granularity is_nfc nfc = dec_record is_nfc (granularity_handler is_nfc) granularity_state_new granularity_finish"

definition granularity_ok :: "(string \<Rightarrow> bool) \<Rightarrow> granularity \<Rightarrow> bool" where
  "granularity_ok is_nfc g \<longleftrightarrow>
     text_ok is_nfc (gr_profile g) \<and>
     (if gr_admission g = AdmUnknown
      then (\<exists>c. gr_admission_code g = Some c \<and> c \<noteq> 255 \<and> admission_from_u8 c = None)
      else gr_admission_code g = None) \<and>
     est_ok is_nfc (gr_estimator g) \<and> extra_ok 5 is_nfc (gr_extra g)"

definition granularity_read_ok :: "(string \<Rightarrow> bool) \<Rightarrow> granularity \<Rightarrow> bool" where
  "granularity_read_ok is_nfc g \<longleftrightarrow>
     profile_read_ok is_nfc (gr_profile g) \<and>
     (if gr_admission g = AdmUnknown
      then (\<exists>c. gr_admission_code g = Some c \<and> c \<noteq> 255 \<and> admission_from_u8 c = None)
      else gr_admission_code g = None) \<and>
     est_read_ok is_nfc (gr_estimator g) \<and> extra_ok 5 is_nfc (gr_extra g)"

definition granularity_inv :: "(string \<Rightarrow> bool) \<Rightarrow> granularity_state \<Rightarrow> bool" where
  "granularity_inv is_nfc st \<longleftrightarrow>
     profile_read_ok is_nfc (gs_profile st) \<and> est_read_ok is_nfc (gs_estimator st)"

interpretation granularity_map: record_map "granularity_handler is_nfc at" 5 "granularity_inv is_nfc" for is_nfc at
proof
  fix k d s
  assume "5 < (k :: u16)"
  then show "granularity_handler is_nfc at s k d = Inr ((False, s), d)"
    by (auto simp: granularity_handler_def pass_def)
next
  fix s k d b s' d'
  assume "granularity_handler is_nfc at s k d = Inr ((b, s'), d')" "buf_ok d" "granularity_inv is_nfc s"
  then show "(b \<longleftrightarrow> k \<le> 5) \<and> granularity_inv is_nfc s' \<and> moves d d'"
    by (auto simp: granularity_handler_def granularity_inv_def key_le_step from_wire_ok profile_read_ok_def split: if_splits
        dest!: text_item.field_ok u32_item.field_ok u8_item.field_ok)
qed

definition granularity_puts :: "(string \<Rightarrow> bool) \<Rightarrow> (string \<Rightarrow> string) \<Rightarrow> granularity \<Rightarrow> granularity_state put list" where
  "granularity_puts is_nfc nfc g =
     [must 0 (enc_text is_nfc nfc (gr_profile g)) (\<lambda>st. st\<lparr>gs_profile := gr_profile g\<rparr>),
      must 1 (enc_u32 (gr_l0_max g)) (\<lambda>st. st\<lparr>gs_l0_max := gr_l0_max g\<rparr>),
      must 2 (enc_u32 (gr_l1_min g)) (\<lambda>st. st\<lparr>gs_l1_min := gr_l1_min g\<rparr>),
      must 3 (enc_u32 (gr_l1_max g)) (\<lambda>st. st\<lparr>gs_l1_max := gr_l1_max g\<rparr>),
      must 4 (enc_u8 (granularity_admission_code g))
        (\<lambda>st. st\<lparr>gs_raw_admission := Some (granularity_admission_code g),
          gs_admission := opt_or AdmUnknown (admission_from_u8 (granularity_admission_code g))\<rparr>),
      may 5 (wire_id (gr_estimator g)) (enc_text is_nfc nfc)
        (\<lambda>v st. st\<lparr>gs_estimator := (case v of None \<Rightarrow> PeUnset | Some s \<Rightarrow> from_wire s)\<rparr>)]"

lemma granularity_bytes_puts: "granularity_bytes is_nfc nfc g = enc_map (concat (map put_entry (granularity_puts is_nfc nfc g)) @ gr_extra g)"
  by (simp add: granularity_bytes_def mb_puts mb_into_bytes_def mb_put_extra_def granularity_puts_def)

lemma granularity_puts_ok:
  assumes "ascii_is_nfc is_nfc" and "granularity_ok is_nfc g"
  shows "list_all (put_ok (granularity_handler is_nfc at)) (granularity_puts is_nfc nfc g)"
proof -
  note ok = assms(2) [unfolded granularity_ok_def]
  show ?thesis
    unfolding granularity_puts_def list.pred_inject(2)
    by (intro conjI list.pred_inject(1); (rule text_item.put_must u32_item.put_must u8_item.put_must text_item.put_may,
        (simp add: granularity_handler_def from_wire_ok profile_read_ok_def; fail), (use ok in \<open>simp add: estimator_text_ok(1) [OF assms(1)]; fail\<close>), (use ok in \<open>simp add: estimator_text_ok(1) [OF assms(1)]; fail\<close>)))
qed

lemma granularity_puts_run:
  "fold put_run (granularity_puts is_nfc nfc g) granularity_state_new =
    \<lparr>gs_profile = gr_profile g,
     gs_l0_max = gr_l0_max g,
     gs_l1_min = gr_l1_min g,
     gs_l1_max = gr_l1_max g,
     gs_admission = opt_or AdmUnknown (admission_from_u8 (granularity_admission_code g)),
     gs_raw_admission = Some (granularity_admission_code g),
     gs_estimator = (case wire_id (gr_estimator g) of None \<Rightarrow> PeUnset | Some s \<Rightarrow> from_wire s)\<rparr>"
  by (simp add: granularity_puts_def granularity_state_new_def)

lemma granularity_finish_ok:
  "granularity_inv is_nfc st \<Longrightarrow> extra_ok 5 is_nfc extra \<Longrightarrow> granularity_finish st extra = Some g \<Longrightarrow> granularity_read_ok is_nfc g"
  by (auto simp: granularity_finish_def granularity_inv_def granularity_read_ok_def option.pred_set Let_def granularity_with_unknown_admission_def bind_eq_Some_conv split: if_splits option.splits)

lemma granularity_finish_puts:
  "granularity_ok is_nfc g \<Longrightarrow> granularity_finish (fold put_run (granularity_puts is_nfc nfc g) granularity_state_new) (gr_extra g) = Some g"
proof -
  assume ok: "granularity_ok is_nfc g"
  let ?g = "\<lparr>gr_profile = gr_profile g, gr_l0_max = gr_l0_max g, gr_l1_min = gr_l1_min g, gr_l1_max = gr_l1_max g,
      gr_admission = gr_admission g, gr_admission_code = None, gr_estimator = gr_estimator g, gr_extra = gr_extra g\<rparr>"
  have "opt_or AdmUnknown (admission_from_u8 (granularity_admission_code g)) = gr_admission g"
    using ok by (cases "gr_admission g = AdmUnknown") (auto simp: granularity_ok_def granularity_admission_code_def admission_from_as)
  moreover have "if gr_admission g = AdmUnknown
      then granularity_with_unknown_admission (granularity_admission_code g) ?g = Some g else ?g = g"
    using ok by (cases g) (auto simp: granularity_ok_def granularity_admission_code_def granularity_with_unknown_admission_def)
  moreover have "(case wire_id (gr_estimator g) of None \<Rightarrow> PeUnset | Some s \<Rightarrow> from_wire s) = gr_estimator g"
    using ok by (intro estimator_from_wire_id [of is_nfc]) (simp add: granularity_ok_def)
  ultimately show ?thesis
    unfolding granularity_puts_run by (auto simp: granularity_finish_def Let_def split: if_splits)
qed

interpretation granularity_reader: reader "dec_granularity is_nfc nfc" "granularity_read_ok is_nfc" for is_nfc nfc
  unfolding dec_granularity_def
  by (rule record_reader [OF granularity_map.record_map_axioms])
     (simp add: granularity_inv_def granularity_state_new_def, rule granularity_finish_ok)

lemma granularity_writable:
  assumes "ascii_is_nfc is_nfc"
  shows "writable (dec_granularity is_nfc nfc) (granularity_ok is_nfc) (granularity_bytes is_nfc nfc)"
  unfolding dec_granularity_def
  by (rule record_writable [OF granularity_map.record_map_axioms granularity_bytes_puts granularity_puts_ok [OF assms]])
     (assumption, simp add: granularity_puts_def, simp add: granularity_ok_def, erule granularity_finish_puts)

subsection \<open>Views\<close>

abbreviation thread_set_ok :: "(string \<Rightarrow> bool) \<Rightarrow> string list \<Rightarrow> bool" where
  "thread_set_ok is_nfc \<equiv> \<lambda>xs. ascending xs \<and> list_all (label_ok ''thread id'' is_nfc) xs \<and> length xs < 2 ^ 64"

abbreviation schema_set_ok :: "(string \<Rightarrow> bool) \<Rightarrow> schema_id list \<Rightarrow> bool" where
  "schema_set_ok is_nfc \<equiv> \<lambda>xs. ascending xs \<and> list_all (schema_ok schema_id_parse is_nfc) xs \<and> length xs < 2 ^ 64"

lemmas thread_set_readable = set_readable [OF label_item.item_codec_axioms]
  and schema_set_readable = set_readable [OF schema_item.item_codec_axioms]

lemmas thread_set_reader = readable.axioms(1) [OF thread_set_readable]
  and thread_set_writable = readable.axioms(2) [OF thread_set_readable]
  and schema_set_reader = readable.axioms(1) [OF schema_set_readable]
  and schema_set_writable = readable.axioms(2) [OF schema_set_readable]

lemma granularity_bytes_not_null [simp]: "not_null (granularity_bytes is_nfc nfc g)"
  by (simp add: granularity_bytes_puts)

record view_state =
  vs_id :: "string option"
  vs_roots :: "uid list"
  vs_threads :: "string list"
  vs_requires :: "schema_id list"
  vs_granularity :: "granularity option"
  vs_intent :: "string option"
  vs_lang :: "string option"

definition view_state_new :: view_state where
  "view_state_new =
     \<lparr>vs_id = None, vs_roots = [], vs_threads = [], vs_requires = [], vs_granularity = None,
      vs_intent = None, vs_lang = None\<rparr>"

definition view_handler :: "(string \<Rightarrow> bool) \<Rightarrow> (string \<Rightarrow> string) \<Rightarrow> nat \<Rightarrow> view_state handler" where
  "view_handler is_nfc nfc at s k d =
     (if k = 0 then field (d_parsed is_nfc at (label_new ''view id'')) (\<lambda>v st. st\<lparr>vs_id := Some v\<rparr>) s d
      else if k = 1 then field d_uid_set (\<lambda>v st. st\<lparr>vs_roots := v\<rparr>) s d
      else if k = 2 then field (d_set (d_parsed is_nfc at (label_new ''thread id''))) (\<lambda>v st. st\<lparr>vs_threads := v\<rparr>) s d
      else if k = 3 then field (d_set (d_parsed is_nfc at schema_id_parse)) (\<lambda>v st. st\<lparr>vs_requires := v\<rparr>) s d
      else if k = 4 then field (dec_granularity is_nfc nfc) (\<lambda>v st. st\<lparr>vs_granularity := Some v\<rparr>) s d
      else if k = 5 then field (d_text is_nfc) (\<lambda>v st. st\<lparr>vs_intent := Some v\<rparr>) s d
      else if k = 6 then field (d_parsed is_nfc at lang_tag_new) (\<lambda>v st. st\<lparr>vs_lang := Some v\<rparr>) s d
      else pass s d)"

definition view_bytes :: "(string \<Rightarrow> bool) \<Rightarrow> (string \<Rightarrow> string) \<Rightarrow> view \<Rightarrow> bytes" where
  "view_bytes is_nfc nfc v =
     mb_into_bytes (mb_put_extra (vw_extra v)
       (mb_put 6 (enc_text is_nfc nfc (vw_lang v))
       (mb_put 5 (enc_text is_nfc nfc (vw_intent v))
       (mb_put 4 (granularity_bytes is_nfc nfc (vw_granularity v))
       (mb_put_sorted_set 3 (map (enc_schema is_nfc nfc) (vw_requires v))
       (mb_put_sorted_set 2 (map (enc_text is_nfc nfc) (vw_threads v))
       (mb_put_uid_set 1 (vw_roots v)
       (mb_put 0 (enc_text is_nfc nfc (vw_id v)) []))))))))"

definition view_finish :: "view_state \<Rightarrow> extra_fields \<Rightarrow> view option" where
  "view_finish s extra =
     (case (vs_id s, vs_granularity s, vs_intent s, vs_lang s) of
        (Some i, Some g, Some t, Some l) \<Rightarrow>
          Some \<lparr>vw_id = i, vw_roots = vs_roots s, vw_threads = vs_threads s, vw_requires = vs_requires s,
                vw_granularity = g, vw_intent = t, vw_lang = l, vw_extra = extra\<rparr>
      | _ \<Rightarrow> None)"

definition dec_view :: "(string \<Rightarrow> bool) \<Rightarrow> (string \<Rightarrow> string) \<Rightarrow> dec \<Rightarrow> codec_error + view \<times> dec" where
  "dec_view is_nfc nfc = dec_record is_nfc (view_handler is_nfc nfc) view_state_new view_finish"

definition view_ok :: "(string \<Rightarrow> bool) \<Rightarrow> view \<Rightarrow> bool" where
  "view_ok is_nfc v \<longleftrightarrow>
     label_ok ''view id'' is_nfc (vw_id v) \<and> uid_set_ok (vw_roots v) \<and>
     thread_set_ok is_nfc (vw_threads v) \<and> schema_set_ok is_nfc (vw_requires v) \<and>
     granularity_ok is_nfc (vw_granularity v) \<and> text_ok is_nfc (vw_intent v) \<and>
     lang_ok is_nfc (vw_lang v) \<and> extra_ok 6 is_nfc (vw_extra v)"

definition view_read_ok :: "(string \<Rightarrow> bool) \<Rightarrow> view \<Rightarrow> bool" where
  "view_read_ok is_nfc v \<longleftrightarrow>
     label_ok ''view id'' is_nfc (vw_id v) \<and> uid_set_ok (vw_roots v) \<and>
     thread_set_ok is_nfc (vw_threads v) \<and> schema_set_ok is_nfc (vw_requires v) \<and>
     granularity_read_ok is_nfc (vw_granularity v) \<and> text_ok is_nfc (vw_intent v) \<and>
     lang_ok is_nfc (vw_lang v) \<and> extra_ok 6 is_nfc (vw_extra v)"

definition view_inv :: "(string \<Rightarrow> bool) \<Rightarrow> view_state \<Rightarrow> bool" where
  "view_inv is_nfc st \<longleftrightarrow>
     pred_option (label_ok ''view id'' is_nfc) (vs_id st) \<and>
     uid_set_ok (vs_roots st) \<and> thread_set_ok is_nfc (vs_threads st) \<and>
     schema_set_ok is_nfc (vs_requires st) \<and>
     pred_option (granularity_read_ok is_nfc) (vs_granularity st) \<and>
     pred_option (text_ok is_nfc) (vs_intent st) \<and>
     pred_option (lang_ok is_nfc) (vs_lang st)"

interpretation view_map: record_map "view_handler is_nfc nfc at" 6 "view_inv is_nfc" for is_nfc nfc at
proof
  fix k d s
  assume "6 < (k :: u16)"
  then show "view_handler is_nfc nfc at s k d = Inr ((False, s), d)"
    by (auto simp: view_handler_def pass_def)
next
  fix s k d b s' d'
  assume "view_handler is_nfc nfc at s k d = Inr ((b, s'), d')" "buf_ok d" "view_inv is_nfc s"
  then show "(b \<longleftrightarrow> k \<le> 6) \<and> view_inv is_nfc s' \<and> moves d d'"
    by (auto simp: view_handler_def view_inv_def key_le_step split: if_splits
        dest!: label_item.field_ok uid_set_item.field_ok reader.field_ok [OF thread_set_reader]
          reader.field_ok [OF schema_set_reader] granularity_reader.field_ok text_item.field_ok
          lang_item.field_ok)
qed

definition view_puts :: "(string \<Rightarrow> bool) \<Rightarrow> (string \<Rightarrow> string) \<Rightarrow> view \<Rightarrow> view_state put list" where
  "view_puts is_nfc nfc v =
     [must 0 (enc_text is_nfc nfc (vw_id v)) (\<lambda>st. st\<lparr>vs_id := Some (vw_id v)\<rparr>),
      unless_nil 1 (vw_roots v) (enc_uid_set (vw_roots v)) (\<lambda>v st. st\<lparr>vs_roots := v\<rparr>),
      unless_nil 2 (vw_threads v) (enc_sorted_array (map (enc_text is_nfc nfc) (vw_threads v))) (\<lambda>v st. st\<lparr>vs_threads := v\<rparr>),
      unless_nil 3 (vw_requires v) (enc_sorted_array (map (enc_schema is_nfc nfc) (vw_requires v))) (\<lambda>v st. st\<lparr>vs_requires := v\<rparr>),
      must 4 (granularity_bytes is_nfc nfc (vw_granularity v)) (\<lambda>st. st\<lparr>vs_granularity := Some (vw_granularity v)\<rparr>),
      must 5 (enc_text is_nfc nfc (vw_intent v)) (\<lambda>st. st\<lparr>vs_intent := Some (vw_intent v)\<rparr>),
      must 6 (enc_text is_nfc nfc (vw_lang v)) (\<lambda>st. st\<lparr>vs_lang := Some (vw_lang v)\<rparr>)]"

lemma view_bytes_puts: "view_bytes is_nfc nfc v = enc_map (concat (map put_entry (view_puts is_nfc nfc v)) @ vw_extra v)"
  by (simp add: view_bytes_def mb_puts mb_into_bytes_def mb_put_extra_def view_puts_def)

lemma view_puts_ok:
  assumes "ascii_is_nfc is_nfc" and "view_ok is_nfc v"
  shows "list_all (put_ok (view_handler is_nfc nfc at)) (view_puts is_nfc nfc v)"
proof -
  note ok = assms(2) [unfolded view_ok_def]
  show ?thesis
    unfolding view_puts_def list.pred_inject(2)
    by (intro conjI list.pred_inject(1); (rule label_item.put_must put_unless_nil [OF uid_set_item.writable_axioms]
        put_unless_nil [OF thread_set_writable] put_unless_nil [OF schema_set_writable]
        writable.put_must [OF granularity_writable [OF assms(1)]] text_item.put_must
        lang_item.put_must,
        (simp add: view_handler_def; fail), (use ok in \<open>simp; fail\<close>), (use ok in \<open>simp; fail\<close>)))
qed

lemma view_puts_run:
  "fold put_run (view_puts is_nfc nfc v) view_state_new =
    \<lparr>vs_id = Some (vw_id v),
     vs_roots = vw_roots v,
     vs_threads = vw_threads v,
     vs_requires = vw_requires v,
     vs_granularity = Some (vw_granularity v),
     vs_intent = Some (vw_intent v),
     vs_lang = Some (vw_lang v)\<rparr>"
  by (simp add: view_puts_def view_state_new_def)

lemma view_finish_ok:
  "view_inv is_nfc st \<Longrightarrow> extra_ok 6 is_nfc extra \<Longrightarrow> view_finish st extra = Some v \<Longrightarrow> view_read_ok is_nfc v"
  by (auto simp: view_finish_def view_inv_def view_read_ok_def option.pred_set split: if_splits option.splits)

lemma view_finish_puts:
  "view_ok is_nfc v \<Longrightarrow> view_finish (fold put_run (view_puts is_nfc nfc v) view_state_new) (vw_extra v) = Some v"
  unfolding view_puts_run by (cases v) (auto simp: view_finish_def view_ok_def split: if_splits option.splits)

interpretation view_reader: reader "dec_view is_nfc nfc" "view_read_ok is_nfc" for is_nfc nfc
  unfolding dec_view_def
  by (rule record_reader [OF view_map.record_map_axioms])
     (simp add: view_inv_def view_state_new_def, rule view_finish_ok)

lemma view_writable:
  assumes "ascii_is_nfc is_nfc"
  shows "writable (dec_view is_nfc nfc) (view_ok is_nfc) (view_bytes is_nfc nfc)"
  unfolding dec_view_def
  by (rule record_writable [OF view_map.record_map_axioms view_bytes_puts view_puts_ok [OF assms]])
     (assumption, simp add: view_puts_def, simp add: view_ok_def, erule view_finish_puts)

subsection \<open>Pack reports\<close>

definition enc_drop :: "uid \<times> drop_reason \<Rightarrow> bytes" where
  "enc_drop = (\<lambda>(u, r). enc_array_head 2 @ enc_uid u @ enc_u8 (drop_reason_as_u8 r))"

definition dec_drop :: "dec \<Rightarrow> codec_error + (uid \<times> drop_reason) \<times> dec" where
  "dec_drop = d_pair (\<lambda>_. d_uid) (\<lambda>at. d_code at drop_reason_from_u8)"

definition enc_degrade :: "uid \<times> lod \<Rightarrow> bytes" where
  "enc_degrade = (\<lambda>(u, l). enc_array_head 2 @ enc_uid u @ enc_u8 (lod_as_u8 l))"

definition dec_degrade :: "dec \<Rightarrow> codec_error + (uid \<times> lod) \<times> dec" where
  "dec_degrade = d_pair (\<lambda>_. d_uid) (\<lambda>at. d_code at lod_from_u8)"

definition enc_optimality :: "optimality \<Rightarrow> bytes" where
  "enc_optimality p = enc_array_head 2 @ enc_u8 (pack_mode_as_u8 (op_mode p)) @ enc_f32q (op_gap p)"

definition dec_optimality :: "dec \<Rightarrow> codec_error + optimality \<times> dec" where
  "dec_optimality d =
     d_via (dpos d) (\<lambda>(m, g). Some \<lparr>op_mode = m, op_gap = g\<rparr>)
       (d_pair (\<lambda>at. d_code at pack_mode_from_u8) (\<lambda>_. d_f32q)) d"

interpretation drop_item: item_codec dec_drop enc_drop "\<lambda>(u, _). uid_ok u"
  unfolding dec_drop_def enc_drop_def
  using pair_codec [OF uid_item.item_codec_axioms drop_reason_code.code_codec] by simp

interpretation degrade_item: item_codec dec_degrade enc_degrade "\<lambda>(u, _). uid_ok u"
  unfolding dec_degrade_def enc_degrade_def
  using pair_codec [OF uid_item.item_codec_axioms lod_code.code_codec] by simp

interpretation optimality_pair: item_codec "d_pair (\<lambda>at. d_code at pack_mode_from_u8) (\<lambda>_. d_f32q)"
    "\<lambda>(m, g). enc_array_head 2 @ enc_u8 (pack_mode_as_u8 m) @ enc_f32q g" "\<lambda>(m, g). is_quantised g"
  using pair_codec [OF pack_mode_code.code_codec f32q_item.item_codec_axioms] by simp

interpretation optimality_item: item_codec dec_optimality enc_optimality "\<lambda>p. is_quantised (op_gap p)"
proof
  fix d x d'
  assume d: "buf_ok d"
  have "dec_optimality d = Inr (x, d') \<longleftrightarrow>
      d_pair (\<lambda>at. d_code at pack_mode_from_u8) (\<lambda>_. d_f32q) d = Inr ((op_mode x, op_gap x), d')"
    by (cases x) (auto simp: dec_optimality_def d_via_def and_then_Inr_iff)
  then show "dec_optimality d = Inr (x, d') \<longleftrightarrow>
      is_quantised (op_gap x) \<and> starts d (enc_optimality x) \<and> d' = d_move d (length (enc_optimality x))"
    using optimality_pair.read_iff [OF d] by (simp add: enc_optimality_def)
qed

abbreviation drops_ok :: "(uid \<times> drop_reason) list \<Rightarrow> bool" where
  "drops_ok \<equiv> \<lambda>xs. list_all (\<lambda>(u, _). uid_ok u) xs \<and> length xs < 2 ^ 64"

abbreviation degrades_ok :: "(uid \<times> lod) list \<Rightarrow> bool" where
  "degrades_ok \<equiv> \<lambda>xs. list_all (\<lambda>(u, _). uid_ok u) xs \<and> length xs < 2 ^ 64"

lemmas drops_reader = drop_item.array_reader and drops_writable = readable.axioms(2) [OF drop_item.array_readable]
  and degrades_reader = degrade_item.array_reader and degrades_writable = readable.axioms(2) [OF degrade_item.array_readable]

lemma enc_optimality_not_null [simp]: "not_null (enc_optimality p)"
  by (simp add: enc_optimality_def enc_array_head_def)

text \<open>\<open>reserved\<close> is written only when it is not zero.\<close>

definition nonzero :: "u64 \<Rightarrow> u64 option" where
  "nonzero w = (if w = 0 then None else Some w)"

lemma opt_or_nonzero [simp]: "opt_or 0 (nonzero w) = w"
  by (simp add: opt_or_def nonzero_def)

record packinfo_state =
  ps_budget :: "u64 option"
  ps_used :: "u64 option"
  ps_thread :: "string option"
  ps_dropped :: "(uid \<times> drop_reason) list"
  ps_degraded :: "(uid \<times> lod) list"
  ps_optimality :: "optimality option"
  ps_estimator :: "string option"
  ps_reserved :: u64

definition packinfo_state_new :: packinfo_state where
  "packinfo_state_new =
     \<lparr>ps_budget = None, ps_used = None, ps_thread = None, ps_dropped = [], ps_degraded = [],
      ps_optimality = None, ps_estimator = None, ps_reserved = 0\<rparr>"

definition packinfo_handler :: "(string \<Rightarrow> bool) \<Rightarrow> nat \<Rightarrow> packinfo_state handler" where
  "packinfo_handler is_nfc at s k d =
     (if k = 0 then field d_uint (\<lambda>v st. st\<lparr>ps_budget := Some v\<rparr>) s d
      else if k = 1 then field d_uint (\<lambda>v st. st\<lparr>ps_used := Some v\<rparr>) s d
      else if k = 2 then field (d_parsed is_nfc at (label_new ''thread id'')) (\<lambda>v st. st\<lparr>ps_thread := Some v\<rparr>) s d
      else if k = 3 then field (d_array dec_drop) (\<lambda>v st. st\<lparr>ps_dropped := v\<rparr>) s d
      else if k = 4 then field (d_array dec_degrade) (\<lambda>v st. st\<lparr>ps_degraded := v\<rparr>) s d
      else if k = 5 then field dec_optimality (\<lambda>v st. st\<lparr>ps_optimality := Some v\<rparr>) s d
      else if k = 6 then field (d_text is_nfc) (\<lambda>v st. st\<lparr>ps_estimator := Some v\<rparr>) s d
      else if k = 7 then field d_uint (\<lambda>v st. st\<lparr>ps_reserved := v\<rparr>) s d
      else pass s d)"

definition packinfo_bytes :: "(string \<Rightarrow> bool) \<Rightarrow> (string \<Rightarrow> string) \<Rightarrow> pack_info \<Rightarrow> bytes" where
  "packinfo_bytes is_nfc nfc p =
     mb_into_bytes (mb_put_extra (pi_extra p)
       (mb_put_opt 7 (nonzero (pi_reserved p)) enc_uint
       (mb_put 6 (enc_text is_nfc nfc (pi_estimator p))
       (mb_put 5 (enc_optimality (pi_optimality p))
       (mb_put_array 4 (map enc_degrade (pi_degraded p))
       (mb_put_array 3 (map enc_drop (pi_dropped p))
       (mb_put_opt 2 (pi_thread p) (enc_text is_nfc nfc)
       (mb_put 1 (enc_uint (pi_used p))
       (mb_put 0 (enc_uint (pi_budget p)) [])))))))))"

definition packinfo_finish :: "packinfo_state \<Rightarrow> extra_fields \<Rightarrow> pack_info option" where
  "packinfo_finish s extra =
     (case (ps_budget s, ps_used s, ps_optimality s, ps_estimator s) of
        (Some b, Some u, Some op, Some e) \<Rightarrow>
          Some \<lparr>pi_budget = b, pi_used = u, pi_thread = ps_thread s, pi_dropped = ps_dropped s, pi_degraded = ps_degraded s,
                pi_optimality = op, pi_estimator = e, pi_reserved = ps_reserved s, pi_extra = extra\<rparr>
      | _ \<Rightarrow> None)"

definition dec_packinfo :: "(string \<Rightarrow> bool) \<Rightarrow> (string \<Rightarrow> string) \<Rightarrow> dec \<Rightarrow> codec_error + pack_info \<times> dec" where
  "dec_packinfo is_nfc nfc = dec_record is_nfc (packinfo_handler is_nfc) packinfo_state_new packinfo_finish"

definition packinfo_ok :: "(string \<Rightarrow> bool) \<Rightarrow> pack_info \<Rightarrow> bool" where
  "packinfo_ok is_nfc p \<longleftrightarrow>
     pred_option (label_ok ''thread id'' is_nfc) (pi_thread p) \<and>
     drops_ok (pi_dropped p) \<and> degrades_ok (pi_degraded p) \<and>
     (\<lambda>p. is_quantised (op_gap p)) (pi_optimality p) \<and>
     text_ok is_nfc (pi_estimator p) \<and> extra_ok 7 is_nfc (pi_extra p)"

definition packinfo_inv :: "(string \<Rightarrow> bool) \<Rightarrow> packinfo_state \<Rightarrow> bool" where
  "packinfo_inv is_nfc st \<longleftrightarrow>
     pred_option (label_ok ''thread id'' is_nfc) (ps_thread st) \<and>
     drops_ok (ps_dropped st) \<and> degrades_ok (ps_degraded st) \<and>
     pred_option (\<lambda>p. is_quantised (op_gap p)) (ps_optimality st) \<and>
     pred_option (text_ok is_nfc) (ps_estimator st)"

interpretation packinfo_map: record_map "packinfo_handler is_nfc at" 7 "packinfo_inv is_nfc" for is_nfc at
proof
  fix k d s
  assume "7 < (k :: u16)"
  then show "packinfo_handler is_nfc at s k d = Inr ((False, s), d)"
    by (auto simp: packinfo_handler_def pass_def)
next
  fix s k d b s' d'
  assume "packinfo_handler is_nfc at s k d = Inr ((b, s'), d')" "buf_ok d" "packinfo_inv is_nfc s"
  then show "(b \<longleftrightarrow> k \<le> 7) \<and> packinfo_inv is_nfc s' \<and> moves d d'"
    by (auto simp: packinfo_handler_def packinfo_inv_def key_le_step split: if_splits
        dest!: uint_item.field_ok label_item.field_ok reader.field_ok [OF drops_reader]
          reader.field_ok [OF degrades_reader] optimality_item.field_ok text_item.field_ok)
qed

definition packinfo_puts :: "(string \<Rightarrow> bool) \<Rightarrow> (string \<Rightarrow> string) \<Rightarrow> pack_info \<Rightarrow> packinfo_state put list" where
  "packinfo_puts is_nfc nfc p =
     [must 0 (enc_uint (pi_budget p)) (\<lambda>st. st\<lparr>ps_budget := Some (pi_budget p)\<rparr>),
      must 1 (enc_uint (pi_used p)) (\<lambda>st. st\<lparr>ps_used := Some (pi_used p)\<rparr>),
      may 2 (pi_thread p) (enc_text is_nfc nfc) (\<lambda>v st. st\<lparr>ps_thread := v\<rparr>),
      unless_nil 3 (pi_dropped p) (enc_array (map enc_drop (pi_dropped p))) (\<lambda>v st. st\<lparr>ps_dropped := v\<rparr>),
      unless_nil 4 (pi_degraded p) (enc_array (map enc_degrade (pi_degraded p))) (\<lambda>v st. st\<lparr>ps_degraded := v\<rparr>),
      must 5 (enc_optimality (pi_optimality p)) (\<lambda>st. st\<lparr>ps_optimality := Some (pi_optimality p)\<rparr>),
      must 6 (enc_text is_nfc nfc (pi_estimator p)) (\<lambda>st. st\<lparr>ps_estimator := Some (pi_estimator p)\<rparr>),
      may 7 (nonzero (pi_reserved p)) enc_uint (\<lambda>v st. st\<lparr>ps_reserved := opt_or 0 v\<rparr>)]"

lemma packinfo_bytes_puts: "packinfo_bytes is_nfc nfc p = enc_map (concat (map put_entry (packinfo_puts is_nfc nfc p)) @ pi_extra p)"
  by (simp add: packinfo_bytes_def mb_puts mb_into_bytes_def mb_put_extra_def packinfo_puts_def)

lemma packinfo_puts_ok:
  assumes "packinfo_ok is_nfc p"
  shows "list_all (put_ok (packinfo_handler is_nfc at)) (packinfo_puts is_nfc nfc p)"
proof -
  note ok = assms [unfolded packinfo_ok_def]
  show ?thesis
    unfolding packinfo_puts_def list.pred_inject(2)
    by (intro conjI list.pred_inject(1); (rule uint_item.put_must label_item.put_may put_unless_nil [OF drops_writable]
        put_unless_nil [OF degrades_writable] optimality_item.put_must text_item.put_must
        uint_item.put_may,
        (simp add: packinfo_handler_def; fail), (use ok in \<open>simp add: option.pred_True; fail\<close>), (use ok in \<open>simp add: option.pred_True; fail\<close>)))
qed

lemma packinfo_puts_run:
  "fold put_run (packinfo_puts is_nfc nfc p) packinfo_state_new =
    \<lparr>ps_budget = Some (pi_budget p),
     ps_used = Some (pi_used p),
     ps_thread = pi_thread p,
     ps_dropped = pi_dropped p,
     ps_degraded = pi_degraded p,
     ps_optimality = Some (pi_optimality p),
     ps_estimator = Some (pi_estimator p),
     ps_reserved = pi_reserved p\<rparr>"
  by (simp add: packinfo_puts_def packinfo_state_new_def)

lemma packinfo_finish_ok:
  "packinfo_inv is_nfc st \<Longrightarrow> extra_ok 7 is_nfc extra \<Longrightarrow> packinfo_finish st extra = Some p \<Longrightarrow> packinfo_ok is_nfc p"
  by (auto simp: packinfo_finish_def packinfo_inv_def packinfo_ok_def option.pred_set split: if_splits option.splits)

lemma packinfo_finish_puts:
  "packinfo_ok is_nfc p \<Longrightarrow> packinfo_finish (fold put_run (packinfo_puts is_nfc nfc p) packinfo_state_new) (pi_extra p) = Some p"
  unfolding packinfo_puts_run by (cases p) (auto simp: packinfo_finish_def packinfo_ok_def split: if_splits option.splits)

interpretation packinfo_reader: reader "dec_packinfo is_nfc nfc" "packinfo_ok is_nfc" for is_nfc nfc
  unfolding dec_packinfo_def
  by (rule record_reader [OF packinfo_map.record_map_axioms])
     (simp add: packinfo_inv_def packinfo_state_new_def, rule packinfo_finish_ok)

interpretation packinfo_item: readable "dec_packinfo is_nfc nfc" "packinfo_ok is_nfc" "packinfo_bytes is_nfc nfc" for is_nfc nfc
  unfolding dec_packinfo_def
  by (rule record_readable [OF packinfo_reader.reader_axioms [unfolded dec_packinfo_def] packinfo_map.record_map_axioms
        packinfo_bytes_puts packinfo_puts_ok])
     (assumption, simp add: packinfo_puts_def, simp add: packinfo_ok_def, erule packinfo_finish_puts)

subsection \<open>Schema declarations\<close>

abbreviation schemas_ok :: "(string \<Rightarrow> bool) \<Rightarrow> schema_id list \<Rightarrow> bool" where
  "schemas_ok is_nfc \<equiv> \<lambda>xs. list_all (schema_ok schema_id_parse is_nfc) xs \<and> length xs < 2 ^ 64"

abbreviation rel_kinds_ok :: "(string \<Rightarrow> bool) \<Rightarrow> rel_kind list \<Rightarrow> bool" where
  "rel_kinds_ok is_nfc \<equiv> \<lambda>xs. list_all (rel_kind_ok is_nfc) xs \<and> length xs < 2 ^ 64"

lemmas schemas_reader = schema_item.array_reader and schemas_writable = readable.axioms(2) [OF schema_item.array_readable]
  and rel_kinds_reader = rel_kind_item.array_reader and rel_kinds_writable = readable.axioms(2) [OF rel_kind_item.array_readable]

record schema_decl_state =
  ds_id :: "schema_id option"
  ds_version :: "u32 option"
  ds_types :: "schema_id list"
  ds_relations :: "rel_kind list"
  ds_payload_shape :: "bytes option"
  ds_lenses :: "bytes option"

definition schema_decl_state_new :: schema_decl_state where
  "schema_decl_state_new =
     \<lparr>ds_id = None, ds_version = None, ds_types = [], ds_relations = [],
      ds_payload_shape = None, ds_lenses = None\<rparr>"

definition schema_decl_handler :: "(string \<Rightarrow> bool) \<Rightarrow> nat \<Rightarrow> schema_decl_state handler" where
  "schema_decl_handler is_nfc at s k d =
     (if k = 0 then field (d_parsed is_nfc at schema_id_parse) (\<lambda>v st. st\<lparr>ds_id := Some v\<rparr>) s d
      else if k = 1 then field (d_u32 at) (\<lambda>v st. st\<lparr>ds_version := Some v\<rparr>) s d
      else if k = 2 then field (d_array (d_parsed is_nfc at schema_id_parse)) (\<lambda>v st. st\<lparr>ds_types := v\<rparr>) s d
      else if k = 3 then field (d_array (dec_rel_kind is_nfc)) (\<lambda>v st. st\<lparr>ds_relations := v\<rparr>) s d
      else if k = 4 then field d_bytes (\<lambda>v st. st\<lparr>ds_payload_shape := Some v\<rparr>) s d
      else if k = 5 then field (d_skip_item is_nfc) (\<lambda>v st. st\<lparr>ds_lenses := Some v\<rparr>) s d
      else pass s d)"

definition schema_decl_bytes :: "(string \<Rightarrow> bool) \<Rightarrow> (string \<Rightarrow> string) \<Rightarrow> schema_decl \<Rightarrow> bytes" where
  "schema_decl_bytes is_nfc nfc e =
     mb_into_bytes (mb_put_extra (sd_extra e)
       (mb_put_opt 5 (sd_lenses e) (\<lambda>raw. raw)
       (mb_put_opt 4 (sd_payload_shape e) enc_bytes
       (mb_put_array 3 (map (enc_rel_kind is_nfc nfc) (sd_relations e))
       (mb_put_array 2 (map (enc_schema is_nfc nfc) (sd_types e))
       (mb_put 1 (enc_u32 (sd_version e))
       (mb_put 0 (enc_schema is_nfc nfc (sd_id e)) [])))))))"

definition schema_decl_finish :: "schema_decl_state \<Rightarrow> extra_fields \<Rightarrow> schema_decl option" where
  "schema_decl_finish s extra =
     (case (ds_id s, ds_version s) of
        (Some i, Some v) \<Rightarrow>
          Some \<lparr>sd_id = i, sd_version = v, sd_types = ds_types s, sd_relations = ds_relations s,
                sd_payload_shape = ds_payload_shape s, sd_lenses = ds_lenses s, sd_extra = extra\<rparr>
      | _ \<Rightarrow> None)"

definition dec_schema_decl :: "(string \<Rightarrow> bool) \<Rightarrow> (string \<Rightarrow> string) \<Rightarrow> dec \<Rightarrow> codec_error + schema_decl \<times> dec" where
  "dec_schema_decl is_nfc nfc = dec_record is_nfc (schema_decl_handler is_nfc) schema_decl_state_new schema_decl_finish"

definition schema_decl_ok :: "(string \<Rightarrow> bool) \<Rightarrow> schema_decl \<Rightarrow> bool" where
  "schema_decl_ok is_nfc e \<longleftrightarrow>
     schema_ok schema_id_parse is_nfc (sd_id e) \<and> schemas_ok is_nfc (sd_types e) \<and>
     rel_kinds_ok is_nfc (sd_relations e) \<and>
     pred_option bytes_ok (sd_payload_shape e) \<and>
     pred_option (canonical_item is_nfc) (sd_lenses e) \<and> extra_ok 5 is_nfc (sd_extra e)"

definition schema_decl_inv :: "(string \<Rightarrow> bool) \<Rightarrow> schema_decl_state \<Rightarrow> bool" where
  "schema_decl_inv is_nfc st \<longleftrightarrow>
     pred_option (schema_ok schema_id_parse is_nfc) (ds_id st) \<and>
     schemas_ok is_nfc (ds_types st) \<and> rel_kinds_ok is_nfc (ds_relations st) \<and>
     pred_option bytes_ok (ds_payload_shape st) \<and>
     pred_option (canonical_item is_nfc) (ds_lenses st)"

interpretation schema_decl_map: record_map "schema_decl_handler is_nfc at" 5 "schema_decl_inv is_nfc" for is_nfc at
proof
  fix k d s
  assume "5 < (k :: u16)"
  then show "schema_decl_handler is_nfc at s k d = Inr ((False, s), d)"
    by (auto simp: schema_decl_handler_def pass_def)
next
  fix s k d b s' d'
  assume "schema_decl_handler is_nfc at s k d = Inr ((b, s'), d')" "buf_ok d" "schema_decl_inv is_nfc s"
  then show "(b \<longleftrightarrow> k \<le> 5) \<and> schema_decl_inv is_nfc s' \<and> moves d d'"
    by (auto simp: schema_decl_handler_def schema_decl_inv_def key_le_step split: if_splits
        dest!: schema_item.field_ok u32_item.field_ok reader.field_ok [OF schemas_reader]
          reader.field_ok [OF rel_kinds_reader] bytes_item.field_ok raw_item.field_ok)
qed

definition schema_decl_puts :: "(string \<Rightarrow> bool) \<Rightarrow> (string \<Rightarrow> string) \<Rightarrow> schema_decl \<Rightarrow> schema_decl_state put list" where
  "schema_decl_puts is_nfc nfc e =
     [must 0 (enc_schema is_nfc nfc (sd_id e)) (\<lambda>st. st\<lparr>ds_id := Some (sd_id e)\<rparr>),
      must 1 (enc_u32 (sd_version e)) (\<lambda>st. st\<lparr>ds_version := Some (sd_version e)\<rparr>),
      unless_nil 2 (sd_types e) (enc_array (map (enc_schema is_nfc nfc) (sd_types e))) (\<lambda>v st. st\<lparr>ds_types := v\<rparr>),
      unless_nil 3 (sd_relations e) (enc_array (map (enc_rel_kind is_nfc nfc) (sd_relations e))) (\<lambda>v st. st\<lparr>ds_relations := v\<rparr>),
      may 4 (sd_payload_shape e) enc_bytes (\<lambda>v st. st\<lparr>ds_payload_shape := v\<rparr>),
      may 5 (sd_lenses e) (\<lambda>raw. raw) (\<lambda>v st. st\<lparr>ds_lenses := v\<rparr>)]"

lemma schema_decl_bytes_puts: "schema_decl_bytes is_nfc nfc e = enc_map (concat (map put_entry (schema_decl_puts is_nfc nfc e)) @ sd_extra e)"
  by (simp add: schema_decl_bytes_def mb_puts mb_into_bytes_def mb_put_extra_def schema_decl_puts_def)

lemma schema_decl_puts_ok:
  assumes "schema_decl_ok is_nfc e"
  shows "list_all (put_ok (schema_decl_handler is_nfc at)) (schema_decl_puts is_nfc nfc e)"
proof -
  note ok = assms [unfolded schema_decl_ok_def]
  show ?thesis
    unfolding schema_decl_puts_def list.pred_inject(2)
    by (intro conjI list.pred_inject(1); (rule schema_item.put_must u32_item.put_must put_unless_nil [OF schemas_writable]
        put_unless_nil [OF rel_kinds_writable] bytes_item.put_may raw_item.put_may,
        (simp add: schema_decl_handler_def; fail), (use ok in \<open>simp add: not_null_canonical; fail\<close>), (use ok in \<open>simp add: not_null_canonical; fail\<close>)))
qed

lemma schema_decl_puts_run:
  "fold put_run (schema_decl_puts is_nfc nfc e) schema_decl_state_new =
    \<lparr>ds_id = Some (sd_id e),
     ds_version = Some (sd_version e),
     ds_types = sd_types e,
     ds_relations = sd_relations e,
     ds_payload_shape = sd_payload_shape e,
     ds_lenses = sd_lenses e\<rparr>"
  by (simp add: schema_decl_puts_def schema_decl_state_new_def)

lemma schema_decl_finish_ok:
  "schema_decl_inv is_nfc st \<Longrightarrow> extra_ok 5 is_nfc extra \<Longrightarrow> schema_decl_finish st extra = Some e \<Longrightarrow> schema_decl_ok is_nfc e"
  by (auto simp: schema_decl_finish_def schema_decl_inv_def schema_decl_ok_def option.pred_set split: if_splits option.splits)

lemma schema_decl_finish_puts:
  "schema_decl_ok is_nfc e \<Longrightarrow> schema_decl_finish (fold put_run (schema_decl_puts is_nfc nfc e) schema_decl_state_new) (sd_extra e) = Some e"
  unfolding schema_decl_puts_run by (cases e) (auto simp: schema_decl_finish_def schema_decl_ok_def split: if_splits option.splits)

interpretation schema_decl_reader: reader "dec_schema_decl is_nfc nfc" "schema_decl_ok is_nfc" for is_nfc nfc
  unfolding dec_schema_decl_def
  by (rule record_reader [OF schema_decl_map.record_map_axioms])
     (simp add: schema_decl_inv_def schema_decl_state_new_def, rule schema_decl_finish_ok)

interpretation schema_decl_item: readable "dec_schema_decl is_nfc nfc" "schema_decl_ok is_nfc" "schema_decl_bytes is_nfc nfc" for is_nfc nfc
  unfolding dec_schema_decl_def
  by (rule record_readable [OF schema_decl_reader.reader_axioms [unfolded dec_schema_decl_def] schema_decl_map.record_map_axioms
        schema_decl_bytes_puts schema_decl_puts_ok])
     (assumption, simp add: schema_decl_puts_def, simp add: schema_decl_ok_def, erule schema_decl_finish_puts)

text \<open>Every key of a granularity profile defaults, though the writer writes them all: an empty map is read.\<close>

lemma granularity_of_empty_map:
  "dec_granularity (\<lambda>_. True) (\<lambda>s. s) (dec_new [0xA0]) =
     Inr (granularity_standard, \<lparr>dbuf = [0xA0], dpos = 1\<rparr>)"
  by code_simp

end
