(* ===== verification/Library_Parts.thy ===== *)
theory Library_Parts
  imports Record_Parts Manifests
begin

section \<open>The values inside library records (smysl-core/src/cbor/envelope.rs)\<close>

text \<open>
  The small codecs the library records share: a flag written only when true, items carried without
  interpretation, enumerations by name, maps from text to text, dating targets and dating values.
\<close>

subsection \<open>Flags, opaque items, names\<close>

definition enc_true :: "bool \<Rightarrow> bytes" where
  "enc_true b = enc_head major_simple 21"

definition dec_true :: "dec \<Rightarrow> codec_error + bool \<times> dec" where
  "dec_true d =
     and_then (d_peek d) (\<lambda>b.
       if b \<noteq> 0xF5 then Inl (MalformedEnvelope (dpos d)) else Inr (True, d_move d 1))"

lemma enc_true_byte: "enc_true b = [0xF5]"
  by (simp add: enc_true_def enc_head_parts head_info_def head_width_def)

interpretation true_item: item_codec dec_true enc_true "\<lambda>b. b"
  by unfold_locales (auto simp: dec_true_def enc_true_byte and_then_Inr_iff starts_Cons)

lemma array_head_written: "starts d (enc_array_head n) \<Longrightarrow> buf_ok d \<Longrightarrow> n < 2 ^ 64 \<Longrightarrow>
    d_array_head d = Inr (n, d_move d (length (enc_array_head n)))"
  by (simp add: d_array_head_Inr)

lemma map_head_written: "starts d (enc_head major_map (word_of_nat n)) \<Longrightarrow> buf_ok d \<Longrightarrow> n < 2 ^ 64 \<Longrightarrow>
    d_map_head d = Inr (n, d_move d (length (enc_head major_map (word_of_nat n))))"
  by (simp add: d_map_head_Inr)

text \<open>The item an empty carried value is written as: an empty array or an empty map.\<close>

definition enc_opaque :: "u8 \<Rightarrow> bytes \<Rightarrow> bytes" where
  "enc_opaque e raw = (if raw = [] then [e] else raw)"

lemma enc_opaque_canonical [simp]: "canonical_item is_nfc raw \<Longrightarrow> enc_opaque e raw = raw"
  using not_null_canonical [of is_nfc raw] by (auto simp: enc_opaque_def not_null_def)

lemma enc_opaque_not_null: "canonical_item is_nfc raw \<Longrightarrow> not_null (enc_opaque e raw)"
  by (simp add: not_null_canonical)

interpretation opaque_item: item_codec "d_skip_item is_nfc" "enc_opaque e" "canonical_item is_nfc" for is_nfc e
proof
  fix d x d'
  assume "buf_ok d"
  then show "d_skip_item is_nfc d = Inr (x, d') \<longleftrightarrow>
      canonical_item is_nfc x \<and> starts d (enc_opaque e x) \<and> d' = d_move d (length (enc_opaque e x))"
    using raw_item.read_iff [of d is_nfc x d'] by (cases "canonical_item is_nfc x") simp_all
qed

text \<open>\<open>X::parse(d.text()?).ok_or_else(|| bad(at))?\<close>.\<close>

definition d_named :: "(string \<Rightarrow> bool) \<Rightarrow> nat \<Rightarrow> (string \<Rightarrow> 'e option) \<Rightarrow> dec \<Rightarrow> codec_error + 'e \<times> dec" where
  "d_named is_nfc at parse = d_via at parse (d_text is_nfc)"

lemma named_codec:
  assumes "\<And>s x. parse s = Some x \<longleftrightarrow> s = as_str x"
  shows "item_codec (d_named is_nfc at parse) (\<lambda>x. enc_text is_nfc nfc (as_str x)) (\<lambda>x. text_ok is_nfc (as_str x))"
  unfolding d_named_def by (rule text_item.via_codec) (use assms in auto)

lemma parent_kind_parse_iff: "parent_kind_parse s = Some x \<longleftrightarrow> s = parent_kind_as_str x"
proof
  assume "s = parent_kind_as_str x"
  then show "parent_kind_parse s = Some x"
    using parent_kind_name.parse_as_str [of x] by (cases x) (simp_all add: parent_kind_all_def)
qed (auto dest: parent_kind_name.parse_Some)

lemma allen_parse_iff: "allen_parse s = Some x \<longleftrightarrow> s = allen_as_str x"
proof
  assume "s = allen_as_str x"
  then show "allen_parse s = Some x"
    using allen_name.parse_as_str [of x] by (cases x) (simp_all add: allen_all_def)
qed (auto dest: allen_name.parse_Some)

lemma calendar_parse_iff: "calendar_parse s = Some x \<longleftrightarrow> s = calendar_as_str x"
  by (cases x) (auto simp: calendar_parse_def calendar_as_str_def)

definition enc_parent_kind :: "(string \<Rightarrow> bool) \<Rightarrow> (string \<Rightarrow> string) \<Rightarrow> parent_kind \<Rightarrow> bytes" where
  "enc_parent_kind is_nfc nfc x = enc_text is_nfc nfc (parent_kind_as_str x)"

definition enc_allen :: "(string \<Rightarrow> bool) \<Rightarrow> (string \<Rightarrow> string) \<Rightarrow> allen \<Rightarrow> bytes" where
  "enc_allen is_nfc nfc x = enc_text is_nfc nfc (allen_as_str x)"

definition enc_calendar :: "(string \<Rightarrow> bool) \<Rightarrow> (string \<Rightarrow> string) \<Rightarrow> calendar \<Rightarrow> bytes" where
  "enc_calendar is_nfc nfc x = enc_text is_nfc nfc (calendar_as_str x)"

interpretation parent_kind_item: item_codec "d_named is_nfc at parent_kind_parse" "enc_parent_kind is_nfc nfc"
    "\<lambda>x. text_ok is_nfc (parent_kind_as_str x)" for is_nfc at nfc
  unfolding enc_parent_kind_def by (rule named_codec) (rule parent_kind_parse_iff)

interpretation allen_item: item_codec "d_named is_nfc at allen_parse" "enc_allen is_nfc nfc"
    "\<lambda>x. text_ok is_nfc (allen_as_str x)" for is_nfc at nfc
  unfolding enc_allen_def by (rule named_codec) (rule allen_parse_iff)

interpretation calendar_item: item_codec "d_named is_nfc at calendar_parse" "enc_calendar is_nfc nfc"
    "\<lambda>x. text_ok is_nfc (calendar_as_str x)" for is_nfc at nfc
  unfolding enc_calendar_def by (rule named_codec) (rule calendar_parse_iff)

lemma not_null_names [simp]:
  "not_null (enc_parent_kind is_nfc nfc p)" "not_null (enc_calendar is_nfc nfc c)" "not_null (enc_true b)"
  by (simp_all add: enc_parent_kind_def enc_calendar_def enc_true_byte not_null_def [of "[0xF5]"])

subsection \<open>Text maps\<close>

text \<open>Keys are read as raw items and compared as bytes; the text is read back out of them.\<close>

definition map_err :: "'f \<Rightarrow> 'e + 'a \<Rightarrow> 'f + 'a" where
  "map_err e r = (case r of Inl _ \<Rightarrow> Inl e | Inr a \<Rightarrow> Inr a)"

lemma map_err_Inr [simp]: "map_err e r = Inr a \<longleftrightarrow> r = Inr a" "map_err e (Inr a) = Inr a"
  by (simp_all add: map_err_def split: sum.splits)

fun text_map_loop :: "(string \<Rightarrow> bool) \<Rightarrow> nat \<Rightarrow> bytes option \<Rightarrow> nat \<Rightarrow> (string, string) bmap \<Rightarrow> dec \<Rightarrow>
    codec_error + (string, string) bmap \<times> dec" where
  "text_map_loop is_nfc at prev 0 m d = Inr (m, d)"
| "text_map_loop is_nfc at prev (Suc n) m d =
     and_then (d_skip_item is_nfc d) (\<lambda>(kb, d1).
     and_then (map_err (MalformedEnvelope (dpos d)) (d_text is_nfc (dec_new kb))) (\<lambda>(k, _).
       if \<not> follows prev kb then Inl (MalformedEnvelope (dpos d))
       else and_then (d_reject_null d1) (\<lambda>_.
            and_then (d_text is_nfc d1) (\<lambda>(v, d2).
              if bm_get m k \<noteq> None then Inl (MalformedEnvelope at)
              else text_map_loop is_nfc at (Some kb) n (bm_insert k v m) d2))))"

definition dec_text_map :: "(string \<Rightarrow> bool) \<Rightarrow> dec \<Rightarrow> codec_error + (string, string) bmap \<times> dec" where
  "dec_text_map is_nfc d =
     and_then (d_map_head d) (\<lambda>(n, d1). text_map_loop is_nfc (dpos d) None n [] d1)"

definition enc_text_row :: "(string \<Rightarrow> bool) \<Rightarrow> (string \<Rightarrow> string) \<Rightarrow> string \<times> string \<Rightarrow> bytes \<times> bytes" where
  "enc_text_row is_nfc nfc = (\<lambda>(k, v). (enc_text is_nfc nfc k, enc_text is_nfc nfc v))"

definition enc_text_map :: "(string \<Rightarrow> bool) \<Rightarrow> (string \<Rightarrow> string) \<Rightarrow> (string, string) bmap \<Rightarrow> bytes" where
  "enc_text_map is_nfc nfc m =
     (let rows = sort_key fst (map (enc_text_row is_nfc nfc) m) in
      enc_head major_map (word_of_nat (length rows)) @ concat (map (\<lambda>(k, v). k @ v) rows))"

definition text_row_ok :: "(string \<Rightarrow> bool) \<Rightarrow> string \<times> string \<Rightarrow> bool" where
  "text_row_ok is_nfc = (\<lambda>(k, v). text_ok is_nfc k \<and> text_ok is_nfc v)"

abbreviation text_map_ok :: "(string \<Rightarrow> bool) \<Rightarrow> (string, string) bmap \<Rightarrow> bool" where
  "text_map_ok is_nfc \<equiv> \<lambda>m. bm_ok m \<and> list_all (text_row_ok is_nfc) m \<and> length m < 2 ^ 64"

lemma canonical_text: "text_ok is_nfc s \<Longrightarrow> canonical_item is_nfc (enc_text is_nfc nfc s)"
  unfolding canonical_item_def enc_text_def text_ok_def
  by (rule exI [of _ "IText (str_bytes s)"]) (simp add: normalise_normal)

lemma bm_insert_fresh:
  assumes "list_all P m" "P (k, v)"
  shows "list_all P (bm_insert k v m) \<and> length (bm_insert k v m) \<le> Suc (length m)"
  using assms by (induction k v m rule: bm_insert.induct) auto

lemma text_map_loop_ok:
  "text_map_loop is_nfc at prev n m d = Inr (m', d') \<Longrightarrow> buf_ok d \<Longrightarrow> bm_ok m \<Longrightarrow> list_all (text_row_ok is_nfc) m \<Longrightarrow>
   bm_ok m' \<and> list_all (text_row_ok is_nfc) m' \<and> length m' \<le> length m + n \<and> moves d d'"
proof (induction n arbitrary: prev m d)
  case (Suc n)
  from Suc.prems(1) obtain kb d1 k dk v d2 where
    kb: "d_skip_item is_nfc d = Inr (kb, d1)" and k: "d_text is_nfc (dec_new kb) = Inr (k, dk)"
    and v: "d_text is_nfc d1 = Inr (v, d2)"
    and go: "text_map_loop is_nfc at (Some kb) n (bm_insert k v m) d2 = Inr (m', d')"
    by (auto simp: and_then_Inr_iff split: if_splits)
  from kb Suc.prems(2) have d1: "canonical_item is_nfc kb" "starts d kb" "moves d d1"
    using moves_written [of d kb] by (auto simp: raw_item.read_iff)
  moreover from this have "kb \<noteq> []" using not_null_canonical not_null_def by fastforce
  ultimately have "buf_ok (dec_new kb)"
    using starts_length [of d kb] Suc.prems(2) by (simp add: buf_ok_def dec_new_def)
  with k have k': "text_ok is_nfc k" by (blast dest: text_item.reads_ok)
  from v d1(3) have d2: "text_ok is_nfc v" "moves d1 d2" by (blast dest: text_item.reads_ok)+
  have "list_all (text_row_ok is_nfc) (bm_insert k v m) \<and> length (bm_insert k v m) \<le> Suc (length m)"
    using k' d2 Suc.prems(4) by (intro bm_insert_fresh) (simp_all add: text_row_ok_def)
  with Suc.IH [OF go] Suc.prems(3) d2 d1(3) show ?case by fastforce
qed auto

lemma text_map_loop_written:
  "after prev (map (enc_text is_nfc nfc \<circ> fst) kvs) \<Longrightarrow> list_all (text_row_ok is_nfc) kvs \<Longrightarrow>
   distinct (map fst kvs) \<Longrightarrow> (\<forall>p \<in> set kvs. bm_get m (fst p) = None) \<Longrightarrow> bm_ok m \<Longrightarrow>
   starts d (concat (map (\<lambda>(k, v). enc_text is_nfc nfc k @ enc_text is_nfc nfc v) kvs)) \<Longrightarrow> buf_ok d \<Longrightarrow>
   text_map_loop is_nfc at prev (length kvs) m d =
     Inr (fold (\<lambda>(k, v). bm_insert k v) kvs m,
          d_move d (length (concat (map (\<lambda>(k, v). enc_text is_nfc nfc k @ enc_text is_nfc nfc v) kvs))))"
proof (induction kvs arbitrary: prev m d)
  case (Cons p kvs)
  obtain k v where p: "p = (k, v)" by fastforce
  let ?k = "enc_text is_nfc nfc k" and ?v = "enc_text is_nfc nfc v"
  let ?d1 = "d_move d (length ?k)"
  have ok: "text_ok is_nfc k" "text_ok is_nfc v" using Cons.prems(2) by (simp_all add: p text_row_ok_def)
  have d: "starts d ?k" "starts ?d1 ?v" using Cons.prems(6) by (simp_all add: p)
  have "?k \<noteq> []" by (simp add: enc_text_def enc_head_parts)
  then have "length ?k < 2 ^ 64" using starts_length [OF d(1)] Cons.prems(7) by (simp add: buf_ok_def)
  then have "d_text is_nfc (dec_new ?k) = Inr (k, d_move (dec_new ?k) (length ?k))"
    using text_item.written_new [OF ok(1), of nfc "[]"] by simp
  moreover have "d_skip_item is_nfc d = Inr (?k, ?d1)"
    using raw_item.written [OF canonical_text [OF ok(1)] d(1) Cons.prems(7)] .
  moreover have "d_text is_nfc ?d1 = Inr (v, d_move ?d1 (length ?v))" "d_reject_null ?d1 = Inr ()"
    using text_item.written [OF ok(2) d(2)] d_reject_null_starts [OF d(2)] Cons.prems(7) by simp_all
  moreover have "follows prev ?k" "bm_get m k = None"
    using Cons.prems(1,4) by (auto simp: p)
  moreover have "\<forall>q \<in> set kvs. bm_get (bm_insert k v m) (fst q) = None"
    using Cons.prems(3,4,5) by (auto simp: p bm_get_insert)
  with Cons.prems have "text_map_loop is_nfc at (Some ?k) (length kvs) (bm_insert k v m) (d_move ?d1 (length ?v)) =
      Inr (fold (\<lambda>(k, v). bm_insert k v) kvs (bm_insert k v m), d_move (d_move ?d1 (length ?v))
        (length (concat (map (\<lambda>(k, v). enc_text is_nfc nfc k @ enc_text is_nfc nfc v) kvs))))"
    by (intro Cons.IH) (simp_all add: p)
  ultimately show ?case by (simp add: p add.assoc)
qed simp

lemma bm_collect_permuted:
  assumes "bm_ok m" "set kvs = set m" "distinct (map fst kvs)"
  shows "fold (\<lambda>(k, v). bm_insert k v) kvs [] = m"
proof (rule bm_ext)
  fix k
  have "map_of (rev kvs) = map_of m"
    using assms by (intro map_of_inject_set [THEN iffD2]) (simp_all add: bm_ok_def ascending_distinct rev_map [symmetric])
  then show "bm_get (fold (\<lambda>(k, v). bm_insert k v) kvs []) k = bm_get m k"
    using bm_get_collect [of kvs k] by (simp add: bm_collect_def)
qed (use assms(1) bm_collect_def in \<open>simp_all flip: bm_collect_def\<close>)

interpretation text_map_item: readable "dec_text_map is_nfc" "text_map_ok is_nfc" "enc_text_map is_nfc nfc" for is_nfc nfc
proof (intro readable.intro reader.intro writable.intro)
  fix d m d'
  assume "dec_text_map is_nfc d = Inr (m, d')" and d: "buf_ok d"
  then obtain n d1 where n: "d_map_head d = Inr (n, d1)" and go: "text_map_loop is_nfc (dpos d) None n [] d1 = Inr (m, d')"
    by (auto simp: dec_text_map_def and_then_Inr_iff)
  then have "n < 2 ^ 64" "moves d d1"
    using d moves_written [of d "enc_head major_map (word_of_nat n)"] by (simp_all add: d_map_head_Inr)
  with text_map_loop_ok [OF go] show "(bm_ok m \<and> list_all (text_row_ok is_nfc) m \<and> length m < 2 ^ 64) \<and> moves d d'"
    by auto
next
  fix m d
  assume ok: "bm_ok m \<and> list_all (text_row_ok is_nfc) m \<and> length m < 2 ^ 64"
    and d: "starts d (enc_text_map is_nfc nfc m)" "buf_ok d"
  define kvs where "kvs = sort_key (enc_text is_nfc nfc \<circ> fst) m"
  have rows: "map (enc_text_row is_nfc nfc) kvs = sort_key fst (map (enc_text_row is_nfc nfc) m)"
    unfolding kvs_def by (rule map_sort_key) (simp add: enc_text_row_def split_def)
  have cat: "concat (map (\<lambda>(k, v). k @ v) (map (enc_text_row is_nfc nfc) kvs)) =
      concat (map (\<lambda>(k, v). enc_text is_nfc nfc k @ enc_text is_nfc nfc v) kvs)"
    by (simp add: enc_text_row_def comp_def split_def)
  have bytes: "enc_text_map is_nfc nfc m = enc_head major_map (word_of_nat (length kvs)) @
      concat (map (\<lambda>(k, v). enc_text is_nfc nfc k @ enc_text is_nfc nfc v) kvs)"
    unfolding cat [symmetric] rows by (simp add: enc_text_map_def Let_def kvs_def)
  have set: "set kvs = set m" "length kvs = length m" by (simp_all add: kvs_def)
  have keys: "distinct (map fst kvs)"
  proof -
    have "mset (map fst kvs) = mset (map fst m)" by (simp add: kvs_def mset_map)
    then show ?thesis using ok by (metis bm_ok_def ascending_distinct mset_eq_imp_distinct_iff)
  qed
  have short: "length (enc_text is_nfc nfc k) < 2 ^ 64" if k: "k \<in> set (map fst kvs)" for k
  proof -
    obtain v where "(k, v) \<in> set kvs" using k by auto
    then have "length (enc_text is_nfc nfc k) \<le> length (enc_text_map is_nfc nfc m)"
      unfolding bytes using member_le_sum_list [of "length (enc_text is_nfc nfc k @ enc_text is_nfc nfc v)"
        "map length (map (\<lambda>(k, v). enc_text is_nfc nfc k @ enc_text is_nfc nfc v) kvs)"]
      by (force simp: length_concat)
    also have "\<dots> \<le> length (dbuf d)"
      using starts_length [OF d(1)] by (simp add: bytes enc_head_parts)
    finally show ?thesis using d(2) by (simp add: buf_ok_def)
  qed
  have "inj_on (enc_text is_nfc nfc) (set (map fst kvs))"
  proof (rule inj_onI)
    fix a b
    assume ab: "a \<in> set (map fst kvs)" "b \<in> set (map fst kvs)" "enc_text is_nfc nfc a = enc_text is_nfc nfc b"
    then have "text_ok is_nfc a" "text_ok is_nfc b"
      using ok by (auto simp: set list_all_iff text_row_ok_def)
    then show "a = b" using ab(3) short [OF ab(1)] by (rule text_item.distinguishes)
  qed
  then have "distinct (map (enc_text is_nfc nfc) (map fst kvs))"
    using keys by (simp only: distinct_map)
  then have asc: "ascending (map (enc_text is_nfc nfc \<circ> fst) kvs)"
    by (simp add: strict_sorted_iff kvs_def)
  have at: "starts d (enc_head major_map (word_of_nat (length kvs)))" using d(1) by (simp add: bytes)
  let ?d1 = "d_move d (length (enc_head major_map (word_of_nat (length kvs))))"
  have "d_map_head d = Inr (length kvs, ?d1)"
    using at ok d(2) by (simp add: d_map_head_Inr set)
  moreover have "text_map_loop is_nfc (dpos d) None (length kvs) [] ?d1 = Inr (fold (\<lambda>(k, v). bm_insert k v) kvs [],
      d_move ?d1 (length (concat (map (\<lambda>(k, v). enc_text is_nfc nfc k @ enc_text is_nfc nfc v) kvs))))"
    using asc ok keys d by (intro text_map_loop_written) (simp_all add: bytes set list_all_iff)
  ultimately show "dec_text_map is_nfc d = Inr (m, d_move d (length (enc_text_map is_nfc nfc m)))"
    using bm_collect_permuted [of m kvs] ok keys set by (simp add: dec_text_map_def bytes)
qed

lemma enc_text_map_not_null [simp]: "not_null (enc_text_map is_nfc nfc m)"
  by (simp add: enc_text_map_def Let_def)

subsection \<open>Dating targets and values\<close>

definition enc_dating_target :: "dating_target \<Rightarrow> bytes" where
  "enc_dating_target t =
     enc_array_head 2 @ enc_u8 (dating_target_kind t) @
     (case t of
        DtUnit u \<Rightarrow> enc_uid u
      | DtPart tid \<Rightarrow> enc_bytes tid
      | DtManifest mid \<Rightarrow> enc_bytes mid
      | DtWindow tid from to \<Rightarrow> enc_array_head 3 @ enc_bytes tid @ enc_uint from @ enc_uint to)"

definition dec_window :: "nat \<Rightarrow> dec \<Rightarrow> codec_error + dating_target \<times> dec" where
  "dec_window at d =
     and_then (d_array_head d) (\<lambda>(n, d1).
       if n \<noteq> 3 then Inl (MalformedEnvelope at)
       else and_then (d_digest d1) (\<lambda>(tid, d2).
            and_then (d_uint d2) (\<lambda>(from, d3).
            and_then (d_uint d3) (\<lambda>(to, d4). Inr (DtWindow tid from to, d4)))))"

definition dec_dating_target :: "dec \<Rightarrow> codec_error + dating_target \<times> dec" where
  "dec_dating_target d =
     (let bad = MalformedEnvelope (dpos d) in
      and_then (d_array_head d) (\<lambda>(n, d1).
        if n \<noteq> 2 then Inl bad
        else and_then (d_uint d1) (\<lambda>(kind, d2).
             if kind = 0 then and_then (d_uid d2) (\<lambda>(u, d3). Inr (DtUnit u, d3))
             else if kind = 1 then and_then (d_digest d2) (\<lambda>(t, d3). Inr (DtPart t, d3))
             else if kind = 2 then and_then (d_digest d2) (\<lambda>(m, d3). Inr (DtManifest m, d3))
             else if kind = 3 then dec_window (dpos d) d2
             else Inl bad)))"

fun dating_target_ok :: "dating_target \<Rightarrow> bool" where
  "dating_target_ok (DtUnit u) = uid_ok u"
| "dating_target_ok (DtPart t) = digest_ok t"
| "dating_target_ok (DtManifest m) = digest_ok m"
| "dating_target_ok (DtWindow t from to) = digest_ok t"

lemma enc_target_kind: "enc_u8 (dating_target_kind t) =
    enc_uint (case t of DtUnit _ \<Rightarrow> 0 | DtPart _ \<Rightarrow> 1 | DtManifest _ \<Rightarrow> 2 | DtWindow _ _ _ \<Rightarrow> 3)"
  by (cases t) (simp_all add: enc_u8_def)

interpretation dating_target_item: item_codec dec_dating_target enc_dating_target dating_target_ok
proof
  fix d x d'
  assume d: "buf_ok d"
  show "dec_dating_target d = Inr (x, d') \<longleftrightarrow>
      dating_target_ok x \<and> starts d (enc_dating_target x) \<and> d' = d_move d (length (enc_dating_target x))"
  proof
    assume "dec_dating_target d = Inr (x, d')"
    then show "dating_target_ok x \<and> starts d (enc_dating_target x) \<and> d' = d_move d (length (enc_dating_target x))"
      using d unfolding enc_dating_target_def enc_target_kind
      by (auto simp: dec_dating_target_def dec_window_def Let_def and_then_Inr_iff d_array_head_Inr
          uint_item.read_iff uid_item.read_iff digest_item.read_iff split: if_splits)
  next
    assume "dating_target_ok x \<and> starts d (enc_dating_target x) \<and> d' = d_move d (length (enc_dating_target x))"
    then show "dec_dating_target d = Inr (x, d')"
      using d unfolding enc_dating_target_def enc_target_kind
      by (cases x) (auto simp: dec_dating_target_def dec_window_def Let_def array_head_written
          uint_item.written uid_item.written digest_item.written)
  qed
qed

definition enc_dating_value :: "(string \<Rightarrow> bool) \<Rightarrow> (string \<Rightarrow> string) \<Rightarrow> dating_value \<Rightarrow> bytes" where
  "enc_dating_value is_nfc nfc v =
     enc_map
       (case v of
          DvAbsolute t \<Rightarrow> mb_put 0 (enc_text is_nfc nfc t) []
        | DvOffset ms \<Rightarrow> mb_put 1 (enc_int ms) []
        | DvRelative al t \<Rightarrow> mb_put 2 (enc_array_head 2 @ enc_allen is_nfc nfc al @ enc_dating_target t) [])"

definition dec_relative :: "(string \<Rightarrow> bool) \<Rightarrow> nat \<Rightarrow> dec \<Rightarrow> codec_error + dating_value \<times> dec" where
  "dec_relative is_nfc at d =
     and_then (d_array_head d) (\<lambda>(n, d1).
       if n \<noteq> 2 then Inl (MalformedEnvelope at)
       else and_then (d_named is_nfc at allen_parse d1) (\<lambda>(al, d2).
            and_then (dec_dating_target d2) (\<lambda>(t, d3). Inr (DvRelative al t, d3))))"

definition dec_dating_value :: "(string \<Rightarrow> bool) \<Rightarrow> dec \<Rightarrow> codec_error + dating_value \<times> dec" where
  "dec_dating_value is_nfc d =
     (let bad = MalformedEnvelope (dpos d) in
      and_then (d_map_head d) (\<lambda>(n, d1).
        if n \<noteq> 1 then Inl bad
        else and_then (d_via (dpos d) (\<lambda>w. if unat w \<le> 65535 then Some (ucast w :: u16) else None) d_uint d1) (\<lambda>(key, d2).
             if key = 0 then and_then (d_text is_nfc d2) (\<lambda>(t, d3). Inr (DvAbsolute t, d3))
             else if key = 1 then and_then (d_int d2) (\<lambda>(ms, d3). Inr (DvOffset ms, d3))
             else if key = 2 then dec_relative is_nfc (dpos d) d2
             else Inl bad)))"

fun dating_value_ok :: "(string \<Rightarrow> bool) \<Rightarrow> dating_value \<Rightarrow> bool" where
  "dating_value_ok is_nfc (DvAbsolute t) = text_ok is_nfc t"
| "dating_value_ok is_nfc (DvOffset ms) = True"
| "dating_value_ok is_nfc (DvRelative al t) = (text_ok is_nfc (allen_as_str al) \<and> dating_target_ok t)"

interpretation key16_item: item_codec "d_via at (\<lambda>w. if unat w \<le> 65535 then Some (ucast w :: u16) else None) d_uint"
    "\<lambda>k. enc_uint (ucast k)" "\<lambda>_. True" for at
  by (rule uint_item.via_codec) (use ucast_u16_u64 in auto)

lemma key16_written:
  fixes at :: nat
  defines "rd \<equiv> d_via at (\<lambda>w. if unat w \<le> 65535 then Some (ucast w :: u16) else None) d_uint"
  shows "starts d (enc_uint 0) \<Longrightarrow> buf_ok d \<Longrightarrow> rd d = Inr (0, d_move d (length (enc_uint 0)))"
    and "starts d (enc_uint 1) \<Longrightarrow> buf_ok d \<Longrightarrow> rd d = Inr (1, d_move d (length (enc_uint 1)))"
    and "starts d (enc_uint 2) \<Longrightarrow> buf_ok d \<Longrightarrow> rd d = Inr (2, d_move d (length (enc_uint 2)))"
  using key16_item.written [of d 0 at] key16_item.written [of d 1 at] key16_item.written [of d 2 at]
  by (simp_all add: rd_def)

lemma enc_map_single: "enc_map [(k, b)] = enc_head major_map 1 @ enc_uint (ucast k) @ b"
  by (simp add: enc_map_def enc_entry_def)

interpretation dating_value_item: item_codec "dec_dating_value is_nfc" "enc_dating_value is_nfc nfc" "dating_value_ok is_nfc"
  for is_nfc nfc
proof
  fix d x d'
  assume d: "buf_ok d"
  let ?rhs = "dating_value_ok is_nfc x \<and> starts d (enc_dating_value is_nfc nfc x) \<and>
      d' = d_move d (length (enc_dating_value is_nfc nfc x))"
  show "dec_dating_value is_nfc d = Inr (x, d') \<longleftrightarrow> ?rhs"
  proof
    assume "dec_dating_value is_nfc d = Inr (x, d')"
    then show ?rhs
      using d by (auto simp: enc_dating_value_def mb_put_def enc_map_single dec_dating_value_def dec_relative_def Let_def
        and_then_Inr_iff d_map_head_Inr d_array_head_Inr key16_item.read_iff text_item.read_iff [where nfc = nfc]
        int_item.read_iff allen_item.read_iff [where nfc = nfc] dating_target_item.read_iff split: if_splits)
  next
    assume ?rhs
    then show "dec_dating_value is_nfc d = Inr (x, d')"
      using d map_head_written [of d 1]
      by (cases x) (auto simp: enc_dating_value_def mb_put_def enc_map_single dec_dating_value_def dec_relative_def Let_def
        array_head_written key16_written text_item.written int_item.written allen_item.written
        dating_target_item.written)
  qed
qed

lemma not_null_dating [simp]: "not_null (enc_dating_target t)" "not_null (enc_dating_value is_nfc nfc v)"
  by (simp_all add: enc_dating_target_def enc_dating_value_def enc_array_head_def)

end
