(* ===== verification/Library_Codecs.thy ===== *)
theory Library_Codecs
  imports Library_Parts
begin

section \<open>Codecs of manifests, parts, readings, datings and redactions (smysl-core/src/cbor/envelope.rs)\<close>

text \<open>Laid out as in \<open>Graph_Codecs\<close>.\<close>

subsection \<open>Part entries\<close>

record part_entry_state =
  qs_tid :: "digest option"
  qs_length :: "u64 option"
  qs_structure :: "digest option"
  qs_rdid :: "digest option"
  qs_lang :: "string option"

definition part_entry_state_new :: part_entry_state where
  "part_entry_state_new =
     \<lparr>qs_tid = None, qs_length = None, qs_structure = None, qs_rdid = None, qs_lang = None\<rparr>"

definition part_entry_handler :: "(string \<Rightarrow> bool) \<Rightarrow> nat \<Rightarrow> part_entry_state handler" where
  "part_entry_handler is_nfc at s k d =
     (if k = 0 then field d_digest (\<lambda>v st. st\<lparr>qs_tid := Some v\<rparr>) s d
      else if k = 1 then field d_uint (\<lambda>v st. st\<lparr>qs_length := Some v\<rparr>) s d
      else if k = 2 then field d_digest (\<lambda>v st. st\<lparr>qs_structure := Some v\<rparr>) s d
      else if k = 3 then field d_digest (\<lambda>v st. st\<lparr>qs_rdid := Some v\<rparr>) s d
      else if k = 4 then field (d_parsed is_nfc at lang_tag_new) (\<lambda>v st. st\<lparr>qs_lang := Some v\<rparr>) s d
      else pass s d)"

definition part_entry_bytes :: "(string \<Rightarrow> bool) \<Rightarrow> (string \<Rightarrow> string) \<Rightarrow> part_entry \<Rightarrow> bytes" where
  "part_entry_bytes is_nfc nfc p =
     mb_into_bytes (mb_put_extra (pe_extra p)
       (mb_put_opt 4 (pe_lang p) (enc_text is_nfc nfc)
       (mb_put 3 (enc_bytes (pe_rdid p))
       (mb_put 2 (enc_bytes (pe_structure p))
       (mb_put 1 (enc_uint (pe_length p))
       (mb_put 0 (enc_bytes (pe_tid p)) []))))))"

definition part_entry_finish :: "part_entry_state \<Rightarrow> extra_fields \<Rightarrow> part_entry option" where
  "part_entry_finish s extra =
     (case (qs_tid s, qs_length s, qs_structure s, qs_rdid s) of
        (Some t, Some n, Some st, Some r) \<Rightarrow>
          Some ((part_entry_new t n st r)\<lparr>pe_lang := qs_lang s, pe_extra := extra\<rparr>)
      | _ \<Rightarrow> None)"

definition dec_part_entry :: "(string \<Rightarrow> bool) \<Rightarrow> (string \<Rightarrow> string) \<Rightarrow> dec \<Rightarrow> codec_error + part_entry \<times> dec" where
  "dec_part_entry is_nfc nfc = dec_record is_nfc (part_entry_handler is_nfc) part_entry_state_new part_entry_finish"

definition part_entry_ok :: "(string \<Rightarrow> bool) \<Rightarrow> part_entry \<Rightarrow> bool" where
  "part_entry_ok is_nfc p \<longleftrightarrow>
     digest_ok (pe_tid p) \<and> digest_ok (pe_structure p) \<and> digest_ok (pe_rdid p) \<and>
     pred_option (lang_ok is_nfc) (pe_lang p) \<and> extra_ok 4 is_nfc (pe_extra p)"

definition part_entry_inv :: "(string \<Rightarrow> bool) \<Rightarrow> part_entry_state \<Rightarrow> bool" where
  "part_entry_inv is_nfc st \<longleftrightarrow>
     pred_option digest_ok (qs_tid st) \<and> pred_option digest_ok (qs_structure st) \<and>
     pred_option digest_ok (qs_rdid st) \<and> pred_option (lang_ok is_nfc) (qs_lang st)"

interpretation part_entry_map: record_map "part_entry_handler is_nfc at" 4 "part_entry_inv is_nfc" for is_nfc at
proof
  fix k d s
  assume "4 < (k :: u16)"
  then show "part_entry_handler is_nfc at s k d = Inr ((False, s), d)"
    by (auto simp: part_entry_handler_def pass_def)
next
  fix s k d b s' d'
  assume "part_entry_handler is_nfc at s k d = Inr ((b, s'), d')" "buf_ok d" "part_entry_inv is_nfc s"
  then show "(b \<longleftrightarrow> k \<le> 4) \<and> part_entry_inv is_nfc s' \<and> moves d d'"
    by (auto simp: part_entry_handler_def part_entry_inv_def key_le_step split: if_splits
        dest!: digest_item.field_ok uint_item.field_ok lang_item.field_ok)
qed

definition part_entry_puts :: "(string \<Rightarrow> bool) \<Rightarrow> (string \<Rightarrow> string) \<Rightarrow> part_entry \<Rightarrow> part_entry_state put list" where
  "part_entry_puts is_nfc nfc p =
     [must 0 (enc_bytes (pe_tid p)) (\<lambda>st. st\<lparr>qs_tid := Some (pe_tid p)\<rparr>),
      must 1 (enc_uint (pe_length p)) (\<lambda>st. st\<lparr>qs_length := Some (pe_length p)\<rparr>),
      must 2 (enc_bytes (pe_structure p)) (\<lambda>st. st\<lparr>qs_structure := Some (pe_structure p)\<rparr>),
      must 3 (enc_bytes (pe_rdid p)) (\<lambda>st. st\<lparr>qs_rdid := Some (pe_rdid p)\<rparr>),
      may 4 (pe_lang p) (enc_text is_nfc nfc) (\<lambda>v st. st\<lparr>qs_lang := v\<rparr>)]"

lemma part_entry_bytes_puts: "part_entry_bytes is_nfc nfc p = enc_map (concat (map put_entry (part_entry_puts is_nfc nfc p)) @ pe_extra p)"
  by (simp add: part_entry_bytes_def mb_puts mb_into_bytes_def mb_put_extra_def part_entry_puts_def)

lemma part_entry_puts_ok:
  assumes "part_entry_ok is_nfc p"
  shows "list_all (put_ok (part_entry_handler is_nfc at)) (part_entry_puts is_nfc nfc p)"
proof -
  note ok = assms [unfolded part_entry_ok_def]
  show ?thesis
    unfolding part_entry_puts_def list.pred_inject(2)
    by (intro conjI list.pred_inject(1); (rule digest_item.put_must uint_item.put_must lang_item.put_may,
        (simp add: part_entry_handler_def; fail), (use ok in \<open>simp; fail\<close>), (use ok in \<open>simp; fail\<close>)))
qed

lemma part_entry_puts_run:
  "fold put_run (part_entry_puts is_nfc nfc p) part_entry_state_new =
    \<lparr>qs_tid = Some (pe_tid p),
     qs_length = Some (pe_length p),
     qs_structure = Some (pe_structure p),
     qs_rdid = Some (pe_rdid p),
     qs_lang = pe_lang p\<rparr>"
  by (simp add: part_entry_puts_def part_entry_state_new_def)

lemma part_entry_finish_ok:
  "part_entry_inv is_nfc st \<Longrightarrow> extra_ok 4 is_nfc extra \<Longrightarrow> part_entry_finish st extra = Some p \<Longrightarrow> part_entry_ok is_nfc p"
  by (auto simp: part_entry_finish_def part_entry_inv_def part_entry_ok_def option.pred_set part_entry_new_def split: if_splits option.splits)

lemma part_entry_finish_puts:
  "part_entry_ok is_nfc p \<Longrightarrow> part_entry_finish (fold put_run (part_entry_puts is_nfc nfc p) part_entry_state_new) (pe_extra p) = Some p"
  unfolding part_entry_puts_run by (cases p) (auto simp: part_entry_finish_def part_entry_ok_def part_entry_new_def split: if_splits option.splits)

interpretation part_entry_reader: reader "dec_part_entry is_nfc nfc" "part_entry_ok is_nfc" for is_nfc nfc
  unfolding dec_part_entry_def
  by (rule record_reader [OF part_entry_map.record_map_axioms])
     (simp add: part_entry_inv_def part_entry_state_new_def, rule part_entry_finish_ok)

interpretation part_entry_item: readable "dec_part_entry is_nfc nfc" "part_entry_ok is_nfc" "part_entry_bytes is_nfc nfc" for is_nfc nfc
  unfolding dec_part_entry_def
  by (rule record_readable [OF part_entry_reader.reader_axioms [unfolded dec_part_entry_def] part_entry_map.record_map_axioms
        part_entry_bytes_puts part_entry_puts_ok])
     (assumption, simp add: part_entry_puts_def, simp add: part_entry_ok_def, erule part_entry_finish_puts)

lemma part_entry_not_null [simp]: "not_null (part_entry_bytes is_nfc nfc p)"
  by (simp add: part_entry_bytes_puts)

subsection \<open>Manifests\<close>

text \<open>A flag is written only when true. The parts are required and may be empty.\<close>

definition flag :: "bool \<Rightarrow> bool option" where
  "flag b = (if b then Some True else None)"

lemma flag_read [simp]: "(flag b \<noteq> None) = b" "flag b = Some c \<longleftrightarrow> b \<and> c" "pred_option (\<lambda>b. b) (flag b)"
  by (auto simp: flag_def)

definition mb_put_text_map :: "u16 \<Rightarrow> (string \<Rightarrow> bool) \<Rightarrow> (string \<Rightarrow> string) \<Rightarrow> (string, string) bmap \<Rightarrow> entries \<Rightarrow> entries" where
  "mb_put_text_map k is_nfc nfc ids m = (if ids \<noteq> [] then mb_put k (enc_text_map is_nfc nfc ids) m else m)"

lemma mb_put_text_map_entries:
  "mb_put_text_map k is_nfc nfc ids m = m @ (if ids = [] then [] else [(k, enc_text_map is_nfc nfc ids)])"
  by (simp add: mb_put_text_map_def mb_puts)

abbreviation parts_ok :: "(string \<Rightarrow> bool) \<Rightarrow> part_entry list \<Rightarrow> bool" where
  "parts_ok is_nfc \<equiv> \<lambda>ps. list_all (part_entry_ok is_nfc) ps \<and> length ps < 2 ^ 64"

abbreviation texts_ok :: "(string \<Rightarrow> bool) \<Rightarrow> string list \<Rightarrow> bool" where
  "texts_ok is_nfc \<equiv> \<lambda>ts. list_all (text_ok is_nfc) ts \<and> length ts < 2 ^ 64"

definition enc_parts :: "(string \<Rightarrow> bool) \<Rightarrow> (string \<Rightarrow> string) \<Rightarrow> part_entry list \<Rightarrow> bytes" where
  "enc_parts is_nfc nfc ps = enc_array (map (part_entry_bytes is_nfc nfc) ps)"

lemmas parts_reader = part_entry_reader.array_reader
  and parts_writable = readable.axioms(2) [OF part_entry_item.array_readable, folded enc_parts_def]
  and texts_reader = text_item.array_reader
  and texts_writable = readable.axioms(2) [OF text_item.array_readable]

lemma enc_parts_not_null [simp]: "not_null (enc_parts is_nfc nfc ps)"
  by (simp add: enc_parts_def)

definition enc_carry :: "carry \<Rightarrow> bytes" where
  "enc_carry x = enc_u8 (carry_as_u8 x)"

interpretation carry_item: item_codec "d_code at carry_from_u8" enc_carry "\<lambda>_. True" for at
  unfolding enc_carry_def by (rule wire_code.code_codec [OF carry_code.wire_code_axioms])

lemma enc_carry_not_null [simp]: "not_null (enc_carry x)"
  by (simp add: enc_carry_def)

record manifest_state =
  ms_alias :: "string option"
  ms_parts :: "(part_entry list) option"
  ms_lang :: "string option"
  ms_reader :: "string option"
  ms_licence :: "string option"
  ms_carry :: "carry option"
  ms_title :: "string option"
  ms_creators :: "string list"
  ms_published :: "string option"
  ms_identifiers :: "(string, string) bmap"
  ms_origin :: "source_ref option"
  ms_parent :: "digest option"
  ms_parent_kind :: "parent_kind option"
  ms_supersedes :: "digest option"
  ms_versification :: "string option"
  ms_lossy :: bool
  ms_raw :: "bytes option"
  ms_part_policy :: "string option"
  ms_calendar :: "calendar option"

definition manifest_state_new :: manifest_state where
  "manifest_state_new =
     \<lparr>ms_alias = None, ms_parts = None, ms_lang = None, ms_reader = None, ms_licence = None,
      ms_carry = None, ms_title = None, ms_creators = [], ms_published = None,
      ms_identifiers = [], ms_origin = None, ms_parent = None, ms_parent_kind = None,
      ms_supersedes = None, ms_versification = None, ms_lossy = False, ms_raw = None,
      ms_part_policy = None, ms_calendar = None\<rparr>"

definition manifest_handler :: "(string \<Rightarrow> bool) \<Rightarrow> (string \<Rightarrow> string) \<Rightarrow> nat \<Rightarrow> manifest_state handler" where
  "manifest_handler is_nfc nfc at s k d =
     (if k = 0 then field (d_text is_nfc) (\<lambda>v st. st\<lparr>ms_alias := Some v\<rparr>) s d
      else if k = 1 then field (d_array (dec_part_entry is_nfc nfc)) (\<lambda>v st. st\<lparr>ms_parts := Some v\<rparr>) s d
      else if k = 2 then field (d_parsed is_nfc at lang_tag_new) (\<lambda>v st. st\<lparr>ms_lang := Some v\<rparr>) s d
      else if k = 3 then field (d_text is_nfc) (\<lambda>v st. st\<lparr>ms_reader := Some v\<rparr>) s d
      else if k = 4 then field (d_text is_nfc) (\<lambda>v st. st\<lparr>ms_licence := Some v\<rparr>) s d
      else if k = 5 then field (d_code at carry_from_u8) (\<lambda>v st. st\<lparr>ms_carry := Some v\<rparr>) s d
      else if k = 6 then field (d_text is_nfc) (\<lambda>v st. st\<lparr>ms_title := Some v\<rparr>) s d
      else if k = 7 then field (d_array (d_text is_nfc)) (\<lambda>v st. st\<lparr>ms_creators := v\<rparr>) s d
      else if k = 8 then field (d_text is_nfc) (\<lambda>v st. st\<lparr>ms_published := Some v\<rparr>) s d
      else if k = 9 then field (dec_text_map is_nfc) (\<lambda>v st. st\<lparr>ms_identifiers := v\<rparr>) s d
      else if k = 10 then field (dec_source is_nfc nfc) (\<lambda>v st. st\<lparr>ms_origin := Some v\<rparr>) s d
      else if k = 11 then field d_digest (\<lambda>v st. st\<lparr>ms_parent := Some v\<rparr>) s d
      else if k = 12 then field (d_named is_nfc at parent_kind_parse) (\<lambda>v st. st\<lparr>ms_parent_kind := Some v\<rparr>) s d
      else if k = 13 then field d_digest (\<lambda>v st. st\<lparr>ms_supersedes := Some v\<rparr>) s d
      else if k = 14 then field (d_text is_nfc) (\<lambda>v st. st\<lparr>ms_versification := Some v\<rparr>) s d
      else if k = 15 then field dec_true (\<lambda>v st. st\<lparr>ms_lossy := v\<rparr>) s d
      else if k = 16 then field (d_skip_item is_nfc) (\<lambda>v st. st\<lparr>ms_raw := Some v\<rparr>) s d
      else if k = 17 then field (d_text is_nfc) (\<lambda>v st. st\<lparr>ms_part_policy := Some v\<rparr>) s d
      else if k = 18 then field (d_named is_nfc at calendar_parse) (\<lambda>v st. st\<lparr>ms_calendar := Some v\<rparr>) s d
      else pass s d)"

definition manifest_bytes :: "(string \<Rightarrow> bool) \<Rightarrow> (string \<Rightarrow> string) \<Rightarrow> manifest \<Rightarrow> bytes" where
  "manifest_bytes is_nfc nfc m =
     mb_into_bytes (mb_put_extra (mf_extra m)
       (mb_put_opt 18 (mf_calendar m) (enc_calendar is_nfc nfc)
       (mb_put 17 (enc_text is_nfc nfc (mf_part_policy m))
       (mb_put_opt 16 (mf_raw m) (enc_opaque 0xA0)
       (mb_put_opt 15 (flag (mf_lossy m)) enc_true
       (mb_put_opt 14 (mf_versification m) (enc_text is_nfc nfc)
       (mb_put_opt 13 (mf_supersedes m) enc_bytes
       (mb_put_opt 12 (map_option snd (mf_parent m)) (enc_parent_kind is_nfc nfc)
       (mb_put_opt 11 (map_option fst (mf_parent m)) enc_bytes
       (mb_put_opt 10 (mf_origin m) (enc_source is_nfc nfc)
       (mb_put_text_map 9 is_nfc nfc (mf_identifiers m)
       (mb_put_opt 8 (mf_published m) (enc_text is_nfc nfc)
       (mb_put_array 7 (map (enc_text is_nfc nfc) (mf_creators m))
       (mb_put_opt 6 (mf_title m) (enc_text is_nfc nfc)
       (mb_put 5 (enc_carry (mf_carry m))
       (mb_put 4 (enc_text is_nfc nfc (mf_licence m))
       (mb_put 3 (enc_text is_nfc nfc (mf_reader m))
       (mb_put 2 (enc_text is_nfc nfc (mf_lang m))
       (mb_put 1 (enc_parts is_nfc nfc (mf_parts m))
       (mb_put 0 (enc_text is_nfc nfc (mf_alias m)) []))))))))))))))))))))"

definition manifest_parent :: "manifest_state \<Rightarrow> (digest \<times> parent_kind) option option" where
  "manifest_parent s =
     (case (ms_parent s, ms_parent_kind s) of
        (Some m, Some k) \<Rightarrow> Some (Some (m, k))
      | (None, None) \<Rightarrow> Some None
      | _ \<Rightarrow> None)"

definition manifest_finish :: "manifest_state \<Rightarrow> extra_fields \<Rightarrow> manifest option" where
  "manifest_finish s extra =
     (case manifest_parent s of
        None \<Rightarrow> None
      | Some parent \<Rightarrow>
          (case (ms_alias s, ms_lang s, ms_reader s, ms_licence s, ms_part_policy s, ms_parts s, ms_carry s) of
             (Some alias, Some lang, Some rdr, Some licence, Some policy, Some parts, Some carry) \<Rightarrow>
               Some ((manifest_new alias lang rdr licence policy)
                 \<lparr>mf_parts := parts, mf_carry := carry, mf_title := ms_title s, mf_creators := ms_creators s,
                  mf_published := ms_published s, mf_identifiers := ms_identifiers s, mf_origin := ms_origin s,
                  mf_parent := parent, mf_supersedes := ms_supersedes s, mf_versification := ms_versification s,
                  mf_lossy := ms_lossy s, mf_raw := ms_raw s, mf_calendar := ms_calendar s, mf_extra := extra\<rparr>)
           | _ \<Rightarrow> None))"

definition dec_manifest :: "(string \<Rightarrow> bool) \<Rightarrow> (string \<Rightarrow> string) \<Rightarrow> dec \<Rightarrow> codec_error + manifest \<times> dec" where
  "dec_manifest is_nfc nfc = dec_record is_nfc (manifest_handler is_nfc nfc) manifest_state_new manifest_finish"

definition manifest_ok :: "(string \<Rightarrow> bool) \<Rightarrow> manifest \<Rightarrow> bool" where
  "manifest_ok is_nfc m \<longleftrightarrow>
     text_ok is_nfc (mf_alias m) \<and> parts_ok is_nfc (mf_parts m) \<and>
     lang_ok is_nfc (mf_lang m) \<and> text_ok is_nfc (mf_reader m) \<and>
     text_ok is_nfc (mf_licence m) \<and> pred_option (text_ok is_nfc) (mf_title m) \<and>
     texts_ok is_nfc (mf_creators m) \<and>
     pred_option (text_ok is_nfc) (mf_published m) \<and>
     text_map_ok is_nfc (mf_identifiers m) \<and>
     pred_option (source_ok is_nfc) (mf_origin m) \<and>
     pred_option digest_ok (map_option fst (mf_parent m)) \<and>
     pred_option (\<lambda>x. text_ok is_nfc (parent_kind_as_str x)) (map_option snd (mf_parent m)) \<and>
     pred_option digest_ok (mf_supersedes m) \<and>
     pred_option (text_ok is_nfc) (mf_versification m) \<and>
     pred_option (canonical_item is_nfc) (mf_raw m) \<and>
     text_ok is_nfc (mf_part_policy m) \<and>
     pred_option (\<lambda>x. text_ok is_nfc (calendar_as_str x)) (mf_calendar m) \<and>
     extra_ok 18 is_nfc (mf_extra m)"

definition manifest_inv :: "(string \<Rightarrow> bool) \<Rightarrow> manifest_state \<Rightarrow> bool" where
  "manifest_inv is_nfc st \<longleftrightarrow>
     pred_option (text_ok is_nfc) (ms_alias st) \<and>
     pred_option (parts_ok is_nfc) (ms_parts st) \<and>
     pred_option (lang_ok is_nfc) (ms_lang st) \<and>
     pred_option (text_ok is_nfc) (ms_reader st) \<and>
     pred_option (text_ok is_nfc) (ms_licence st) \<and>
     pred_option (text_ok is_nfc) (ms_title st) \<and> texts_ok is_nfc (ms_creators st) \<and>
     pred_option (text_ok is_nfc) (ms_published st) \<and>
     text_map_ok is_nfc (ms_identifiers st) \<and>
     pred_option (source_ok is_nfc) (ms_origin st) \<and>
     pred_option digest_ok (ms_parent st) \<and>
     pred_option (\<lambda>x. text_ok is_nfc (parent_kind_as_str x)) (ms_parent_kind st) \<and>
     pred_option digest_ok (ms_supersedes st) \<and>
     pred_option (text_ok is_nfc) (ms_versification st) \<and>
     pred_option (canonical_item is_nfc) (ms_raw st) \<and>
     pred_option (text_ok is_nfc) (ms_part_policy st) \<and>
     pred_option (\<lambda>x. text_ok is_nfc (calendar_as_str x)) (ms_calendar st)"

lemma manifest_handler_unknown: "18 < (k :: u16) \<Longrightarrow> manifest_handler is_nfc nfc at s k d = Inr ((False, s), d)"
  by (auto simp: manifest_handler_def pass_def)

interpretation manifest_map: record_map "manifest_handler is_nfc nfc at" 18 "manifest_inv is_nfc" for is_nfc nfc at
proof
  fix s k d b s' d'
  assume h: "manifest_handler is_nfc nfc at s k d = Inr ((b, s'), d')" "buf_ok d" "manifest_inv is_nfc s"
  have "b \<and> manifest_inv is_nfc s' \<and> moves d d'" if "k \<le> 18"
  proof -
    have "k = 0 \<or> k = 1 \<or> k = 2 \<or> k = 3 \<or> k = 4 \<or> k = 5 \<or> k = 6 \<or>
      k = 7 \<or> k = 8 \<or> k = 9 \<or> k = 10 \<or> k = 11 \<or> k = 12 \<or> k = 13 \<or>
      k = 14 \<or> k = 15 \<or> k = 16 \<or> k = 17 \<or> k = 18"
      using that by (simp add: key_le_step) blast
    then show ?thesis
    proof (elim disjE)
    qed (insert h(1), simp_all add: manifest_handler_def,
          ((erule text_item.field_keeps | erule reader.field_keeps [OF parts_reader] | erule
          lang_item.field_keeps | erule carry_item.field_keeps | erule
          reader.field_keeps [OF texts_reader] | erule text_map_item.field_keeps | erule
          source_reader.field_keeps | erule digest_item.field_keeps | erule
          parent_kind_item.field_keeps | erule true_item.field_keeps | erule
          reader.field_keeps [OF raw_item.reader_axioms] | erule calendar_item.field_keeps);
           (rule h(2) | (insert h(3), simp add: manifest_inv_def)))+)
  qed
  moreover have "\<not> b \<and> manifest_inv is_nfc s' \<and> moves d d'" if "18 < k"
    using manifest_handler_unknown [OF that] h by simp
  ultimately show "(b \<longleftrightarrow> k \<le> 18) \<and> manifest_inv is_nfc s' \<and> moves d d'"
    by (cases "k \<le> 18") (simp_all add: not_le)
qed (rule manifest_handler_unknown)

definition manifest_puts :: "(string \<Rightarrow> bool) \<Rightarrow> (string \<Rightarrow> string) \<Rightarrow> manifest \<Rightarrow> manifest_state put list" where
  "manifest_puts is_nfc nfc m =
     [must 0 (enc_text is_nfc nfc (mf_alias m)) (\<lambda>st. st\<lparr>ms_alias := Some (mf_alias m)\<rparr>),
      must 1 (enc_parts is_nfc nfc (mf_parts m)) (\<lambda>st. st\<lparr>ms_parts := Some (mf_parts m)\<rparr>),
      must 2 (enc_text is_nfc nfc (mf_lang m)) (\<lambda>st. st\<lparr>ms_lang := Some (mf_lang m)\<rparr>),
      must 3 (enc_text is_nfc nfc (mf_reader m)) (\<lambda>st. st\<lparr>ms_reader := Some (mf_reader m)\<rparr>),
      must 4 (enc_text is_nfc nfc (mf_licence m)) (\<lambda>st. st\<lparr>ms_licence := Some (mf_licence m)\<rparr>),
      must 5 (enc_carry (mf_carry m)) (\<lambda>st. st\<lparr>ms_carry := Some (mf_carry m)\<rparr>),
      may 6 (mf_title m) (enc_text is_nfc nfc) (\<lambda>v st. st\<lparr>ms_title := v\<rparr>),
      unless_nil 7 (mf_creators m) (enc_array (map (enc_text is_nfc nfc) (mf_creators m))) (\<lambda>v st. st\<lparr>ms_creators := v\<rparr>),
      may 8 (mf_published m) (enc_text is_nfc nfc) (\<lambda>v st. st\<lparr>ms_published := v\<rparr>),
      unless_nil 9 (mf_identifiers m) (enc_text_map is_nfc nfc (mf_identifiers m)) (\<lambda>v st. st\<lparr>ms_identifiers := v\<rparr>),
      may 10 (mf_origin m) (enc_source is_nfc nfc) (\<lambda>v st. st\<lparr>ms_origin := v\<rparr>),
      may 11 (map_option fst (mf_parent m)) enc_bytes (\<lambda>v st. st\<lparr>ms_parent := v\<rparr>),
      may 12 (map_option snd (mf_parent m)) (enc_parent_kind is_nfc nfc) (\<lambda>v st. st\<lparr>ms_parent_kind := v\<rparr>),
      may 13 (mf_supersedes m) enc_bytes (\<lambda>v st. st\<lparr>ms_supersedes := v\<rparr>),
      may 14 (mf_versification m) (enc_text is_nfc nfc) (\<lambda>v st. st\<lparr>ms_versification := v\<rparr>),
      may 15 (flag (mf_lossy m)) enc_true (\<lambda>v st. st\<lparr>ms_lossy := (v = Some True)\<rparr>),
      may 16 (mf_raw m) (enc_opaque 0xA0) (\<lambda>v st. st\<lparr>ms_raw := v\<rparr>),
      must 17 (enc_text is_nfc nfc (mf_part_policy m)) (\<lambda>st. st\<lparr>ms_part_policy := Some (mf_part_policy m)\<rparr>),
      may 18 (mf_calendar m) (enc_calendar is_nfc nfc) (\<lambda>v st. st\<lparr>ms_calendar := v\<rparr>)]"

lemma manifest_bytes_puts: "manifest_bytes is_nfc nfc m = enc_map (concat (map put_entry (manifest_puts is_nfc nfc m)) @ mf_extra m)"
  by (simp add: manifest_bytes_def mb_puts mb_put_text_map_entries mb_into_bytes_def mb_put_extra_def manifest_puts_def)

lemma manifest_puts_ok:
  assumes "ascii_is_nfc is_nfc" and "manifest_ok is_nfc m"
  shows "list_all (put_ok (manifest_handler is_nfc nfc at)) (manifest_puts is_nfc nfc m)"
proof -
  note ok = assms(2) [unfolded manifest_ok_def]
  show ?thesis
    unfolding manifest_puts_def list.pred_inject(2)
    by (intro conjI list.pred_inject(1); (rule text_item.put_must writable.put_must [OF parts_writable] lang_item.put_must
        carry_item.put_must text_item.put_may put_unless_nil [OF texts_writable]
        put_unless_nil [OF text_map_item.writable_axioms]
        writable.put_may [OF source_writable [OF assms(1)]] digest_item.put_may
        parent_kind_item.put_may true_item.put_may
        writable.put_may [OF opaque_item.writable_axioms] calendar_item.put_may,
        (simp add: manifest_handler_def; fail), (use ok in \<open>simp add: enc_opaque_not_null [of is_nfc] not_null_canonical [of is_nfc]; fail\<close>), (use ok in \<open>simp add: enc_opaque_not_null [of is_nfc] not_null_canonical [of is_nfc]; fail\<close>)))
qed

lemma manifest_puts_run:
  "fold put_run (manifest_puts is_nfc nfc m) manifest_state_new =
    \<lparr>ms_alias = Some (mf_alias m),
     ms_parts = Some (mf_parts m),
     ms_lang = Some (mf_lang m),
     ms_reader = Some (mf_reader m),
     ms_licence = Some (mf_licence m),
     ms_carry = Some (mf_carry m),
     ms_title = mf_title m,
     ms_creators = mf_creators m,
     ms_published = mf_published m,
     ms_identifiers = mf_identifiers m,
     ms_origin = mf_origin m,
     ms_parent = map_option fst (mf_parent m),
     ms_parent_kind = map_option snd (mf_parent m),
     ms_supersedes = mf_supersedes m,
     ms_versification = mf_versification m,
     ms_lossy = mf_lossy m,
     ms_raw = mf_raw m,
     ms_part_policy = Some (mf_part_policy m),
     ms_calendar = mf_calendar m\<rparr>"
  by (simp add: manifest_puts_def manifest_state_new_def)

lemma manifest_finish_ok:
  "manifest_inv is_nfc st \<Longrightarrow> extra_ok 18 is_nfc extra \<Longrightarrow> manifest_finish st extra = Some m \<Longrightarrow> manifest_ok is_nfc m"
proof -
  assume inv: "manifest_inv is_nfc st" "extra_ok 18 is_nfc extra" and f: "manifest_finish st extra = Some m"
  then obtain parent al lang rdr licence policy parts carry where
    parent: "manifest_parent st = Some parent" and
    some: "ms_alias st = Some al" "ms_lang st = Some lang" "ms_reader st = Some rdr" "ms_licence st = Some licence"
      "ms_part_policy st = Some policy" "ms_parts st = Some parts" "ms_carry st = Some carry" and
    m: "m = (manifest_new al lang rdr licence policy)
         \<lparr>mf_parts := parts, mf_carry := carry, mf_title := ms_title st, mf_creators := ms_creators st,
          mf_published := ms_published st, mf_identifiers := ms_identifiers st, mf_origin := ms_origin st,
          mf_parent := parent, mf_supersedes := ms_supersedes st, mf_versification := ms_versification st,
          mf_lossy := ms_lossy st, mf_raw := ms_raw st, mf_calendar := ms_calendar st, mf_extra := extra\<rparr>"
    by (auto simp: manifest_finish_def split: option.splits)
  note i = inv(1) [unfolded manifest_inv_def]
  have "pred_option digest_ok (map_option fst parent)"
    "pred_option (\<lambda>x. text_ok is_nfc (parent_kind_as_str x)) (map_option snd parent)"
    using parent i by (auto simp: manifest_parent_def split: option.splits)
  then show "manifest_ok is_nfc m"
    using i some inv(2) by (simp add: m manifest_ok_def manifest_new_def)
qed

lemma manifest_finish_puts:
  "manifest_ok is_nfc m \<Longrightarrow> manifest_finish (fold put_run (manifest_puts is_nfc nfc m) manifest_state_new) (mf_extra m) = Some m"
proof -
  assume "manifest_ok is_nfc m"
  have "manifest_parent (fold put_run (manifest_puts is_nfc nfc m) manifest_state_new) = Some (mf_parent m)"
    unfolding manifest_puts_run by (cases "mf_parent m") (simp_all add: manifest_parent_def)
  moreover have "(manifest_new (mf_alias m) (mf_lang m) (mf_reader m) (mf_licence m) (mf_part_policy m))
         \<lparr>mf_parts := mf_parts m, mf_carry := mf_carry m, mf_title := mf_title m, mf_creators := mf_creators m,
          mf_published := mf_published m, mf_identifiers := mf_identifiers m, mf_origin := mf_origin m,
          mf_parent := mf_parent m, mf_supersedes := mf_supersedes m, mf_versification := mf_versification m,
          mf_lossy := mf_lossy m, mf_raw := mf_raw m, mf_calendar := mf_calendar m, mf_extra := mf_extra m\<rparr> = m"
    by (cases m) (simp add: manifest_new_def)
  ultimately show ?thesis by (simp add: manifest_finish_def manifest_puts_run)
qed

interpretation manifest_reader: reader "dec_manifest is_nfc nfc" "manifest_ok is_nfc" for is_nfc nfc
  unfolding dec_manifest_def
  by (rule record_reader [OF manifest_map.record_map_axioms])
     (simp add: manifest_inv_def manifest_state_new_def, rule manifest_finish_ok)

lemma manifest_readable:
  assumes "ascii_is_nfc is_nfc"
  shows "readable (dec_manifest is_nfc nfc) (manifest_ok is_nfc) (manifest_bytes is_nfc nfc)"
  unfolding dec_manifest_def
  by (rule record_readable [OF manifest_reader.reader_axioms [unfolded dec_manifest_def] manifest_map.record_map_axioms
        manifest_bytes_puts manifest_puts_ok [OF assms]])
     (assumption, simp add: manifest_puts_def, simp add: manifest_ok_def, erule manifest_finish_puts)

subsection \<open>Part texts\<close>

record part_text_state =
  xs_tid :: "digest option"
  xs_text :: "bytes option"

definition part_text_state_new :: part_text_state where
  "part_text_state_new =
     \<lparr>xs_tid = None, xs_text = None\<rparr>"

definition part_text_handler :: "(string \<Rightarrow> bool) \<Rightarrow> nat \<Rightarrow> part_text_state handler" where
  "part_text_handler is_nfc at s k d =
     (if k = 0 then field d_digest (\<lambda>v st. st\<lparr>xs_tid := Some v\<rparr>) s d
      else if k = 1 then field d_bytes (\<lambda>v st. st\<lparr>xs_text := Some v\<rparr>) s d
      else pass s d)"

definition part_text_bytes :: "(string \<Rightarrow> bool) \<Rightarrow> (string \<Rightarrow> string) \<Rightarrow> part_text \<Rightarrow> bytes" where
  "part_text_bytes is_nfc nfc p =
     mb_into_bytes (mb_put_extra (pt_extra p)
       (mb_put 1 (enc_bytes (pt_text p))
       (mb_put 0 (enc_bytes (pt_tid p)) [])))"

definition part_text_finish :: "part_text_state \<Rightarrow> extra_fields \<Rightarrow> part_text option" where
  "part_text_finish s extra =
     (case (xs_tid s, xs_text s) of
        (Some t, Some b) \<Rightarrow> Some ((part_text_with_claimed_tid t b)\<lparr>pt_extra := extra\<rparr>)
      | _ \<Rightarrow> None)"

definition dec_part_text :: "(string \<Rightarrow> bool) \<Rightarrow> (string \<Rightarrow> string) \<Rightarrow> dec \<Rightarrow> codec_error + part_text \<times> dec" where
  "dec_part_text is_nfc nfc = dec_record is_nfc (part_text_handler is_nfc) part_text_state_new part_text_finish"

definition part_text_ok :: "(string \<Rightarrow> bool) \<Rightarrow> part_text \<Rightarrow> bool" where
  "part_text_ok is_nfc p \<longleftrightarrow>
     digest_ok (pt_tid p) \<and> bytes_ok (pt_text p) \<and> extra_ok 1 is_nfc (pt_extra p)"

definition part_text_inv :: "(string \<Rightarrow> bool) \<Rightarrow> part_text_state \<Rightarrow> bool" where
  "part_text_inv is_nfc st \<longleftrightarrow>
     pred_option digest_ok (xs_tid st) \<and> pred_option bytes_ok (xs_text st)"

interpretation part_text_map: record_map "part_text_handler is_nfc at" 1 "part_text_inv is_nfc" for is_nfc at
proof
  fix k d s
  assume "1 < (k :: u16)"
  then show "part_text_handler is_nfc at s k d = Inr ((False, s), d)"
    by (auto simp: part_text_handler_def pass_def)
next
  fix s k d b s' d'
  assume "part_text_handler is_nfc at s k d = Inr ((b, s'), d')" "buf_ok d" "part_text_inv is_nfc s"
  then show "(b \<longleftrightarrow> k \<le> 1) \<and> part_text_inv is_nfc s' \<and> moves d d'"
    by (auto simp: part_text_handler_def part_text_inv_def key_le_step split: if_splits
        dest!: digest_item.field_ok bytes_item.field_ok)
qed

definition part_text_puts :: "(string \<Rightarrow> bool) \<Rightarrow> (string \<Rightarrow> string) \<Rightarrow> part_text \<Rightarrow> part_text_state put list" where
  "part_text_puts is_nfc nfc p =
     [must 0 (enc_bytes (pt_tid p)) (\<lambda>st. st\<lparr>xs_tid := Some (pt_tid p)\<rparr>),
      must 1 (enc_bytes (pt_text p)) (\<lambda>st. st\<lparr>xs_text := Some (pt_text p)\<rparr>)]"

lemma part_text_bytes_puts: "part_text_bytes is_nfc nfc p = enc_map (concat (map put_entry (part_text_puts is_nfc nfc p)) @ pt_extra p)"
  by (simp add: part_text_bytes_def mb_puts mb_into_bytes_def mb_put_extra_def part_text_puts_def)

lemma part_text_puts_ok:
  assumes "part_text_ok is_nfc p"
  shows "list_all (put_ok (part_text_handler is_nfc at)) (part_text_puts is_nfc nfc p)"
proof -
  note ok = assms [unfolded part_text_ok_def]
  show ?thesis
    unfolding part_text_puts_def list.pred_inject(2)
    by (intro conjI list.pred_inject(1); (rule digest_item.put_must bytes_item.put_must,
        (simp add: part_text_handler_def; fail), (use ok in \<open>simp; fail\<close>), (use ok in \<open>simp; fail\<close>)))
qed

lemma part_text_puts_run:
  "fold put_run (part_text_puts is_nfc nfc p) part_text_state_new =
    \<lparr>xs_tid = Some (pt_tid p),
     xs_text = Some (pt_text p)\<rparr>"
  by (simp add: part_text_puts_def part_text_state_new_def)

lemma part_text_finish_ok:
  "part_text_inv is_nfc st \<Longrightarrow> extra_ok 1 is_nfc extra \<Longrightarrow> part_text_finish st extra = Some p \<Longrightarrow> part_text_ok is_nfc p"
  by (auto simp: part_text_finish_def part_text_inv_def part_text_ok_def option.pred_set part_text_with_claimed_tid_def split: if_splits option.splits)

lemma part_text_finish_puts:
  "part_text_ok is_nfc p \<Longrightarrow> part_text_finish (fold put_run (part_text_puts is_nfc nfc p) part_text_state_new) (pt_extra p) = Some p"
  unfolding part_text_puts_run by (cases p) (auto simp: part_text_finish_def part_text_ok_def part_text_with_claimed_tid_def split: if_splits option.splits)

interpretation part_text_reader: reader "dec_part_text is_nfc nfc" "part_text_ok is_nfc" for is_nfc nfc
  unfolding dec_part_text_def
  by (rule record_reader [OF part_text_map.record_map_axioms])
     (simp add: part_text_inv_def part_text_state_new_def, rule part_text_finish_ok)

interpretation part_text_item: readable "dec_part_text is_nfc nfc" "part_text_ok is_nfc" "part_text_bytes is_nfc nfc" for is_nfc nfc
  unfolding dec_part_text_def
  by (rule record_readable [OF part_text_reader.reader_axioms [unfolded dec_part_text_def] part_text_map.record_map_axioms
        part_text_bytes_puts part_text_puts_ok])
     (assumption, simp add: part_text_puts_def, simp add: part_text_ok_def, erule part_text_finish_puts)

subsection \<open>Part readings\<close>

lemma canonical_not_nil: "\<not> canonical_item is_nfc []"
  by (auto dest: not_null_canonical simp: not_null_def)

record part_reading_state =
  zs_tid :: "digest option"
  zs_reader :: "string option"
  zs_segments :: "bytes option"
  zs_raw :: "bytes option"

definition part_reading_state_new :: part_reading_state where
  "part_reading_state_new =
     \<lparr>zs_tid = None, zs_reader = None, zs_segments = None, zs_raw = None\<rparr>"

definition part_reading_handler :: "(string \<Rightarrow> bool) \<Rightarrow> nat \<Rightarrow> part_reading_state handler" where
  "part_reading_handler is_nfc at s k d =
     (if k = 0 then field d_digest (\<lambda>v st. st\<lparr>zs_tid := Some v\<rparr>) s d
      else if k = 1 then field (d_text is_nfc) (\<lambda>v st. st\<lparr>zs_reader := Some v\<rparr>) s d
      else if k = 2 then field (d_skip_item is_nfc) (\<lambda>v st. st\<lparr>zs_segments := Some v\<rparr>) s d
      else if k = 3 then field (d_skip_item is_nfc) (\<lambda>v st. st\<lparr>zs_raw := Some v\<rparr>) s d
      else pass s d)"

definition part_reading_bytes :: "(string \<Rightarrow> bool) \<Rightarrow> (string \<Rightarrow> string) \<Rightarrow> part_reading \<Rightarrow> bytes" where
  "part_reading_bytes is_nfc nfc r =
     mb_into_bytes (mb_put_extra (pr_extra r)
       (mb_put_opt 3 (pr_raw r) (enc_opaque 0xA0)
       (mb_put 2 (enc_opaque 0x80 (pr_segments r))
       (mb_put 1 (enc_text is_nfc nfc (pr_reader r))
       (mb_put 0 (enc_bytes (pr_tid r)) [])))))"

definition part_reading_finish :: "part_reading_state \<Rightarrow> extra_fields \<Rightarrow> part_reading option" where
  "part_reading_finish s extra =
     (case (zs_tid s, zs_reader s, zs_segments s) of
        (Some t, Some r, Some g) \<Rightarrow> Some ((part_reading_new t r g)\<lparr>pr_raw := zs_raw s, pr_extra := extra\<rparr>)
      | _ \<Rightarrow> None)"

definition dec_part_reading :: "(string \<Rightarrow> bool) \<Rightarrow> (string \<Rightarrow> string) \<Rightarrow> dec \<Rightarrow> codec_error + part_reading \<times> dec" where
  "dec_part_reading is_nfc nfc = dec_record is_nfc (part_reading_handler is_nfc) part_reading_state_new part_reading_finish"

definition part_reading_ok :: "(string \<Rightarrow> bool) \<Rightarrow> part_reading \<Rightarrow> bool" where
  "part_reading_ok is_nfc r \<longleftrightarrow>
     digest_ok (pr_tid r) \<and> text_ok is_nfc (pr_reader r) \<and>
     canonical_item is_nfc (pr_segments r) \<and>
     pred_option (canonical_item is_nfc) (pr_raw r) \<and> extra_ok 3 is_nfc (pr_extra r)"

definition part_reading_inv :: "(string \<Rightarrow> bool) \<Rightarrow> part_reading_state \<Rightarrow> bool" where
  "part_reading_inv is_nfc st \<longleftrightarrow>
     pred_option digest_ok (zs_tid st) \<and>
     pred_option (text_ok is_nfc) (zs_reader st) \<and>
     pred_option (canonical_item is_nfc) (zs_segments st) \<and>
     pred_option (canonical_item is_nfc) (zs_raw st)"

interpretation part_reading_map: record_map "part_reading_handler is_nfc at" 3 "part_reading_inv is_nfc" for is_nfc at
proof
  fix k d s
  assume "3 < (k :: u16)"
  then show "part_reading_handler is_nfc at s k d = Inr ((False, s), d)"
    by (auto simp: part_reading_handler_def pass_def)
next
  fix s k d b s' d'
  assume "part_reading_handler is_nfc at s k d = Inr ((b, s'), d')" "buf_ok d" "part_reading_inv is_nfc s"
  then show "(b \<longleftrightarrow> k \<le> 3) \<and> part_reading_inv is_nfc s' \<and> moves d d'"
    by (auto simp: part_reading_handler_def part_reading_inv_def key_le_step split: if_splits
        dest!: digest_item.field_ok text_item.field_ok reader.field_ok [OF raw_item.reader_axioms])
qed

definition part_reading_puts :: "(string \<Rightarrow> bool) \<Rightarrow> (string \<Rightarrow> string) \<Rightarrow> part_reading \<Rightarrow> part_reading_state put list" where
  "part_reading_puts is_nfc nfc r =
     [must 0 (enc_bytes (pr_tid r)) (\<lambda>st. st\<lparr>zs_tid := Some (pr_tid r)\<rparr>),
      must 1 (enc_text is_nfc nfc (pr_reader r)) (\<lambda>st. st\<lparr>zs_reader := Some (pr_reader r)\<rparr>),
      must 2 (enc_opaque 0x80 (pr_segments r)) (\<lambda>st. st\<lparr>zs_segments := Some (pr_segments r)\<rparr>),
      may 3 (pr_raw r) (enc_opaque 0xA0) (\<lambda>v st. st\<lparr>zs_raw := v\<rparr>)]"

lemma part_reading_bytes_puts: "part_reading_bytes is_nfc nfc r = enc_map (concat (map put_entry (part_reading_puts is_nfc nfc r)) @ pr_extra r)"
  by (simp add: part_reading_bytes_def mb_puts mb_into_bytes_def mb_put_extra_def part_reading_puts_def)

lemma part_reading_puts_ok:
  assumes "part_reading_ok is_nfc r"
  shows "list_all (put_ok (part_reading_handler is_nfc at)) (part_reading_puts is_nfc nfc r)"
proof -
  note ok = assms [unfolded part_reading_ok_def]
  show ?thesis
    unfolding part_reading_puts_def list.pred_inject(2)
    by (intro conjI list.pred_inject(1); (rule digest_item.put_must text_item.put_must
        writable.put_must [OF opaque_item.writable_axioms]
        writable.put_may [OF opaque_item.writable_axioms],
        (simp add: part_reading_handler_def; fail), (use ok in \<open>simp add: enc_opaque_not_null [of is_nfc] not_null_canonical [of is_nfc]; fail\<close>), (use ok in \<open>simp add: enc_opaque_not_null [of is_nfc] not_null_canonical [of is_nfc]; fail\<close>)))
qed

lemma part_reading_puts_run:
  "fold put_run (part_reading_puts is_nfc nfc r) part_reading_state_new =
    \<lparr>zs_tid = Some (pr_tid r),
     zs_reader = Some (pr_reader r),
     zs_segments = Some (pr_segments r),
     zs_raw = pr_raw r\<rparr>"
  by (simp add: part_reading_puts_def part_reading_state_new_def)

lemma part_reading_finish_ok:
  "part_reading_inv is_nfc st \<Longrightarrow> extra_ok 3 is_nfc extra \<Longrightarrow> part_reading_finish st extra = Some r \<Longrightarrow> part_reading_ok is_nfc r"
  by (auto simp: part_reading_finish_def part_reading_inv_def part_reading_ok_def option.pred_set part_reading_new_def canonical_not_nil split: if_splits option.splits)

lemma part_reading_finish_puts:
  "part_reading_ok is_nfc r \<Longrightarrow> part_reading_finish (fold put_run (part_reading_puts is_nfc nfc r) part_reading_state_new) (pr_extra r) = Some r"
  unfolding part_reading_puts_run by (cases r) (auto simp: part_reading_finish_def part_reading_ok_def part_reading_new_def canonical_not_nil split: if_splits option.splits)

interpretation part_reading_reader: reader "dec_part_reading is_nfc nfc" "part_reading_ok is_nfc" for is_nfc nfc
  unfolding dec_part_reading_def
  by (rule record_reader [OF part_reading_map.record_map_axioms])
     (simp add: part_reading_inv_def part_reading_state_new_def, rule part_reading_finish_ok)

interpretation part_reading_item: readable "dec_part_reading is_nfc nfc" "part_reading_ok is_nfc" "part_reading_bytes is_nfc nfc" for is_nfc nfc
  unfolding dec_part_reading_def
  by (rule record_readable [OF part_reading_reader.reader_axioms [unfolded dec_part_reading_def] part_reading_map.record_map_axioms
        part_reading_bytes_puts part_reading_puts_ok])
     (assumption, simp add: part_reading_puts_def, simp add: part_reading_ok_def, erule part_reading_finish_puts)

subsection \<open>Datings\<close>

definition enc_axis :: "axis \<Rightarrow> bytes" where
  "enc_axis x = enc_u8 (axis_as_u8 x)"

interpretation axis_item: item_codec "d_code at axis_from_u8" enc_axis "\<lambda>_. True" for at
  unfolding enc_axis_def by (rule wire_code.code_codec [OF axis_code.wire_code_axioms])

lemma enc_axis_not_null [simp]: "not_null (enc_axis x)"
  by (simp add: enc_axis_def)

record dating_state =
  js_target :: "dating_target option"
  js_axis :: "axis option"
  js_value :: "dating_value option"
  js_basis :: "uid option"
  js_agent :: "string option"
  js_ts :: "hlc option"

definition dating_state_new :: dating_state where
  "dating_state_new =
     \<lparr>js_target = None, js_axis = None, js_value = None, js_basis = None, js_agent = None,
      js_ts = None\<rparr>"

definition dating_handler :: "(string \<Rightarrow> bool) \<Rightarrow> nat \<Rightarrow> dating_state handler" where
  "dating_handler is_nfc at s k d =
     (if k = 0 then field dec_dating_target (\<lambda>v st. st\<lparr>js_target := Some v\<rparr>) s d
      else if k = 1 then field (d_code at axis_from_u8) (\<lambda>v st. st\<lparr>js_axis := Some v\<rparr>) s d
      else if k = 2 then field (dec_dating_value is_nfc) (\<lambda>v st. st\<lparr>js_value := Some v\<rparr>) s d
      else if k = 3 then field d_uid (\<lambda>v st. st\<lparr>js_basis := Some v\<rparr>) s d
      else if k = 4 then field (d_parsed is_nfc at agent_new) (\<lambda>v st. st\<lparr>js_agent := Some v\<rparr>) s d
      else if k = 5 then field (dec_hlc is_nfc) (\<lambda>v st. st\<lparr>js_ts := Some v\<rparr>) s d
      else pass s d)"

definition dating_bytes :: "(string \<Rightarrow> bool) \<Rightarrow> (string \<Rightarrow> string) \<Rightarrow> dating \<Rightarrow> bytes" where
  "dating_bytes is_nfc nfc d =
     mb_into_bytes (mb_put_extra (dg_extra d)
       (mb_put 5 (enc_hlc is_nfc nfc (dg_ts d))
       (mb_put 4 (enc_text is_nfc nfc (dg_agent d))
       (mb_put_opt 3 (dg_basis d) enc_uid
       (mb_put 2 (enc_dating_value is_nfc nfc (dg_value d))
       (mb_put 1 (enc_axis (dg_axis d))
       (mb_put 0 (enc_dating_target (dg_target d)) [])))))))"

definition dating_finish :: "dating_state \<Rightarrow> extra_fields \<Rightarrow> dating option" where
  "dating_finish s extra =
     (case (js_target s, js_axis s, js_value s, js_agent s, js_ts s) of
        (Some t, Some ax, Some v, Some a, Some ts) \<Rightarrow>
          Some ((dating_new t ax v a ts)\<lparr>dg_basis := js_basis s, dg_extra := extra\<rparr>)
      | _ \<Rightarrow> None)"

definition dec_dating :: "(string \<Rightarrow> bool) \<Rightarrow> (string \<Rightarrow> string) \<Rightarrow> dec \<Rightarrow> codec_error + dating \<times> dec" where
  "dec_dating is_nfc nfc = dec_record is_nfc (dating_handler is_nfc) dating_state_new dating_finish"

definition dating_ok :: "(string \<Rightarrow> bool) \<Rightarrow> dating \<Rightarrow> bool" where
  "dating_ok is_nfc d \<longleftrightarrow>
     dating_target_ok (dg_target d) \<and> dating_value_ok is_nfc (dg_value d) \<and>
     pred_option uid_ok (dg_basis d) \<and> agent_ok is_nfc (dg_agent d) \<and>
     hlc_ok is_nfc (dg_ts d) \<and> extra_ok 5 is_nfc (dg_extra d)"

definition dating_inv :: "(string \<Rightarrow> bool) \<Rightarrow> dating_state \<Rightarrow> bool" where
  "dating_inv is_nfc st \<longleftrightarrow>
     pred_option dating_target_ok (js_target st) \<and>
     pred_option (dating_value_ok is_nfc) (js_value st) \<and>
     pred_option uid_ok (js_basis st) \<and> pred_option (agent_ok is_nfc) (js_agent st) \<and>
     pred_option (hlc_ok is_nfc) (js_ts st)"

interpretation dating_map: record_map "dating_handler is_nfc at" 5 "dating_inv is_nfc" for is_nfc at
proof
  fix k d s
  assume "5 < (k :: u16)"
  then show "dating_handler is_nfc at s k d = Inr ((False, s), d)"
    by (auto simp: dating_handler_def pass_def)
next
  fix s k d b s' d'
  assume "dating_handler is_nfc at s k d = Inr ((b, s'), d')" "buf_ok d" "dating_inv is_nfc s"
  then show "(b \<longleftrightarrow> k \<le> 5) \<and> dating_inv is_nfc s' \<and> moves d d'"
    by (auto simp: dating_handler_def dating_inv_def key_le_step split: if_splits
        dest!: dating_target_item.field_ok axis_item.field_ok dating_value_item.field_ok
          uid_item.field_ok agent_item.field_ok hlc_item.field_ok)
qed

definition dating_puts :: "(string \<Rightarrow> bool) \<Rightarrow> (string \<Rightarrow> string) \<Rightarrow> dating \<Rightarrow> dating_state put list" where
  "dating_puts is_nfc nfc d =
     [must 0 (enc_dating_target (dg_target d)) (\<lambda>st. st\<lparr>js_target := Some (dg_target d)\<rparr>),
      must 1 (enc_axis (dg_axis d)) (\<lambda>st. st\<lparr>js_axis := Some (dg_axis d)\<rparr>),
      must 2 (enc_dating_value is_nfc nfc (dg_value d)) (\<lambda>st. st\<lparr>js_value := Some (dg_value d)\<rparr>),
      may 3 (dg_basis d) enc_uid (\<lambda>v st. st\<lparr>js_basis := v\<rparr>),
      must 4 (enc_text is_nfc nfc (dg_agent d)) (\<lambda>st. st\<lparr>js_agent := Some (dg_agent d)\<rparr>),
      must 5 (enc_hlc is_nfc nfc (dg_ts d)) (\<lambda>st. st\<lparr>js_ts := Some (dg_ts d)\<rparr>)]"

lemma dating_bytes_puts: "dating_bytes is_nfc nfc d = enc_map (concat (map put_entry (dating_puts is_nfc nfc d)) @ dg_extra d)"
  by (simp add: dating_bytes_def mb_puts mb_into_bytes_def mb_put_extra_def dating_puts_def)

lemma dating_puts_ok:
  assumes "dating_ok is_nfc d"
  shows "list_all (put_ok (dating_handler is_nfc at)) (dating_puts is_nfc nfc d)"
proof -
  note ok = assms [unfolded dating_ok_def]
  show ?thesis
    unfolding dating_puts_def list.pred_inject(2)
    by (intro conjI list.pred_inject(1); (rule dating_target_item.put_must axis_item.put_must dating_value_item.put_must
        uid_item.put_may agent_item.put_must hlc_item.put_must,
        (simp add: dating_handler_def; fail), (use ok in \<open>simp; fail\<close>), (use ok in \<open>simp; fail\<close>)))
qed

lemma dating_puts_run:
  "fold put_run (dating_puts is_nfc nfc d) dating_state_new =
    \<lparr>js_target = Some (dg_target d),
     js_axis = Some (dg_axis d),
     js_value = Some (dg_value d),
     js_basis = dg_basis d,
     js_agent = Some (dg_agent d),
     js_ts = Some (dg_ts d)\<rparr>"
  by (simp add: dating_puts_def dating_state_new_def)

lemma dating_finish_ok:
  "dating_inv is_nfc st \<Longrightarrow> extra_ok 5 is_nfc extra \<Longrightarrow> dating_finish st extra = Some d \<Longrightarrow> dating_ok is_nfc d"
  by (auto simp: dating_finish_def dating_inv_def dating_ok_def option.pred_set dating_new_def split: if_splits option.splits)

lemma dating_finish_puts:
  "dating_ok is_nfc d \<Longrightarrow> dating_finish (fold put_run (dating_puts is_nfc nfc d) dating_state_new) (dg_extra d) = Some d"
  unfolding dating_puts_run by (cases d) (auto simp: dating_finish_def dating_ok_def dating_new_def split: if_splits option.splits)

interpretation dating_reader: reader "dec_dating is_nfc nfc" "dating_ok is_nfc" for is_nfc nfc
  unfolding dec_dating_def
  by (rule record_reader [OF dating_map.record_map_axioms])
     (simp add: dating_inv_def dating_state_new_def, rule dating_finish_ok)

interpretation dating_item: readable "dec_dating is_nfc nfc" "dating_ok is_nfc" "dating_bytes is_nfc nfc" for is_nfc nfc
  unfolding dec_dating_def
  by (rule record_readable [OF dating_reader.reader_axioms [unfolded dec_dating_def] dating_map.record_map_axioms
        dating_bytes_puts dating_puts_ok])
     (assumption, simp add: dating_puts_def, simp add: dating_ok_def, erule dating_finish_puts)

subsection \<open>Redactions\<close>

record redaction_state =
  ys_tid :: "digest option"
  ys_agent :: "string option"
  ys_ts :: "hlc option"
  ys_reason :: "uid option"

definition redaction_state_new :: redaction_state where
  "redaction_state_new =
     \<lparr>ys_tid = None, ys_agent = None, ys_ts = None, ys_reason = None\<rparr>"

definition redaction_handler :: "(string \<Rightarrow> bool) \<Rightarrow> nat \<Rightarrow> redaction_state handler" where
  "redaction_handler is_nfc at s k d =
     (if k = 0 then field d_digest (\<lambda>v st. st\<lparr>ys_tid := Some v\<rparr>) s d
      else if k = 1 then field (d_parsed is_nfc at agent_new) (\<lambda>v st. st\<lparr>ys_agent := Some v\<rparr>) s d
      else if k = 2 then field (dec_hlc is_nfc) (\<lambda>v st. st\<lparr>ys_ts := Some v\<rparr>) s d
      else if k = 3 then field d_uid (\<lambda>v st. st\<lparr>ys_reason := Some v\<rparr>) s d
      else pass s d)"

definition redaction_bytes :: "(string \<Rightarrow> bool) \<Rightarrow> (string \<Rightarrow> string) \<Rightarrow> redaction \<Rightarrow> bytes" where
  "redaction_bytes is_nfc nfc r =
     mb_into_bytes (mb_put_extra (rd_extra r)
       (mb_put_opt 3 (rd_reason r) enc_uid
       (mb_put 2 (enc_hlc is_nfc nfc (rd_ts r))
       (mb_put 1 (enc_text is_nfc nfc (rd_agent r))
       (mb_put 0 (enc_bytes (rd_tid r)) [])))))"

definition redaction_finish :: "redaction_state \<Rightarrow> extra_fields \<Rightarrow> redaction option" where
  "redaction_finish s extra =
     (case (ys_tid s, ys_agent s, ys_ts s) of
        (Some t, Some a, Some ts) \<Rightarrow>
          Some \<lparr>rd_tid = t, rd_agent = a, rd_ts = ts, rd_reason = ys_reason s, rd_extra = extra\<rparr>
      | _ \<Rightarrow> None)"

definition dec_redaction :: "(string \<Rightarrow> bool) \<Rightarrow> (string \<Rightarrow> string) \<Rightarrow> dec \<Rightarrow> codec_error + redaction \<times> dec" where
  "dec_redaction is_nfc nfc = dec_record is_nfc (redaction_handler is_nfc) redaction_state_new redaction_finish"

definition redaction_ok :: "(string \<Rightarrow> bool) \<Rightarrow> redaction \<Rightarrow> bool" where
  "redaction_ok is_nfc r \<longleftrightarrow>
     digest_ok (rd_tid r) \<and> agent_ok is_nfc (rd_agent r) \<and>
     hlc_ok is_nfc (rd_ts r) \<and> pred_option uid_ok (rd_reason r) \<and>
     extra_ok 3 is_nfc (rd_extra r)"

definition redaction_inv :: "(string \<Rightarrow> bool) \<Rightarrow> redaction_state \<Rightarrow> bool" where
  "redaction_inv is_nfc st \<longleftrightarrow>
     pred_option digest_ok (ys_tid st) \<and>
     pred_option (agent_ok is_nfc) (ys_agent st) \<and>
     pred_option (hlc_ok is_nfc) (ys_ts st) \<and> pred_option uid_ok (ys_reason st)"

interpretation redaction_map: record_map "redaction_handler is_nfc at" 3 "redaction_inv is_nfc" for is_nfc at
proof
  fix k d s
  assume "3 < (k :: u16)"
  then show "redaction_handler is_nfc at s k d = Inr ((False, s), d)"
    by (auto simp: redaction_handler_def pass_def)
next
  fix s k d b s' d'
  assume "redaction_handler is_nfc at s k d = Inr ((b, s'), d')" "buf_ok d" "redaction_inv is_nfc s"
  then show "(b \<longleftrightarrow> k \<le> 3) \<and> redaction_inv is_nfc s' \<and> moves d d'"
    by (auto simp: redaction_handler_def redaction_inv_def key_le_step split: if_splits
        dest!: digest_item.field_ok agent_item.field_ok hlc_item.field_ok uid_item.field_ok)
qed

definition redaction_puts :: "(string \<Rightarrow> bool) \<Rightarrow> (string \<Rightarrow> string) \<Rightarrow> redaction \<Rightarrow> redaction_state put list" where
  "redaction_puts is_nfc nfc r =
     [must 0 (enc_bytes (rd_tid r)) (\<lambda>st. st\<lparr>ys_tid := Some (rd_tid r)\<rparr>),
      must 1 (enc_text is_nfc nfc (rd_agent r)) (\<lambda>st. st\<lparr>ys_agent := Some (rd_agent r)\<rparr>),
      must 2 (enc_hlc is_nfc nfc (rd_ts r)) (\<lambda>st. st\<lparr>ys_ts := Some (rd_ts r)\<rparr>),
      may 3 (rd_reason r) enc_uid (\<lambda>v st. st\<lparr>ys_reason := v\<rparr>)]"

lemma redaction_bytes_puts: "redaction_bytes is_nfc nfc r = enc_map (concat (map put_entry (redaction_puts is_nfc nfc r)) @ rd_extra r)"
  by (simp add: redaction_bytes_def mb_puts mb_into_bytes_def mb_put_extra_def redaction_puts_def)

lemma redaction_puts_ok:
  assumes "redaction_ok is_nfc r"
  shows "list_all (put_ok (redaction_handler is_nfc at)) (redaction_puts is_nfc nfc r)"
proof -
  note ok = assms [unfolded redaction_ok_def]
  show ?thesis
    unfolding redaction_puts_def list.pred_inject(2)
    by (intro conjI list.pred_inject(1); (rule digest_item.put_must agent_item.put_must hlc_item.put_must uid_item.put_may,
        (simp add: redaction_handler_def; fail), (use ok in \<open>simp; fail\<close>), (use ok in \<open>simp; fail\<close>)))
qed

lemma redaction_puts_run:
  "fold put_run (redaction_puts is_nfc nfc r) redaction_state_new =
    \<lparr>ys_tid = Some (rd_tid r),
     ys_agent = Some (rd_agent r),
     ys_ts = Some (rd_ts r),
     ys_reason = rd_reason r\<rparr>"
  by (simp add: redaction_puts_def redaction_state_new_def)

lemma redaction_finish_ok:
  "redaction_inv is_nfc st \<Longrightarrow> extra_ok 3 is_nfc extra \<Longrightarrow> redaction_finish st extra = Some r \<Longrightarrow> redaction_ok is_nfc r"
  by (auto simp: redaction_finish_def redaction_inv_def redaction_ok_def option.pred_set split: if_splits option.splits)

lemma redaction_finish_puts:
  "redaction_ok is_nfc r \<Longrightarrow> redaction_finish (fold put_run (redaction_puts is_nfc nfc r) redaction_state_new) (rd_extra r) = Some r"
  unfolding redaction_puts_run by (cases r) (auto simp: redaction_finish_def redaction_ok_def split: if_splits option.splits)

interpretation redaction_reader: reader "dec_redaction is_nfc nfc" "redaction_ok is_nfc" for is_nfc nfc
  unfolding dec_redaction_def
  by (rule record_reader [OF redaction_map.record_map_axioms])
     (simp add: redaction_inv_def redaction_state_new_def, rule redaction_finish_ok)

interpretation redaction_item: readable "dec_redaction is_nfc nfc" "redaction_ok is_nfc" "redaction_bytes is_nfc nfc" for is_nfc nfc
  unfolding dec_redaction_def
  by (rule record_readable [OF redaction_reader.reader_axioms [unfolded dec_redaction_def] redaction_map.record_map_axioms
        redaction_bytes_puts redaction_puts_ok])
     (assumption, simp add: redaction_puts_def, simp add: redaction_ok_def, erule redaction_finish_puts)

end
