(* ===== verification/Envelope.thy ===== *)
theory Envelope
  imports Graph_Codecs Discourse_Codecs Library_Codecs
begin

section \<open>The record envelope (smysl-core/src/types/record.rs, src/cbor/envelope.rs)\<close>

text \<open>
  \<open>[type_code, payload]\<close> for every record type, a record of a type this build does not know kept
  verbatim, and the bare sequence of envelopes a store is. The record type codecs are those of
  \<open>Graph_Codecs\<close>, \<open>Discourse_Codecs\<close> and \<open>Library_Codecs\<close>; what is shown of an envelope follows from
  their contracts.
\<close>

subsection \<open>Records\<close>

datatype record_env =
    RUnit unit_core
  | RAttestation attestation
  | RRelation relation
  | RThread thread
  | RView view
  | RContention contention
  | RPackInfo pack_info
  | RSchemaDecl schema_decl
  | RLabelBinding label_binding
  | RWithdrawal withdrawal
  | RResolution resolution
  | RCommit commit
  | RManifest manifest
  | RPartText part_text
  | RDating dating
  | RPartReading part_reading
  | RRedaction redaction
  | RUnknown u64 bytes

definition known_codes :: "u64 list" where
  "known_codes = [1, 2, 3, 4, 5, 6, 7, 8, 10, 11, 12, 13, 14, 15, 17, 18, 19]"

fun type_code :: "record_env \<Rightarrow> u64" where
  "type_code (RUnit _) = 1"
| "type_code (RAttestation _) = 2"
| "type_code (RRelation _) = 3"
| "type_code (RThread _) = 4"
| "type_code (RView _) = 5"
| "type_code (RContention _) = 6"
| "type_code (RPackInfo _) = 7"
| "type_code (RSchemaDecl _) = 8"
| "type_code (RLabelBinding _) = 10"
| "type_code (RWithdrawal _) = 11"
| "type_code (RResolution _) = 12"
| "type_code (RCommit _) = 13"
| "type_code (RManifest _) = 14"
| "type_code (RPartText _) = 15"
| "type_code (RDating _) = 17"
| "type_code (RPartReading _) = 18"
| "type_code (RRedaction _) = 19"
| "type_code (RUnknown c _) = c"

fun type_name :: "record_env \<Rightarrow> string" where
  "type_name (RUnit _) = ''unit''"
| "type_name (RAttestation _) = ''attestation''"
| "type_name (RRelation _) = ''relation''"
| "type_name (RThread _) = ''thread''"
| "type_name (RView _) = ''view''"
| "type_name (RContention _) = ''contention''"
| "type_name (RPackInfo _) = ''packinfo''"
| "type_name (RSchemaDecl _) = ''schemadecl''"
| "type_name (RLabelBinding _) = ''labelbinding''"
| "type_name (RWithdrawal _) = ''withdrawal''"
| "type_name (RResolution _) = ''resolution''"
| "type_name (RCommit _) = ''commitment''"
| "type_name (RManifest _) = ''manifest''"
| "type_name (RPartText _) = ''parttext''"
| "type_name (RDating _) = ''dating''"
| "type_name (RPartReading _) = ''partreading''"
| "type_name (RRedaction _) = ''redaction''"
| "type_name (RUnknown _ _) = ''unknown''"

fun is_unknown :: "record_env \<Rightarrow> bool" where
  "is_unknown (RUnknown _ _) = True"
| "is_unknown _ = False"

fun is_hashed :: "record_env \<Rightarrow> bool" where
  "is_hashed (RUnit _) = True"
| "is_hashed _ = False"

fun as_unit :: "record_env \<Rightarrow> unit_core option" where
  "as_unit (RUnit u) = Some u"
| "as_unit _ = None"

subsection \<open>Writing\<close>

fun payload_bytes :: "(string \<Rightarrow> bool) \<Rightarrow> (string \<Rightarrow> string) \<Rightarrow> record_env \<Rightarrow> bytes" where
  "payload_bytes is_nfc nfc (RUnit x) = unit_bytes is_nfc nfc x"
| "payload_bytes is_nfc nfc (RAttestation x) = attestation_bytes is_nfc nfc x"
| "payload_bytes is_nfc nfc (RRelation x) = relation_bytes is_nfc nfc x"
| "payload_bytes is_nfc nfc (RThread x) = thread_bytes is_nfc nfc x"
| "payload_bytes is_nfc nfc (RView x) = view_bytes is_nfc nfc x"
| "payload_bytes is_nfc nfc (RContention x) = contention_bytes is_nfc nfc x"
| "payload_bytes is_nfc nfc (RPackInfo x) = packinfo_bytes is_nfc nfc x"
| "payload_bytes is_nfc nfc (RSchemaDecl x) = schema_decl_bytes is_nfc nfc x"
| "payload_bytes is_nfc nfc (RLabelBinding x) = label_binding_bytes is_nfc nfc x"
| "payload_bytes is_nfc nfc (RWithdrawal x) = withdrawal_bytes is_nfc nfc x"
| "payload_bytes is_nfc nfc (RResolution x) = resolution_bytes is_nfc nfc x"
| "payload_bytes is_nfc nfc (RCommit x) = commit_bytes is_nfc nfc x"
| "payload_bytes is_nfc nfc (RManifest x) = manifest_bytes is_nfc nfc x"
| "payload_bytes is_nfc nfc (RPartText x) = part_text_bytes is_nfc nfc x"
| "payload_bytes is_nfc nfc (RDating x) = dating_bytes is_nfc nfc x"
| "payload_bytes is_nfc nfc (RPartReading x) = part_reading_bytes is_nfc nfc x"
| "payload_bytes is_nfc nfc (RRedaction x) = redaction_bytes is_nfc nfc x"
| "payload_bytes is_nfc nfc (RUnknown _ payload) = payload"

definition to_cbor :: "(string \<Rightarrow> bool) \<Rightarrow> (string \<Rightarrow> string) \<Rightarrow> record_env \<Rightarrow> bytes" where
  "to_cbor is_nfc nfc r = enc_array_head 2 @ enc_uint (type_code r) @ payload_bytes is_nfc nfc r"

definition to_cbor_seq :: "(string \<Rightarrow> bool) \<Rightarrow> (string \<Rightarrow> string) \<Rightarrow> record_env list \<Rightarrow> bytes" where
  "to_cbor_seq is_nfc nfc rs = concat (map (to_cbor is_nfc nfc) rs)"

subsection \<open>Reading\<close>

definition read_as :: "('a \<Rightarrow> record_env) \<Rightarrow> codec_error + 'a \<times> dec \<Rightarrow> codec_error + record_env \<times> dec" where
  "read_as c r = and_then r (\<lambda>(x, d). Inr (c x, d))"

definition dec_payload :: "(string \<Rightarrow> bool) \<Rightarrow> (string \<Rightarrow> string) \<Rightarrow> u64 \<Rightarrow> dec \<Rightarrow> codec_error + record_env \<times> dec" where
  "dec_payload is_nfc nfc code d =
     (if code = 1 then read_as RUnit (dec_unit is_nfc nfc d)
      else if code = 2 then read_as RAttestation (dec_attestation is_nfc nfc d)
      else if code = 3 then read_as RRelation (dec_relation is_nfc nfc d)
      else if code = 4 then read_as RThread (dec_thread is_nfc nfc d)
      else if code = 5 then read_as RView (dec_view is_nfc nfc d)
      else if code = 6 then read_as RContention (dec_contention is_nfc nfc d)
      else if code = 7 then read_as RPackInfo (dec_packinfo is_nfc nfc d)
      else if code = 8 then read_as RSchemaDecl (dec_schema_decl is_nfc nfc d)
      else if code = 10 then read_as RLabelBinding (dec_label_binding is_nfc nfc d)
      else if code = 11 then read_as RWithdrawal (dec_withdrawal is_nfc nfc d)
      else if code = 12 then read_as RResolution (dec_resolution is_nfc nfc d)
      else if code = 13 then read_as RCommit (dec_commit is_nfc nfc d)
      else if code = 14 then read_as RManifest (dec_manifest is_nfc nfc d)
      else if code = 15 then read_as RPartText (dec_part_text is_nfc nfc d)
      else if code = 17 then read_as RDating (dec_dating is_nfc nfc d)
      else if code = 18 then read_as RPartReading (dec_part_reading is_nfc nfc d)
      else if code = 19 then read_as RRedaction (dec_redaction is_nfc nfc d)
      else read_as (RUnknown code) (d_skip_item is_nfc d))"

definition dec_envelope :: "(string \<Rightarrow> bool) \<Rightarrow> (string \<Rightarrow> string) \<Rightarrow> dec \<Rightarrow> codec_error + record_env \<times> dec" where
  "dec_envelope is_nfc nfc d =
     and_then (d_array_head d) (\<lambda>(n, d1).
       if n \<noteq> 2 then Inl (MalformedEnvelope (dpos d))
       else and_then (d_uint d1) (\<lambda>(code, d2). dec_payload is_nfc nfc code d2))"

definition from_cbor :: "(string \<Rightarrow> bool) \<Rightarrow> (string \<Rightarrow> string) \<Rightarrow> bytes \<Rightarrow> codec_error + record_env \<times> nat" where
  "from_cbor is_nfc nfc b = and_then (dec_envelope is_nfc nfc (dec_new b)) (\<lambda>(r, d). Inr (r, dpos d))"

text \<open>The loop stops quietly at a truncated record; every other error is returned.\<close>

partial_function (option) seq_loop :: "(string \<Rightarrow> bool) \<Rightarrow> (string \<Rightarrow> string) \<Rightarrow> bytes \<Rightarrow> nat \<Rightarrow> record_env list \<Rightarrow>
    (codec_error + record_env list \<times> nat) option" where
  [code]: "seq_loop is_nfc nfc b off out =
     (if off < length b
      then (case from_cbor is_nfc nfc (drop off b) of
              Inr (r, n) \<Rightarrow> seq_loop is_nfc nfc b (off + n) (out @ [r])
            | Inl (Truncated _) \<Rightarrow> Some (Inr (out, off))
            | Inl e \<Rightarrow> Some (Inl e))
      else Some (Inr (out, off)))"

definition from_cbor_seq :: "(string \<Rightarrow> bool) \<Rightarrow> (string \<Rightarrow> string) \<Rightarrow> bytes \<Rightarrow> (codec_error + record_env list \<times> nat) option" where
  "from_cbor_seq is_nfc nfc b = seq_loop is_nfc nfc b 0 []"

subsection \<open>The contract of the envelope\<close>

text \<open>
  \<open>record_read_ok\<close> are the records a decoder returns, \<open>record_ok\<close> those the writer gives back unchanged:
  they differ in a view's explicit default estimator only.
\<close>

fun record_ok :: "(string \<Rightarrow> bool) \<Rightarrow> record_env \<Rightarrow> bool" where
  "record_ok is_nfc (RUnit x) = unit_ok is_nfc x"
| "record_ok is_nfc (RAttestation x) = attestation_ok is_nfc x"
| "record_ok is_nfc (RRelation x) = relation_ok is_nfc x"
| "record_ok is_nfc (RThread x) = thread_ok is_nfc x"
| "record_ok is_nfc (RView x) = view_ok is_nfc x"
| "record_ok is_nfc (RContention x) = contention_ok is_nfc x"
| "record_ok is_nfc (RPackInfo x) = packinfo_ok is_nfc x"
| "record_ok is_nfc (RSchemaDecl x) = schema_decl_ok is_nfc x"
| "record_ok is_nfc (RLabelBinding x) = label_binding_ok is_nfc x"
| "record_ok is_nfc (RWithdrawal x) = withdrawal_ok is_nfc x"
| "record_ok is_nfc (RResolution x) = resolution_ok is_nfc x"
| "record_ok is_nfc (RCommit x) = commit_ok is_nfc x"
| "record_ok is_nfc (RManifest x) = manifest_ok is_nfc x"
| "record_ok is_nfc (RPartText x) = part_text_ok is_nfc x"
| "record_ok is_nfc (RDating x) = dating_ok is_nfc x"
| "record_ok is_nfc (RPartReading x) = part_reading_ok is_nfc x"
| "record_ok is_nfc (RRedaction x) = redaction_ok is_nfc x"
| "record_ok is_nfc (RUnknown c payload) = (c \<notin> set known_codes \<and> canonical_item is_nfc payload)"

fun record_read_ok :: "(string \<Rightarrow> bool) \<Rightarrow> record_env \<Rightarrow> bool" where
  "record_read_ok is_nfc (RView v) = view_read_ok is_nfc v"
| "record_read_ok is_nfc r = record_ok is_nfc r"

lemma read_as_Inr [simp]: "read_as c r = Inr (y, d') \<longleftrightarrow> (\<exists>x. r = Inr (x, d') \<and> y = c x)"
  by (auto simp: read_as_def and_then_Inr_iff)

context reader
begin

lemma read_as_ok:
  "read_as c (rd d) = Inr (r, d') \<Longrightarrow> buf_ok d \<Longrightarrow> (\<And>x. ok x \<Longrightarrow> good (c x)) \<Longrightarrow> good r \<and> moves d d'"
  by (auto dest!: reads_ok)

end

lemma dec_payload_cases:
  assumes "dec_payload is_nfc nfc code d = Inr (r, d')" "buf_ok d"
  shows "record_read_ok is_nfc r \<and> moves d d'"
proof -
  have c: "code = 1 \<or>
      code = 2 \<or>
      code = 3 \<or>
      code = 4 \<or>
      code = 5 \<or>
      code = 6 \<or>
      code = 7 \<or>
      code = 8 \<or>
      code = 10 \<or>
      code = 11 \<or>
      code = 12 \<or>
      code = 13 \<or>
      code = 14 \<or>
      code = 15 \<or>
      code = 17 \<or>
      code = 18 \<or>
      code = 19 \<or> code \<notin> set known_codes"
    by (simp add: known_codes_def) blast
  show ?thesis
    using c
  proof (elim disjE)
    assume new: "code \<notin> set known_codes"
    then have "read_as (RUnknown code) (d_skip_item is_nfc d) = Inr (r, d')"
      using assms(1) by (simp add: dec_payload_def known_codes_def)
    then show ?thesis
      using new assms(2) by (auto dest!: raw_item.reads_ok)
  qed (use assms(1) in \<open>simp_all add: dec_payload_def del: read_as_Inr\<close>,
       ((erule unit_reader.read_as_ok, rule assms(2), simp)
        | (erule attestation_reader.read_as_ok, rule assms(2), simp)
        | (erule relation_reader.read_as_ok, rule assms(2), simp)
        | (erule thread_reader.read_as_ok, rule assms(2), simp)
        | (erule view_reader.read_as_ok, rule assms(2), simp)
        | (erule contention_reader.read_as_ok, rule assms(2), simp)
        | (erule packinfo_reader.read_as_ok, rule assms(2), simp)
        | (erule schema_decl_reader.read_as_ok, rule assms(2), simp)
        | (erule label_binding_reader.read_as_ok, rule assms(2), simp)
        | (erule withdrawal_reader.read_as_ok, rule assms(2), simp)
        | (erule resolution_reader.read_as_ok, rule assms(2), simp)
        | (erule commit_reader.read_as_ok, rule assms(2), simp)
        | (erule manifest_reader.read_as_ok, rule assms(2), simp)
        | (erule part_text_reader.read_as_ok, rule assms(2), simp)
        | (erule dating_reader.read_as_ok, rule assms(2), simp)
        | (erule part_reading_reader.read_as_ok, rule assms(2), simp)
        | (erule redaction_reader.read_as_ok, rule assms(2), simp))+)
qed

interpretation envelope_reader: reader "dec_envelope is_nfc nfc" "record_read_ok is_nfc" for is_nfc nfc
proof
  fix d r d'
  assume "dec_envelope is_nfc nfc d = Inr (r, d')" and d: "buf_ok d"
  then obtain d1 code d2 where h: "d_array_head d = Inr (2, d1)" "d_uint d1 = Inr (code, d2)"
    and p: "dec_payload is_nfc nfc code d2 = Inr (r, d')"
    by (auto simp: dec_envelope_def and_then_Inr_iff split: if_splits)
  have "moves d d1"
    using h(1) d moves_written [of d "enc_array_head 2"] by (simp add: d_array_head_Inr)
  moreover from this have "moves d1 d2" using uint_item.reads_ok [OF h(2)] by blast
  moreover from this have "record_read_ok is_nfc r \<and> moves d2 d'" using dec_payload_cases [OF p] by blast
  ultimately show "record_read_ok is_nfc r \<and> moves d d'" by auto
qed

lemma dec_payload_written:
  assumes "ascii_is_nfc is_nfc" "record_ok is_nfc r" "starts d (payload_bytes is_nfc nfc r)" "buf_ok d"
  shows "dec_payload is_nfc nfc (type_code r) d = Inr (r, d_move d (length (payload_bytes is_nfc nfc r)))"
proof (cases r)
  case (RUnknown c payload)
  then have "d_skip_item is_nfc d = Inr (payload, d_move d (length payload))"
    using assms by (intro raw_item.written) simp_all
  then show ?thesis
    using RUnknown assms(2) by (simp add: dec_payload_def known_codes_def read_as_def)
next
  case (RUnit x)
  with assms show ?thesis
    by (simp add: dec_payload_def read_as_def writable.written [OF readable.axioms(2) [OF unit_readable [OF assms(1)]]])
next
  case (RAttestation x)
  with assms show ?thesis
    by (simp add: dec_payload_def read_as_def attestation_item.written)
next
  case (RRelation x)
  with assms show ?thesis
    by (simp add: dec_payload_def read_as_def relation_item.written)
next
  case (RThread x)
  with assms show ?thesis
    by (simp add: dec_payload_def read_as_def thread_item.written)
next
  case (RView x)
  with assms show ?thesis
    by (simp add: dec_payload_def read_as_def writable.written [OF view_writable [OF assms(1)]])
next
  case (RContention x)
  with assms show ?thesis
    by (simp add: dec_payload_def read_as_def contention_item.written)
next
  case (RPackInfo x)
  with assms show ?thesis
    by (simp add: dec_payload_def read_as_def packinfo_item.written)
next
  case (RSchemaDecl x)
  with assms show ?thesis
    by (simp add: dec_payload_def read_as_def schema_decl_item.written)
next
  case (RLabelBinding x)
  with assms show ?thesis
    by (simp add: dec_payload_def read_as_def label_binding_item.written)
next
  case (RWithdrawal x)
  with assms show ?thesis
    by (simp add: dec_payload_def read_as_def withdrawal_item.written)
next
  case (RResolution x)
  with assms show ?thesis
    by (simp add: dec_payload_def read_as_def resolution_item.written)
next
  case (RCommit x)
  with assms show ?thesis
    by (simp add: dec_payload_def read_as_def commit_item.written)
next
  case (RManifest x)
  with assms show ?thesis
    by (simp add: dec_payload_def read_as_def writable.written [OF readable.axioms(2) [OF manifest_readable [OF assms(1)]]])
next
  case (RPartText x)
  with assms show ?thesis
    by (simp add: dec_payload_def read_as_def part_text_item.written)
next
  case (RDating x)
  with assms show ?thesis
    by (simp add: dec_payload_def read_as_def dating_item.written)
next
  case (RPartReading x)
  with assms show ?thesis
    by (simp add: dec_payload_def read_as_def part_reading_item.written)
next
  case (RRedaction x)
  with assms show ?thesis
    by (simp add: dec_payload_def read_as_def redaction_item.written)
qed

lemma envelope_writable:
  assumes "ascii_is_nfc is_nfc"
  shows "writable (dec_envelope is_nfc nfc) (record_ok is_nfc) (to_cbor is_nfc nfc)"
proof
  fix r d
  assume r: "record_ok is_nfc r" and d: "starts d (to_cbor is_nfc nfc r)" "buf_ok d"
  let ?d1 = "d_move d (length (enc_array_head 2))"
  let ?d2 = "d_move ?d1 (length (enc_uint (type_code r)))"
  have "d_array_head d = Inr (2, ?d1)" "d_uint ?d1 = Inr (type_code r, ?d2)"
    using d by (auto simp: to_cbor_def array_head_written uint_item.written)
  moreover have "dec_payload is_nfc nfc (type_code r) ?d2 = Inr (r, d_move ?d2 (length (payload_bytes is_nfc nfc r)))"
    using d r by (intro dec_payload_written [OF assms]) (simp_all add: to_cbor_def)
  ultimately show "dec_envelope is_nfc nfc d = Inr (r, d_move d (length (to_cbor is_nfc nfc r)))"
    by (simp add: dec_envelope_def to_cbor_def add.assoc)
qed

subsection \<open>One envelope in a buffer\<close>

lemma from_cbor_written:
  assumes "ascii_is_nfc is_nfc" "record_ok is_nfc r" "length (to_cbor is_nfc nfc r @ rest) < 2 ^ 64"
  shows "from_cbor is_nfc nfc (to_cbor is_nfc nfc r @ rest) = Inr (r, length (to_cbor is_nfc nfc r))"
  using writable.written_new [OF envelope_writable [OF assms(1)] assms(2,3)]
  by (simp add: from_cbor_def dec_new_def)

lemma to_cbor_not_nil: "to_cbor is_nfc nfc r \<noteq> []"
  by (simp add: to_cbor_def enc_array_head_def enc_head_parts)

lemma from_cbor_Inr:
  assumes "from_cbor is_nfc nfc b = Inr (r, n)" "length b < 2 ^ 64"
  shows "record_read_ok is_nfc r \<and> 0 < n \<and> n \<le> length b"
proof -
  obtain d' where e: "dec_envelope is_nfc nfc (dec_new b) = Inr (r, d')" and n: "n = dpos d'"
    using assms(1) by (auto simp: from_cbor_def and_then_Inr_iff)
  then obtain d1 code d2 where h: "d_array_head (dec_new b) = Inr (2, d1)" "d_uint d1 = Inr (code, d2)"
    and p: "dec_payload is_nfc nfc code d2 = Inr (r, d')"
    by (auto simp: dec_envelope_def and_then_Inr_iff split: if_splits)
  have "d1 = d_move (dec_new b) (length (enc_array_head 2))" "moves (dec_new b) d1"
    using h(1) assms(2) moves_written [of "dec_new b" "enc_array_head 2"] by (simp_all add: d_array_head_Inr)
  moreover from this have "moves d1 d2" using uint_item.reads_ok [OF h(2)] by blast
  moreover from this have "moves d2 d'" using dec_payload_cases [OF p] by blast
  ultimately have "0 < dpos d'"
    by (auto simp: enc_array_head_def enc_head_parts)
  moreover have "record_read_ok is_nfc r \<and> moves (dec_new b) d'"
    using envelope_reader.reads_ok [OF e] assms(2) by simp
  then have "record_read_ok is_nfc r" "dpos d' \<le> length b"
    by (simp_all add: dec_new_def)
  ultimately show ?thesis by (simp add: n)
qed

text \<open>The one value a decoder returns and its writer does not give back.\<close>

definition names_default_estimator :: "record_env \<Rightarrow> bool" where
  "names_default_estimator r \<longleftrightarrow>
     (case r of RView v \<Rightarrow> gr_estimator (vw_granularity v) = PeKnown Utf8Div4 | _ \<Rightarrow> False)"

lemma record_read_ok_ok:
  assumes "ascii_is_nfc is_nfc" "record_read_ok is_nfc r"
  shows "record_ok is_nfc r \<longleftrightarrow> \<not> names_default_estimator r"
proof -
  have "text_ok is_nfc (gr_profile granularity_standard)"
    by (intro text_ok_ascii assms(1)) (simp_all add: granularity_standard_def char_code_def)
  then have g: "granularity_ok is_nfc g \<longleftrightarrow> granularity_read_ok is_nfc g \<and> gr_estimator g \<noteq> PeKnown Utf8Div4" for g
    by (auto simp: granularity_ok_def granularity_read_ok_def est_ok_def profile_read_ok_def)
  show ?thesis
    using assms(2) by (cases r) (auto simp: names_default_estimator_def view_ok_def view_read_ok_def g)
qed

lemma seq_loop_records:
  assumes ok: "ascii_is_nfc is_nfc" "list_all (record_ok is_nfc) rs"
    and len: "length (pre @ to_cbor_seq is_nfc nfc rs @ tail) < 2 ^ 64"
  shows "seq_loop is_nfc nfc (pre @ to_cbor_seq is_nfc nfc rs @ tail) (length pre) out =
    seq_loop is_nfc nfc (pre @ to_cbor_seq is_nfc nfc rs @ tail) (length (pre @ to_cbor_seq is_nfc nfc rs)) (out @ rs)"
  using ok(2) len
proof (induction rs arbitrary: pre out)
  case (Cons r rs)
  let ?r = "to_cbor is_nfc nfc r"
  have "from_cbor is_nfc nfc (?r @ to_cbor_seq is_nfc nfc rs @ tail) = Inr (r, length ?r)"
    using Cons.prems by (intro from_cbor_written [OF ok(1)]) (simp_all add: to_cbor_seq_def)
  then have "seq_loop is_nfc nfc (pre @ to_cbor_seq is_nfc nfc (r # rs) @ tail) (length pre) out =
      seq_loop is_nfc nfc ((pre @ ?r) @ to_cbor_seq is_nfc nfc rs @ tail) (length (pre @ ?r)) (out @ [r])"
    using to_cbor_not_nil [of is_nfc nfc r]
    by (subst seq_loop.simps) (simp add: to_cbor_seq_def)
  also have "\<dots> = seq_loop is_nfc nfc ((pre @ ?r) @ to_cbor_seq is_nfc nfc rs @ tail)
      (length ((pre @ ?r) @ to_cbor_seq is_nfc nfc rs)) ((out @ [r]) @ rs)"
    using Cons.prems by (intro Cons.IH) (simp_all add: to_cbor_seq_def)
  finally show ?case by (simp add: to_cbor_seq_def add.assoc)
qed (simp add: to_cbor_seq_def)

lemma seq_loop_result:
  assumes "length b < 2 ^ 64" "off \<le> length b" "list_all (record_read_ok is_nfc) out"
  shows "\<exists>res. seq_loop is_nfc nfc b off out = Some res \<and>
    (\<forall>rs n. res = Inr (rs, n) \<longrightarrow> n \<le> length b \<and> list_all (record_read_ok is_nfc) rs)"
  using assms(2,3)
proof (induction "length b - off" arbitrary: off out rule: less_induct)
  case less
  show ?case
  proof (cases "off < length b")
    case True
    show ?thesis
    proof (cases "from_cbor is_nfc nfc (drop off b)")
      case (Inl e)
      then show ?thesis using True less.prems by (subst seq_loop.simps) (cases e; simp)
    next
      case (Inr p)
      obtain r n where p: "p = (r, n)" by fastforce
      with Inr have r: "record_read_ok is_nfc r" "0 < n" "n \<le> length (drop off b)"
        using assms(1) from_cbor_Inr [of is_nfc nfc "drop off b" r n] by simp_all
      then have "length b - (off + n) < length b - off" "off + n \<le> length b" using True by simp_all
      then show ?thesis
        using True Inr p r less.prems less.hyps [of "off + n" "out @ [r]"]
        by (subst seq_loop.simps) simp
    qed
  qed (use less.prems in \<open>subst seq_loop.simps, simp\<close>)
qed


subsection \<open>A record to check against\<close>

definition sample_withdrawal :: record_env where
  "sample_withdrawal =
     RWithdrawal \<lparr>wd_relation = Uid (replicate 32 7), wd_agent = ''human:ada'',
       wd_ts = \<lparr>wall_ms = 5, counter = 0, hlc_agent = ''human:ada''\<rparr>, wd_reason = None, wd_extra = []\<rparr>"

lemma sample_nfc: "ascii_is_nfc (\<lambda>_. True)"
  by (simp add: ascii_is_nfc_def)

lemma sample_ok: "record_ok (\<lambda>_. True) sample_withdrawal"
proof -
  have "text_ok (\<lambda>_. True) ''human:ada''"
    by (rule text_ok_ascii [OF sample_nfc]) (simp_all add: char_code_def)
  moreover have "agent_new ''human:ada'' = Inr ''human:ada''" by code_simp
  ultimately show ?thesis
    by (simp add: sample_withdrawal_def withdrawal_ok_def uid_ok_def agent_ok_def hlc_ok_def extra_ok_def)
qed

lemma sample_estimator: "\<not> names_default_estimator sample_withdrawal"
  by (simp add: names_default_estimator_def sample_withdrawal_def)

lemma sample_length: "length (to_cbor (\<lambda>_. True) (\<lambda>s. s) sample_withdrawal) = 63"
  by code_simp

subsection \<open>Properties\<close>

text \<open>
  C33. A well-formed record written as an envelope is read back from a buffer that starts with it, as the
  same record, and the reader stops where the envelope ends. Well formed (\<open>record_ok\<close>) means, per type, that
  texts are normalised, names parse and sets are ascending, and leaves out what the writer does not write: a
  relation with attestations attached, which travel as records of their own, and a view that names the
  default estimator explicitly. The buffer is shorter than \<open>2 ^ 64\<close> bytes.
\<close>

theorem record_round_trip:
  assumes "ascii_is_nfc is_nfc" "record_ok is_nfc r" "length (to_cbor is_nfc nfc r @ rest) < 2 ^ 64"
  shows "from_cbor is_nfc nfc (to_cbor is_nfc nfc r @ rest) = Inr (r, length (to_cbor is_nfc nfc r))"
  using assms by (rule from_cbor_written)

theorem record_round_trip_witness:
  "from_cbor (\<lambda>_. True) (\<lambda>s. s) (to_cbor (\<lambda>_. True) (\<lambda>s. s) sample_withdrawal @ [0xFF]) = Inr (sample_withdrawal, 63)"
  using record_round_trip [OF sample_nfc sample_ok, of "\<lambda>s. s" "[0xFF]"] by (simp add: sample_length)

text \<open>
  C34. Whatever bytes arrive, a record the reader returns is well formed, and the number of bytes it
  says it consumed is positive and within the buffer.
\<close>

theorem record_decodes_within:
  assumes "from_cbor is_nfc nfc b = Inr (r, n)" "length b < 2 ^ 64"
  shows "record_read_ok is_nfc r \<and> 0 < n \<and> n \<le> length b"
  using assms by (rule from_cbor_Inr)

theorem record_decodes_within_witness:
  "record_read_ok (\<lambda>_. True) sample_withdrawal \<and> 0 < (63 :: nat) \<and>
     63 \<le> length (to_cbor (\<lambda>_. True) (\<lambda>s. s) sample_withdrawal)"
  by (rule record_decodes_within [where nfc = "\<lambda>s. s"])
     (use from_cbor_written [OF sample_nfc sample_ok, of "\<lambda>s. s" "[]"] in \<open>simp_all add: sample_length\<close>)

text \<open>
  C35. A record that was read, from any bytes, is written as bytes that read as the same record: the
  spellings a decoder accepts beyond the writer's are lost, the record is not. The one exception is
  a view that names the default estimator.
\<close>

theorem record_rewrites:
  assumes "from_cbor is_nfc nfc b = Inr (r, n)" "length b < 2 ^ 64" "ascii_is_nfc is_nfc"
    and "\<not> names_default_estimator r" "length (to_cbor is_nfc nfc r) < 2 ^ 64"
  shows "from_cbor is_nfc nfc (to_cbor is_nfc nfc r) = Inr (r, length (to_cbor is_nfc nfc r))"
proof -
  have "record_ok is_nfc r"
    using from_cbor_Inr [OF assms(1,2)] record_read_ok_ok [OF assms(3)] assms(4) by simp
  then show ?thesis using from_cbor_written [OF assms(3), of r nfc "[]"] assms(5) by simp
qed

theorem record_rewrites_witness:
  "from_cbor (\<lambda>_. True) (\<lambda>s. s) (to_cbor (\<lambda>_. True) (\<lambda>s. s) sample_withdrawal) = Inr (sample_withdrawal, 63)"
  using record_rewrites [of "\<lambda>_. True" "\<lambda>s. s" "to_cbor (\<lambda>_. True) (\<lambda>s. s) sample_withdrawal" sample_withdrawal 63]
    from_cbor_written [OF sample_nfc sample_ok, of "\<lambda>s. s" "[]"] sample_nfc
  by (simp add: sample_length sample_estimator)

lemma default_estimator_dropped:
  "to_cbor is_nfc nfc (RView (v\<lparr>vw_granularity := g\<lparr>gr_estimator := PeKnown Utf8Div4\<rparr>\<rparr>)) =
   to_cbor is_nfc nfc (RView (v\<lparr>vw_granularity := g\<lparr>gr_estimator := PeUnset\<rparr>\<rparr>))"
  by (cases "gr_admission_code g") (simp_all add: to_cbor_def view_bytes_def granularity_bytes_def wire_id_def granularity_admission_code_def)

text \<open>C36. Two well-formed records with the same envelope bytes are the same record.\<close>

theorem record_encoding_distinguishes:
  assumes "ascii_is_nfc is_nfc" "record_ok is_nfc r" "record_ok is_nfc r'"
    and "to_cbor is_nfc nfc r = to_cbor is_nfc nfc r'" "length (to_cbor is_nfc nfc r) < 2 ^ 64"
  shows "r = r'"
  using writable.distinguishes [OF envelope_writable [OF assms(1)] assms(2-5)] .

theorem record_encoding_distinguishes_witness:
  "to_cbor (\<lambda>_. True) (\<lambda>s. s) sample_withdrawal \<noteq> to_cbor (\<lambda>_. True) (\<lambda>s. s) (RUnknown 9 [0xA0])"
proof
  assume eq: "to_cbor (\<lambda>_. True) (\<lambda>s. s) sample_withdrawal = to_cbor (\<lambda>_. True) (\<lambda>s. s) (RUnknown 9 [0xA0])"
  have "canonical_item (\<lambda>_. True) [0xA0]"
    unfolding canonical_item_def
    by (rule exI [of _ "IMap []"]) (simp add: enc_head_parts head_info_def head_width_def)
  then have "record_ok (\<lambda>_. True) (RUnknown 9 [0xA0])" by (simp add: known_codes_def)
  from record_encoding_distinguishes [OF sample_nfc sample_ok this eq] show False
    by (simp add: sample_length) (simp add: sample_withdrawal_def)
qed

text \<open>
  A record of a type this build does not know is kept verbatim: written again, it is the bytes
  it was read from. Its type code is none of the known ones.
\<close>

theorem unknown_record_verbatim:
  assumes "from_cbor is_nfc nfc b = Inr (RUnknown c payload, n)" "length b < 2 ^ 64"
  shows "to_cbor is_nfc nfc (RUnknown c payload) = take n b \<and> c \<notin> set known_codes"
proof -
  obtain d1 d2 d' where h: "d_array_head (dec_new b) = Inr (2, d1)" "d_uint d1 = Inr (c, d2)"
    and p: "d_skip_item is_nfc d2 = Inr (payload, d')" and c: "c \<notin> set known_codes" and n: "n = dpos d'"
    using assms(1) by (auto simp: from_cbor_def dec_envelope_def dec_payload_def and_then_Inr_iff known_codes_def
        split: if_splits)
  have "starts (dec_new b) (to_cbor is_nfc nfc (RUnknown c payload)) \<and>
      d' = d_move (dec_new b) (length (to_cbor is_nfc nfc (RUnknown c payload)))"
    using h p assms(2) by (auto simp: d_array_head_Inr uint_item.read_iff raw_item.read_iff to_cbor_def)
  then show ?thesis using c by (auto simp: n starts_def dec_new_def)
qed

theorem unknown_record_verbatim_witness:
  "to_cbor (\<lambda>_. True) (\<lambda>s. s) (RUnknown 9 [0xA0]) = take 3 [0x82, 0x09, 0xA0] \<and> 9 \<notin> set known_codes"
  by (rule unknown_record_verbatim [of "\<lambda>_. True" "\<lambda>s. s" "[0x82, 0x09, 0xA0]" 9 "[0xA0]" 3]) (code_simp, simp)

text \<open>
  C37. A sequence of well-formed records (\<open>record_ok\<close>, so no relation with attestations attached and no view
  that names the default estimator explicitly) is read back whole; when something that is not a record
  follows, a truncated record ends the reading quietly at the last complete one, and any other error is
  returned. The buffer is shorter than \<open>2 ^ 64\<close> bytes.
\<close>

theorem seq_reads_up_to_error:
  assumes "ascii_is_nfc is_nfc" "list_all (record_ok is_nfc) rs"
    and "length (to_cbor_seq is_nfc nfc rs @ tail) < 2 ^ 64"
    and "tail = [] \<or> from_cbor is_nfc nfc tail = Inl e"
  shows "from_cbor_seq is_nfc nfc (to_cbor_seq is_nfc nfc rs @ tail) =
    Some (if tail = [] \<or> (\<exists>at. e = Truncated at) then Inr (rs, length (to_cbor_seq is_nfc nfc rs)) else Inl e)"
proof -
  have "from_cbor_seq is_nfc nfc (to_cbor_seq is_nfc nfc rs @ tail) =
      seq_loop is_nfc nfc (to_cbor_seq is_nfc nfc rs @ tail) (length (to_cbor_seq is_nfc nfc rs)) rs"
    using seq_loop_records [OF assms(1,2), of "[]" nfc tail "[]"] assms(3) by (simp add: from_cbor_seq_def)
  also have "\<dots> = Some (if tail = [] \<or> (\<exists>at. e = Truncated at) then Inr (rs, length (to_cbor_seq is_nfc nfc rs)) else Inl e)"
    using assms(4) by (subst seq_loop.simps) (cases e; auto)
  finally show ?thesis .
qed

theorem seq_reads_up_to_error_witness:
  "from_cbor_seq (\<lambda>_. True) (\<lambda>s. s) (to_cbor_seq (\<lambda>_. True) (\<lambda>s. s) [sample_withdrawal] @ [0x82]) =
     Some (Inr ([sample_withdrawal], 63))"
proof -
  have "from_cbor (\<lambda>_. True) (\<lambda>s. s) [0x82] = Inl (Truncated 1)" by code_simp
  then show ?thesis
    using seq_reads_up_to_error [of "\<lambda>_. True" "[sample_withdrawal]" "\<lambda>s. s" "[0x82]" "Truncated 1"] sample_nfc sample_ok
    by (simp add: to_cbor_seq_def sample_length)
qed

text \<open>
  C38. Reading a sequence always ends, with an error or with records and an offset within the input;
  every record returned is well formed.
\<close>

theorem seq_reading_ends:
  assumes "length b < 2 ^ 64"
  shows "\<exists>res. from_cbor_seq is_nfc nfc b = Some res \<and>
    (\<forall>rs n. res = Inr (rs, n) \<longrightarrow> n \<le> length b \<and> list_all (record_read_ok is_nfc) rs)"
  unfolding from_cbor_seq_def using seq_loop_result [OF assms, of 0 is_nfc "[]"] by simp

theorem seq_reading_ends_witness:
  "\<exists>res. from_cbor_seq (\<lambda>_. True) (\<lambda>s. s) [0x82, 0x09] = Some res \<and>
    (\<forall>rs n. res = Inr (rs, n) \<longrightarrow> n \<le> length [0x82 :: u8, 0x09] \<and> list_all (record_read_ok (\<lambda>_. True)) rs)"
  by (rule seq_reading_ends) simp

end

