(* ===== verification/Identity.thy ===== *)
theory Identity
  imports Envelope
begin

section \<open>Identities of records (smysl-core/src/hash.rs, ids.rs, types/library.rs)\<close>

text \<open>
  \<open>canonical_uid\<close> and \<open>verify\<close>, and the identities of library records, each the hash of a domain byte
  and the canonical bytes of what it names. BLAKE3 is the parameter \<open>hash\<close>: what is shown holds of
  any function on bytes.
\<close>

subsection \<open>Units\<close>

definition canonical_uid :: "hasher \<Rightarrow> (string \<Rightarrow> bool) \<Rightarrow> (string \<Rightarrow> string) \<Rightarrow> unit_core \<Rightarrow> uid" where
  "canonical_uid hash is_nfc nfc u = Uid (hash (unit_bytes is_nfc nfc u))"

definition verify :: "hasher \<Rightarrow> (string \<Rightarrow> bool) \<Rightarrow> (string \<Rightarrow> string) \<Rightarrow> unit_core \<Rightarrow> uid \<Rightarrow> integrity_error + unit" where
  "verify hash is_nfc nfc u stored =
     (let recomputed = canonical_uid hash is_nfc nfc u in
      if recomputed = stored then Inr () else Inl (HashMismatch stored recomputed))"

subsection \<open>Library identities\<close>

datatype digest_kind = KTid | KMid | KDid | KRdid

fun digest_domain :: "digest_kind \<Rightarrow> u8" where
  "digest_domain KTid = 0x0F"
| "digest_domain KMid = 0x0E"
| "digest_domain KDid = 0x11"
| "digest_domain KRdid = 0x12"

fun digest_prefix :: "digest_kind \<Rightarrow> string" where
  "digest_prefix KTid = ''t3:''"
| "digest_prefix KMid = ''m3:''"
| "digest_prefix KDid = ''d3:''"
| "digest_prefix KRdid = ''r3:''"

definition digest_of :: "hasher \<Rightarrow> digest_kind \<Rightarrow> bytes \<Rightarrow> digest" where
  "digest_of hash k preimage = hash (digest_domain k # preimage)"

definition digest_encode :: "digest_kind \<Rightarrow> digest \<Rightarrow> nat \<Rightarrow> string" where
  "digest_encode k b chars = digest_prefix k @ base32_body b chars"

definition digest_short :: "digest_kind \<Rightarrow> digest \<Rightarrow> string" where
  "digest_short k b = digest_encode k b 26"

definition digest_canonical :: "digest_kind \<Rightarrow> digest \<Rightarrow> string" where
  "digest_canonical k b = digest_encode k b 52"

definition digest_parse :: "digest_kind \<Rightarrow> string \<Rightarrow> integrity_error + digest" where
  "digest_parse k s =
     and_then (ok_or (strip_prefix (digest_prefix k) s) (TruncatedUidText s)) (\<lambda>body.
       if length body \<noteq> 52 then Inl (TruncatedUidText s)
       else ok_or (decode_body body 0 zero_bytes) (TruncatedUidText s))"

definition digest_as_uid :: "digest \<Rightarrow> uid" where
  "digest_as_uid b = Uid b"

definition manifest_mid :: "hasher \<Rightarrow> (string \<Rightarrow> bool) \<Rightarrow> (string \<Rightarrow> string) \<Rightarrow> manifest \<Rightarrow> digest" where
  "manifest_mid hash is_nfc nfc m = digest_of hash KMid (manifest_bytes is_nfc nfc m)"

definition part_reading_rdid :: "hasher \<Rightarrow> (string \<Rightarrow> bool) \<Rightarrow> (string \<Rightarrow> string) \<Rightarrow> part_reading \<Rightarrow> digest" where
  "part_reading_rdid hash is_nfc nfc r = digest_of hash KRdid (part_reading_bytes is_nfc nfc r)"

definition dating_did :: "hasher \<Rightarrow> (string \<Rightarrow> bool) \<Rightarrow> (string \<Rightarrow> string) \<Rightarrow> dating \<Rightarrow> digest" where
  "dating_did hash is_nfc nfc d = digest_of hash KDid (dating_bytes is_nfc nfc d)"

subsection \<open>What an identity names\<close>

datatype identified =
    IdUnit unit_core
  | IdRelation rel_kind uid uid
  | IdPart bytes
  | IdManifest manifest
  | IdReading part_reading
  | IdDating dating

fun identity_preimage :: "(string \<Rightarrow> bool) \<Rightarrow> (string \<Rightarrow> string) \<Rightarrow> identified \<Rightarrow> bytes" where
  "identity_preimage is_nfc nfc (IdUnit u) = unit_bytes is_nfc nfc u"
| "identity_preimage is_nfc nfc (IdRelation k a b) = relation_preimage k a b"
| "identity_preimage is_nfc nfc (IdPart t) = digest_domain KTid # t"
| "identity_preimage is_nfc nfc (IdManifest m) = digest_domain KMid # manifest_bytes is_nfc nfc m"
| "identity_preimage is_nfc nfc (IdReading r) = digest_domain KRdid # part_reading_bytes is_nfc nfc r"
| "identity_preimage is_nfc nfc (IdDating d) = digest_domain KDid # dating_bytes is_nfc nfc d"

fun identified_ok :: "(string \<Rightarrow> bool) \<Rightarrow> identified \<Rightarrow> bool" where
  "identified_ok is_nfc (IdUnit u) = unit_ok is_nfc u"
| "identified_ok is_nfc (IdRelation k a b) = (rel_parse (rel_as_str k) = Inr k \<and> uid_ok a \<and> uid_ok b)"
| "identified_ok is_nfc (IdPart t) = True"
| "identified_ok is_nfc (IdManifest m) = manifest_ok is_nfc m"
| "identified_ok is_nfc (IdReading r) = part_reading_ok is_nfc r"
| "identified_ok is_nfc (IdDating d) = dating_ok is_nfc d"

text \<open>The uid, or the library identity in the slot of a uid.\<close>

definition identity_of :: "hasher \<Rightarrow> (string \<Rightarrow> bool) \<Rightarrow> (string \<Rightarrow> string) \<Rightarrow> identified \<Rightarrow> uid" where
  "identity_of hash is_nfc nfc x =
     (case x of
        IdUnit u \<Rightarrow> canonical_uid hash is_nfc nfc u
      | IdRelation k a b \<Rightarrow> relation_uid hash (relation_new k a b)
      | IdPart t \<Rightarrow> digest_as_uid (tid_of hash t)
      | IdManifest m \<Rightarrow> digest_as_uid (manifest_mid hash is_nfc nfc m)
      | IdReading r \<Rightarrow> digest_as_uid (part_reading_rdid hash is_nfc nfc r)
      | IdDating d \<Rightarrow> digest_as_uid (dating_did hash is_nfc nfc d))"

lemma identity_is_hash: "identity_of hash is_nfc nfc x = Uid (hash (identity_preimage is_nfc nfc x))"
  by (cases x) (simp_all add: identity_of_def canonical_uid_def relation_uid_def relation_new_def digest_as_uid_def
      tid_of_def manifest_mid_def part_reading_rdid_def dating_did_def digest_of_def)

text \<open>A map begins with a byte between \<open>0xA0\<close> and \<open>0xBF\<close>.\<close>

lemma unat_drop_5: "unat (drop_bit 5 (b :: u8)) = unat b div 32"
proof -
  have "take_bit 8 (unat b) = unat b" using unat_lt256 [of b] by (intro take_bit_nat_eq_self) simp
  then show ?thesis by (simp only: unsigned_drop_bit_eq) (simp add: drop_bit_eq_div)
qed

lemma enc_map_first: "enc_map m = b # r \<Longrightarrow> 0xA0 \<le> b"
proof -
  assume "enc_map m = b # r"
  then have "push_bit 5 major_map OR head_info (unat (word_of_nat (length m) :: u64)) = b"
    by (simp add: enc_map_def enc_head_parts)
  then have "drop_bit 5 b = major_map"
    using head_byte_iff [of major_map "head_info (unat (word_of_nat (length m) :: u64))" b] head_info_less by simp
  then have "unat b div 32 = 5" using unat_drop_5 [of b] by simp
  then have "160 \<le> unat b" by linarith
  then show "0xA0 \<le> b" by (simp add: word_le_nat_alt)
qed

lemma unit_not_domain: "unit_bytes is_nfc nfc u \<noteq> b # r" if "b < 0xA0"
  using enc_map_first [of _ b r] that unfolding unit_bytes_puts by (metis leD)

lemma identity_preimage_inj:
  assumes "ascii_is_nfc is_nfc" "identified_ok is_nfc x" "identified_ok is_nfc y"
    and "length (identity_preimage is_nfc nfc x) < 2 ^ 64"
    and "identity_preimage is_nfc nfc x = identity_preimage is_nfc nfc y"
  shows "x = y"
proof -
  note unit = writable.distinguishes [OF readable.axioms(2) [OF unit_readable [OF assms(1)]]]
    and manifest = writable.distinguishes [OF readable.axioms(2) [OF manifest_readable [OF assms(1)]]]
  have "\<not> (0xA0 :: u8) \<le> 3" "\<not> (0xA0 :: u8) \<le> 0x0E" "\<not> (0xA0 :: u8) \<le> 0x0F" "\<not> (0xA0 :: u8) \<le> 0x11" "\<not> (0xA0 :: u8) \<le> 0x12"
    by simp_all
  note apart = this
  show ?thesis
  proof (cases "\<exists>k a b k' a' b'. x = IdRelation k a b \<and> y = IdRelation k' a' b'")
    case True
    with assms show ?thesis using relation_preimage_inj by fastforce
  next
    case False
    with assms apart show ?thesis
      by (cases x; cases y)
        (auto simp: relation_preimage_def unit_not_domain unit_not_domain [symmetric]
          dest: unit manifest part_reading_item.distinguishes dating_item.distinguishes)
  qed
qed

subsection \<open>Properties\<close>

text \<open>
  C39. Identities keep apart what they name, across every kind: when two things have the same
  identity, they are the same thing, or the hash has a collision on their canonical bytes. The
  domain bytes keep the kinds apart, and a unit's bytes, which have none, begin with a byte that is
  no domain byte.
\<close>

theorem identities_apart:
  assumes "ascii_is_nfc is_nfc" "identified_ok is_nfc x" "identified_ok is_nfc y"
    and "length (identity_preimage is_nfc nfc x) < 2 ^ 64"
    and "identity_of hash is_nfc nfc x = identity_of hash is_nfc nfc y"
  shows "x = y \<or> (identity_preimage is_nfc nfc x \<noteq> identity_preimage is_nfc nfc y \<and>
    hash (identity_preimage is_nfc nfc x) = hash (identity_preimage is_nfc nfc y))"
  using identity_preimage_inj [OF assms(1-4)] assms(5) by (auto simp: identity_is_hash)

theorem identities_apart_witness:
  "identity_of (\<lambda>b. b) (\<lambda>_. True) (\<lambda>s. s) (IdPart [1]) \<noteq> identity_of (\<lambda>b. b) (\<lambda>_. True) (\<lambda>s. s) (IdPart [2])"
  using identities_apart [OF sample_nfc, of "IdPart [1]" "IdPart [2]" "\<lambda>s. s" "\<lambda>b. b"] by auto

text \<open>
  C40. The canonical spelling of a library identity parses back, as its own kind and as no other: a
  spelling of one kind given to the parser of another is refused, never looked up.
\<close>

theorem digest_spelling_round_trip:
  assumes "length b = 32"
  shows "digest_parse k' (digest_canonical k b) =
    (if k' = k then Inr b else Inl (TruncatedUidText (digest_canonical k b)))"
proof (cases "k' = k")
  case True
  have "strip_prefix (digest_prefix k) (digest_canonical k b) = Some (base32_body b 52)"
    by (simp add: digest_canonical_def digest_encode_def strip_prefix_append)
  with True show ?thesis
    using decode_base32 [OF assms] by (simp add: digest_parse_def base32_body_def)
next
  case False
  then have "strip_prefix (digest_prefix k') (digest_canonical k b) = None"
    by (cases k; cases k') (simp_all add: digest_canonical_def digest_encode_def)
  with False show ?thesis by (simp add: digest_parse_def)
qed

theorem digest_spelling_round_trip_witness:
  "digest_parse KMid (digest_canonical KTid zero_bytes) = Inl (TruncatedUidText (digest_canonical KTid zero_bytes))"
  using digest_spelling_round_trip [of zero_bytes KMid KTid] by (simp add: zero_bytes_def)

end
