(* ===== verification/Store_Read.thy ===== *)
theory Store_Read
  imports Traverse
begin

section \<open>What a store is asked (smysl-graph/src/store/read.rs)\<close>

text \<open>
  The trait \<open>StoreRead\<close> as a record of what its required methods answer, and its provided methods as
  functions of it. The in-memory store answers them in theory Store; the packer, contention
  detection and the retraction fixpoint are written against this record, as the source writes them
  against the trait. \<open>sd_withdrawn\<close> and \<open>sd_unfounded\<close> are the methods \<open>is_withdrawn\<close> and
  \<open>is_unfounded\<close>.
\<close>

record store_read =
  sd_units :: "(uid, smy_unit) bmap"
  sd_adjacency :: adjacency
  sd_relations :: "relation list"
  sd_by_key :: "rel_kind \<Rightarrow> uid \<Rightarrow> uid \<Rightarrow> relation option"
  sd_withdrawn :: "relation \<Rightarrow> bool"
  sd_unfounded :: "uid \<Rightarrow> bool"
  sd_contentions :: "contention list"
  sd_resolutions :: "resolution set"
  sd_commits :: "(uid, commit set) bmap"

definition sd_get :: "store_read \<Rightarrow> uid \<Rightarrow> smy_unit option" where
  "sd_get s u = bm_get (sd_units s) u"

definition sd_contains :: "store_read \<Rightarrow> uid \<Rightarrow> bool" where
  "sd_contains s u = bm_contains (sd_units s) u"

subsection \<open>Relations\<close>

definition relations_of_kind :: "store_read \<Rightarrow> rel_kind \<Rightarrow> relation list" where
  "relations_of_kind s k = filter (\<lambda>r. rl_kind r = k \<and> \<not> sd_withdrawn s r) (sd_relations s)"

definition has_relation :: "store_read \<Rightarrow> rel_kind \<Rightarrow> uid \<Rightarrow> uid \<Rightarrow> bool" where
  "has_relation s k from to \<longleftrightarrow> sd_by_key s k from to \<noteq> None"

definition is_live_rebuttal :: "store_read \<Rightarrow> relation \<Rightarrow> bool" where
  "is_live_rebuttal s r \<longleftrightarrow>
     rl_kind r = Rebuts \<and> \<not> sd_withdrawn s r \<and> sd_contains s (rl_from r) \<and> \<not> sd_unfounded s (rl_from r)"

definition store_rebuttals_of :: "store_read \<Rightarrow> uid \<Rightarrow> uid list" where
  "store_rebuttals_of s u =
     (case ad_id (sd_adjacency s) u of
        None \<Rightarrow> []
      | Some i \<Rightarrow>
          filter (\<lambda>a. sd_contains s a \<and> \<not> sd_unfounded s a)
            (List.map_filter (ad_uid (sd_adjacency s)) (rebuttals_of (sd_adjacency s) i)))"

text \<open>\<open>lineage::one_hop\<close>: \<open>deps\<close> and \<open>grounds\<close> along their direction, relations against theirs.\<close>

definition one_hop :: "adjacency \<Rightarrow> nat \<Rightarrow> edge_set \<Rightarrow> nat list" where
  "one_hop g n edges =
     map snd (filter (\<lambda>e. es_contains edges (fst e))
       (filter (\<lambda>e. fst e \<in> {EkDeps, EkGrounds}) (ad_out_edges g n) @
        filter (\<lambda>e. fst e \<notin> {EkDeps, EkGrounds}) (ad_in_edges g n)))"

definition store_supports_of :: "store_read \<Rightarrow> uid \<Rightarrow> edge_set \<Rightarrow> uid list" where
  "store_supports_of s u edges =
     (case ad_id (sd_adjacency s) u of
        None \<Rightarrow> []
      | Some i \<Rightarrow> filter (sd_contains s) (List.map_filter (ad_uid (sd_adjacency s)) (one_hop (sd_adjacency s) i edges)))"

subsection \<open>Contentions and commitments\<close>

definition is_resolved :: "store_read \<Rightarrow> resolution_target \<Rightarrow> bool" where
  "is_resolved s t \<longleftrightarrow> (\<exists>r \<in> sd_resolutions s. rs_target r = t)"

definition contention_status_of :: "store_read \<Rightarrow> contention \<Rightarrow> contention_status" where
  "contention_status_of s c =
     (if is_resolved s (RtContention (ct_id c)) then CsResolved
      else if dt_kind (ct_detected c) = DkLiveRebuttal \<and>
              (\<not> list_ex (\<lambda>a. case sd_by_key s Rebuts a (ct_over c) of
                                 Some r \<Rightarrow> is_live_rebuttal s r | None \<Rightarrow> False) (ct_positions c) \<or>
               sd_unfounded s (ct_over c))
      then CsStale
      else ct_status c)"

definition open_contentions :: "store_read \<Rightarrow> contention list" where
  "open_contentions s = filter (\<lambda>c. contention_status_of s c = CsOpen) (sd_contentions s)"

text \<open>
  The level of the latest commitment by clock reading, counter and agent. Where those tie,
  \<open>max_by\<close> keeps the last in the order of the set, whose next field is the level itself.
\<close>

definition commits_of :: "store_read \<Rightarrow> uid \<Rightarrow> commit set" where
  "commits_of s u = (case bm_get (sd_commits s) u of Some c \<Rightarrow> c | None \<Rightarrow> {})"

definition commit_key :: "commit \<Rightarrow> u64 \<times> u32 \<times> string \<times> commitment" where
  "commit_key c = (wall_ms (cm_ts c), counter (cm_ts c), cm_agent c, cm_level c)"

definition commitment_of :: "store_read \<Rightarrow> uid \<Rightarrow> commitment option" where
  "commitment_of s u =
     (let keys = commit_key ` commits_of s u in
      if keys = {} then None else Some (snd (snd (snd (Max keys)))))"

definition units_at_commitment :: "store_read \<Rightarrow> commitment \<Rightarrow> uid list" where
  "units_at_commitment s l = filter (\<lambda>u. commitment_of s u = Some l) (bm_keys (sd_commits s))"

subsection \<open>Abbreviated identities\<close>

definition units_in_range :: "store_read \<Rightarrow> uid \<Rightarrow> uid \<Rightarrow> uid list" where
  "units_in_range s lo hi =
     (if hi < lo then [] else filter (\<lambda>u. lo \<le> u \<and> u \<le> hi) (bm_keys (sd_units s)))"

definition matching_prefix :: "store_read \<Rightarrow> uid_prefix_rec \<Rightarrow> uid list" where
  "matching_prefix s p = (let (lo, hi) = prefix_range p in units_in_range s lo hi)"

subsection \<open>What the answers hold\<close>

lemma sd_contains_iff: "sd_contains s u \<longleftrightarrow> u \<in> fst ` set (sd_units s)"
  by (simp add: sd_contains_def bm_contains_iff)

lemma sd_contains_get: "sd_contains s u \<longleftrightarrow> (\<exists>x. sd_get s u = Some x)"
  by (simp add: sd_contains_def bm_contains_def sd_get_def)

lemma supports_present: "v \<in> set (store_supports_of s u edges) \<Longrightarrow> sd_contains s v"
  by (auto simp: store_supports_of_def split: option.splits)

lemma rebuttals_present: "v \<in> set (store_rebuttals_of s u) \<Longrightarrow> sd_contains s v \<and> \<not> sd_unfounded s v"
  by (auto simp: store_rebuttals_of_def split: option.splits)

lemma open_contentions_open: "k \<in> set (open_contentions s) \<Longrightarrow> contention_status_of s k = CsOpen"
  by (simp add: open_contentions_def)

end
