(* ===== verification/Pack_Closure.thy ===== *)
theory Pack_Closure
  imports Store_Read
begin

section \<open>Closure obligations (smysl-pack/src/closure.rs, constraints.rs)\<close>

text \<open>
  What selecting a unit drags in, and the constraints C1 to C8 a finished selection must meet. A
  selection is a \<open>BTreeMap\<close> from units to levels. The work list of \<open>required_via\<close> is a vector whose
  last element is popped: it is held reversed, so that the head is popped. Proved here: the fixpoint
  ends, what it returns meets every closure constraint and is the least selection that does, and the
  checker finds nothing in a selection exactly when the constraints hold of it.
\<close>

type_synonym selection = "(uid, lod) bmap"

datatype violation =
    ViDep uid uid
  | ViGround uid uid
  | ViRebuttal uid uid
  | ViContention uid uid
  | ViPin uid lod
  | ViWarrant uid uid
  | ViBudget u64 u64
  | ViSupport uid uid

fun violation_constraint :: "violation \<Rightarrow> string" where
  "violation_constraint (ViDep _ _) = ''C1''"
| "violation_constraint (ViGround _ _) = ''C2''"
| "violation_constraint (ViRebuttal _ _) = ''C3''"
| "violation_constraint (ViContention _ _) = ''C4''"
| "violation_constraint (ViPin _ _) = ''C5''"
| "violation_constraint (ViWarrant _ _) = ''C6''"
| "violation_constraint (ViSupport _ _) = ''C8''"
| "violation_constraint (ViBudget _ _) = ''C7''"

record constraints =
  cs_pinned :: "uid list"
  cs_budget :: u64
  cs_support :: edge_set

definition warrants_of :: "store_read \<Rightarrow> uid \<Rightarrow> uid list" where
  "warrants_of s u =
     filter (sd_contains s) (map rl_to (filter (\<lambda>r. rl_from r = u) (relations_of_kind s Warrant)))"

subsection \<open>The checker\<close>

text \<open>
  The violations of one entry of the selection, and of one pinned unit. The source sorts and
  dedups the whole vector; the order of \<open>Violation\<close> is observed by nothing, and the result is the
  set of its elements.
\<close>

definition missing_in :: "store_read \<Rightarrow> selection \<Rightarrow> (uid \<Rightarrow> violation) \<Rightarrow> uid list \<Rightarrow> violation list" where
  "missing_in s sel mk xs = map mk (filter (\<lambda>x. sd_contains s x \<and> \<not> bm_contains sel x) xs)"

definition entry_violations :: "store_read \<Rightarrow> selection \<Rightarrow> constraints \<Rightarrow> uid \<times> lod \<Rightarrow> violation list" where
  "entry_violations s sel c e = (case e of (u, l) \<Rightarrow>
     (case sd_get s u of
        None \<Rightarrow> []
      | Some x \<Rightarrow>
          (if L1 \<le> l then
             missing_in s sel (ViDep u) (uc_deps (un_core x)) @
             missing_in s sel (ViGround u) (uc_grounds (un_core x)) @
             map (ViWarrant u) (filter (\<lambda>w. \<not> bm_contains sel w) (warrants_of s u)) @
             map (ViSupport u) (filter (\<lambda>w. \<not> bm_contains sel w) (store_supports_of s u (cs_support c)))
           else []) @
          missing_in s sel (ViRebuttal u) (store_rebuttals_of s u) @
          concat (map (\<lambda>k. if contention_pins k u then missing_in s sel (ViContention u) (ct_positions k) else [])
                    (open_contentions s))))"

definition pin_violations :: "store_read \<Rightarrow> selection \<Rightarrow> uid \<Rightarrow> violation list" where
  "pin_violations s sel u =
     (if \<not> sd_contains s u then []
      else (case bm_get sel u of
              Some l \<Rightarrow>
                if L1 \<le> l then []
                else if (case sd_get s u of Some x \<Rightarrow> uc_body (un_core x) = None | None \<Rightarrow> False) then []
                else [ViPin u l]
            | None \<Rightarrow> [ViPin u L0]))"

definition violations :: "store_read \<Rightarrow> selection \<Rightarrow> u64 \<Rightarrow> constraints \<Rightarrow> violation set" where
  "violations s sel used c =
     set (concat (map (entry_violations s sel c) sel) @ concat (map (pin_violations s sel) (cs_pinned c)) @
          (if cs_budget c < used then [ViBudget used (cs_budget c)] else []))"

subsection \<open>The fixpoint\<close>

text \<open>What visiting a unit at a level pushes, in the order of the source.\<close>

definition obligations :: "store_read \<Rightarrow> edge_set \<Rightarrow> uid \<Rightarrow> lod \<Rightarrow> uid list" where
  "obligations s support x l =
     (if L1 \<le> l then
        (case sd_get s x of Some u \<Rightarrow> filter (sd_contains s) (unit_references (un_core u)) | None \<Rightarrow> []) @
        warrants_of s x @ store_supports_of s x support
      else []) @
     filter (sd_contains s) (store_rebuttals_of s x) @
     concat (map (\<lambda>k. if contention_pins k x then filter (sd_contains s) (ct_positions k) else []) (open_contentions s))"

lemma obligations_present: "v \<in> set (obligations s support x l) \<Longrightarrow> sd_contains s v"
  by (cases "sd_get s x"; cases "L1 \<le> l")
     (auto simp: obligations_def warrants_of_def dest: supports_present split: if_split_asm)

text \<open>The measure: the levels still above what is recorded, over the units and what is on the list.\<close>

definition lod_rank :: "lod option \<Rightarrow> nat" where
  "lod_rank l = (case l of None \<Rightarrow> 0 | Some L0 \<Rightarrow> 1 | Some L1 \<Rightarrow> 2 | Some L2 \<Rightarrow> 3)"

definition open_levels :: "store_read \<Rightarrow> selection \<Rightarrow> (uid \<times> lod) list \<Rightarrow> nat" where
  "open_levels s need work =
     (\<Sum>x \<in> fst ` set (sd_units s) \<union> fst ` set work. 3 - lod_rank (bm_get need x))"

lemma lod_rank_less: "(case y of Some l' \<Rightarrow> l \<le> l' | None \<Rightarrow> False) \<or> lod_rank y < lod_rank (Some l)"
  by (cases y; cases l; cases "the y") (auto simp: lod_rank_def less_eq_lod_def)

lemma lod_rank_le [simp]: "lod_rank y \<le> 3"
  by (cases y; cases "the y") (auto simp: lod_rank_def)

lemma open_levels_subset:
  "fst ` set work' \<subseteq> fst ` set (sd_units s) \<union> fst ` set work \<Longrightarrow> open_levels s need work' \<le> open_levels s need work"
  unfolding open_levels_def by (rule sum_mono2) auto

lemma open_levels_insert:
  assumes "\<not> (case bm_get need x of Some l' \<Rightarrow> l \<le> l' | None \<Rightarrow> False)"
  shows "open_levels s (bm_insert x l need) ((x, l) # work) < open_levels s need ((x, l) # work)"
  unfolding open_levels_def
proof (rule sum_strict_mono_ex1)
  have "lod_rank (bm_get need x) < lod_rank (Some l)" using assms lod_rank_less by blast
  moreover have "lod_rank (Some l) \<le> 3" by (rule lod_rank_le)
  ultimately show "\<exists>y \<in> fst ` set (sd_units s) \<union> fst ` set ((x, l) # work).
      3 - lod_rank (bm_get (bm_insert x l need) y) < 3 - lod_rank (bm_get need y)"
    by (intro bexI [of _ x]) (simp_all add: bm_get_insert_any diff_less_mono2 less_le_trans)
  then show "\<forall>y \<in> fst ` set (sd_units s) \<union> fst ` set ((x, l) # work).
      3 - lod_rank (bm_get (bm_insert x l need) y) \<le> 3 - lod_rank (bm_get need y)"
    using \<open>lod_rank (bm_get need x) < lod_rank (Some l)\<close> by (auto simp: bm_get_insert_any)
qed simp

function required_loop :: "store_read \<Rightarrow> edge_set \<Rightarrow> selection \<Rightarrow> (uid \<times> lod) list \<Rightarrow> selection" where
  "required_loop s support need [] = need"
| "required_loop s support need ((x, l) # work) =
     (if (case bm_get need x of Some l' \<Rightarrow> l \<le> l' | None \<Rightarrow> False) then required_loop s support need work
      else
        let need' = bm_insert x l need in
        if \<not> sd_contains s x then required_loop s support need' work
        else required_loop s support need' (rev (map (\<lambda>v. (v, L0)) (obligations s support x l)) @ work))"
  by pat_completeness auto

termination
proof (relation "measures [\<lambda>(s, support, need, work). open_levels s need work, \<lambda>(s, support, need, work). length work]")
  fix s :: store_read and support :: edge_set and need :: selection and x l and work :: "(uid \<times> lod) list"
  show "((s, support, need, work), s, support, need, (x, l) # work) \<in>
      measures [\<lambda>(s, support, need, work). open_levels s need work, \<lambda>(s, support, need, work). length work]"
    using open_levels_subset [of work s "(x, l) # work" need] by (auto simp: order_le_less)
next
  fix s :: store_read and support :: edge_set and need need' :: selection and x l and work :: "(uid \<times> lod) list"
  assume new: "\<not> (case bm_get need x of Some l' \<Rightarrow> l \<le> l' | None \<Rightarrow> False)" and need': "need' = bm_insert x l need"
  have step: "open_levels s need' work' < open_levels s need ((x, l) # work)"
    if "fst ` set work' \<subseteq> fst ` set (sd_units s) \<union> fst ` set ((x, l) # work)" for work'
    using open_levels_subset [OF that, of need'] open_levels_insert [OF new, of s work] by (simp add: need')
  show "((s, support, need', work), s, support, need, (x, l) # work) \<in>
      measures [\<lambda>(s, support, need, work). open_levels s need work, \<lambda>(s, support, need, work). length work]"
    using step [of work] by auto
  show "((s, support, need', rev (map (\<lambda>v. (v, L0)) (obligations s support x l)) @ work), s, support, need, (x, l) # work) \<in>
      measures [\<lambda>(s, support, need, work). open_levels s need work, \<lambda>(s, support, need, work). length work]"
    using step [of "rev (map (\<lambda>v. (v, L0)) (obligations s support x l)) @ work"]
      obligations_present [of _ s support x l] by (force simp: sd_contains_iff image_Un image_image)
qed auto

definition required_via :: "store_read \<Rightarrow> uid \<Rightarrow> lod \<Rightarrow> edge_set \<Rightarrow> selection" where
  "required_via s u l support = required_loop s support [] [(u, l)]"

definition required :: "store_read \<Rightarrow> uid \<Rightarrow> lod \<Rightarrow> selection" where
  "required s u l = required_via s u l (es_of [])"

text \<open>What an obligation still costs a selection.\<close>

definition keep_shortfall :: "selection \<Rightarrow> selection \<Rightarrow> selection" where
  "keep_shortfall need sel =
     filter (\<lambda>(u, l). case bm_get sel u of Some existing \<Rightarrow> existing < l | None \<Rightarrow> True) need"

definition delta_via :: "store_read \<Rightarrow> selection \<Rightarrow> uid \<Rightarrow> lod \<Rightarrow> edge_set \<Rightarrow> selection" where
  "delta_via s sel u l support = keep_shortfall (required_via s u l support) sel"

definition delta :: "store_read \<Rightarrow> selection \<Rightarrow> uid \<Rightarrow> lod \<Rightarrow> selection" where
  "delta s sel u l = keep_shortfall (required s u l) sel"

subsection \<open>The memo\<close>

record needs =
  nd_cache :: "(uid \<times> lod, selection) bmap"
  nd_support :: edge_set

definition needs_with_support :: "edge_set \<Rightarrow> needs" where
  "needs_with_support support = \<lparr>nd_cache = [], nd_support = support\<rparr>"

definition needs_required :: "store_read \<Rightarrow> uid \<Rightarrow> lod \<Rightarrow> needs \<Rightarrow> selection \<times> needs" where
  "needs_required s u l n =
     (case bm_get (nd_cache n) (u, l) of
        Some need \<Rightarrow> (need, n)
      | None \<Rightarrow>
          let need = required_via s u l (nd_support n) in
          (need, n\<lparr>nd_cache := bm_insert (u, l) need (nd_cache n)\<rparr>))"

definition needs_delta :: "store_read \<Rightarrow> selection \<Rightarrow> uid \<Rightarrow> lod \<Rightarrow> needs \<Rightarrow> selection \<times> needs" where
  "needs_delta s sel u l n =
     (let (need, n') = needs_required s u l n in
      (filter (\<lambda>(u, l). case bm_get sel u of Some existing \<Rightarrow> existing < l | None \<Rightarrow> True) need, n'))"

definition needs_ok :: "store_read \<Rightarrow> needs \<Rightarrow> bool" where
  "needs_ok s n \<longleftrightarrow>
     (\<forall>u l need. bm_get (nd_cache n) (u, l) = Some need \<longrightarrow> need = required_via s u l (nd_support n))"

lemma needs_ok_new: "needs_ok s (needs_with_support support)"
  by (simp add: needs_ok_def needs_with_support_def)

text \<open>Whatever was asked before, the memo answers as the walk does, and keeps doing so.\<close>

lemma needs_required_memo:
  assumes "needs_ok s n"
  shows "fst (needs_required s u l n) = required_via s u l (nd_support n)"
    "needs_ok s (snd (needs_required s u l n))" "nd_support (snd (needs_required s u l n)) = nd_support n"
  using assms by (auto simp: needs_required_def needs_ok_def bm_get_insert_any Let_def split: option.splits)

lemma needs_delta_memo:
  assumes "needs_ok s n"
  shows "fst (needs_delta s sel u l n) = delta_via s sel u l (nd_support n)"
    "needs_ok s (snd (needs_delta s sel u l n))" "nd_support (snd (needs_delta s sel u l n)) = nd_support n"
  using needs_required_memo [OF assms, of u l]
  by (auto simp: needs_delta_def delta_via_def keep_shortfall_def split: prod.splits)

subsection \<open>Reasons\<close>

datatype reason =
    ReFocus | ReThreadPin | ReRebuts uid | ReContests uid | ReDepOf uid | ReGroundOf uid | ReWarrantOf uid
  | ReDensity | ReSupportOf uid

fun reason_constraint :: "reason \<Rightarrow> string" where
  "reason_constraint ReFocus = ''C5''"
| "reason_constraint ReThreadPin = ''C5''"
| "reason_constraint (ReRebuts _) = ''C3''"
| "reason_constraint (ReContests _) = ''C4''"
| "reason_constraint (ReDepOf _) = ''C1''"
| "reason_constraint (ReGroundOf _) = ''C2''"
| "reason_constraint (ReSupportOf _) = ''C8''"
| "reason_constraint (ReWarrantOf _) = ''C6''"
| "reason_constraint ReDensity = ''-''"

definition reason_is_forced :: "reason \<Rightarrow> bool" where
  "reason_is_forced r \<longleftrightarrow> r \<noteq> ReDensity"

text \<open>The first holder, in canonical order, that demands \<open>x\<close>.\<close>

definition demanded_by :: "store_read \<Rightarrow> edge_set \<Rightarrow> uid \<Rightarrow> uid \<times> lod \<Rightarrow> reason option" where
  "demanded_by s support x h = (case h of (holder, l) \<Rightarrow>
     if holder = x then None
     else (case sd_get s holder of
        None \<Rightarrow> None
      | Some u \<Rightarrow>
          if L1 \<le> l \<and> x \<in> set (uc_deps (un_core u)) then Some (ReDepOf holder)
          else if L1 \<le> l \<and> x \<in> set (uc_grounds (un_core u)) then Some (ReGroundOf holder)
          else if L1 \<le> l \<and> x \<in> set (warrants_of s holder) then Some (ReWarrantOf holder)
          else if L1 \<le> l \<and> x \<in> set (store_supports_of s holder support) then Some (ReSupportOf holder)
          else if x \<in> set (store_rebuttals_of s holder) then Some (ReRebuts holder)
          else if list_ex (\<lambda>k. contention_pins k holder \<and> x \<in> set (ct_positions k)) (open_contentions s)
            then Some (ReContests holder)
          else None))"

fun first_some :: "('a \<Rightarrow> 'b option) \<Rightarrow> 'a list \<Rightarrow> 'b option" where
  "first_some f [] = None"
| "first_some f (x # xs) = (case f x of Some y \<Rightarrow> Some y | None \<Rightarrow> first_some f xs)"

definition reasons_via :: "store_read \<Rightarrow> uid \<Rightarrow> lod \<Rightarrow> edge_set \<Rightarrow> (uid, reason) bmap" where
  "reasons_via s u l support =
     (let need = required_via s u l support in
      List.map_filter (\<lambda>(x, lx).
        if x = u then None
        else Some (x, case first_some (demanded_by s support x) need of Some r \<Rightarrow> r | None \<Rightarrow> ReDensity)) need)"

subsection \<open>Closed selections\<close>

definition meets :: "selection \<Rightarrow> uid \<Rightarrow> lod \<Rightarrow> bool" where
  "meets sel u l \<longleftrightarrow> (\<exists>l'. bm_get sel u = Some l' \<and> l \<le> l')"

definition closed_sel :: "store_read \<Rightarrow> edge_set \<Rightarrow> selection \<Rightarrow> bool" where
  "closed_sel s support sel \<longleftrightarrow>
     (\<forall>u l. bm_get sel u = Some l \<longrightarrow> sd_contains s u \<longrightarrow>
        (\<forall>v \<in> set (obligations s support u l). meets sel v L0))"

lemma lod_least [simp]: "L0 \<le> l"
  by (cases l) (simp_all add: less_eq_lod_def)

lemma meets_present: "meets sel u L0 \<longleftrightarrow> bm_contains sel u"
  by (auto simp: meets_def bm_contains_def)

lemma meets_insert:
  "meets (bm_insert x l sel) u k \<longleftrightarrow> (if u = x then k \<le> l else meets sel u k)"
  by (auto simp: meets_def bm_get_insert_any)

lemma meets_get: "bm_get sel u = Some l \<Longrightarrow> meets sel u l"
  by (simp add: meets_def)

lemma obligations_mono: "l \<le> l' \<Longrightarrow> set (obligations s support u l) \<subseteq> set (obligations s support u l')"
  by (auto simp: obligations_def dest: order_trans)

lemma meets_insert_up:
  "\<not> (case bm_get need x of Some l' \<Rightarrow> l \<le> l' | None \<Rightarrow> False) \<Longrightarrow> meets need u k \<Longrightarrow> meets (bm_insert x l need) u k"
  by (cases "bm_get need x") (auto simp: meets_def bm_get_insert_any)

lemma required_loop_closes:
  assumes "\<And>u l v. bm_get need u = Some l \<Longrightarrow> sd_contains s u \<Longrightarrow> v \<in> set (obligations s support u l) \<Longrightarrow>
      meets need v L0 \<or> v \<in> fst ` set work"
    and "bm_ok need"
  shows "bm_ok (required_loop s support need work) \<and> closed_sel s support (required_loop s support need work) \<and>
    (\<forall>u l. meets need u l \<longrightarrow> meets (required_loop s support need work) u l) \<and>
    (\<forall>e \<in> set work. meets (required_loop s support need work) (fst e) (snd e))"
  using assms
proof (induction s support need work rule: required_loop.induct)
  case (1 s support need)
  then show ?case by (simp add: closed_sel_def)
next
  case (2 s support need x l work)
  let ?seen = "case bm_get need x of Some l' \<Rightarrow> l \<le> l' | None \<Rightarrow> False"
  let ?need = "bm_insert x l need"
  show ?case
  proof (cases ?seen)
    case True
    then have x: "meets need x l" by (auto simp: meets_def split: option.splits)
    then have x0: "meets need x L0" by (auto simp: meets_def)
    have "meets need v L0 \<or> v \<in> fst ` set work"
      if "bm_get need u = Some k" "sd_contains s u" "v \<in> set (obligations s support u k)" for u k v
      using 2(4) [OF that] x0 by auto
    note ih = 2(1) [OF True this 2(5)]
    have eq: "required_loop s support need ((x, l) # work) = required_loop s support need work"
      using True by simp
    show ?thesis unfolding eq using ih x by simp
  next
    case new: False
    have x: "meets ?need x l" by (simp add: meets_insert)
    note up = meets_insert_up [OF new]
    show ?thesis
    proof (cases "sd_contains s x")
      case False
      have "meets ?need v L0 \<or> v \<in> fst ` set work"
        if "bm_get ?need u = Some k" "sd_contains s u" "v \<in> set (obligations s support u k)" for u k v
        using 2(4) [of u k v] that up False by (auto simp: bm_get_insert_any meets_insert split: if_splits)
      note ih = 2(2) [OF new refl False this bm_ok_insert [OF 2(5)]]
      have eq: "required_loop s support need ((x, l) # work) = required_loop s support ?need work"
        using new False by simp
      show ?thesis unfolding eq using ih up x by simp
    next
      case True
      let ?work = "rev (map (\<lambda>v. (v, L0)) (obligations s support x l)) @ work"
      have "meets ?need v L0 \<or> v \<in> fst ` set ?work"
        if "bm_get ?need u = Some k" "sd_contains s u" "v \<in> set (obligations s support u k)" for u k v
        using 2(4) [of u k v] that up by (force simp: bm_get_insert_any meets_insert split: if_splits)
      note ih = 2(3) [OF new refl _ this bm_ok_insert [OF 2(5)]]
      have eq: "required_loop s support need ((x, l) # work) = required_loop s support ?need ?work"
        using new True by simp
      show ?thesis unfolding eq using ih True up x by simp
    qed
  qed
qed

lemma required_loop_least:
  assumes "closed_sel s support sel" "\<And>u l. meets need u l \<Longrightarrow> meets sel u l" "\<And>e. e \<in> set work \<Longrightarrow> meets sel (fst e) (snd e)"
    and "meets (required_loop s support need work) u k"
  shows "meets sel u k"
  using assms
proof (induction s support need work rule: required_loop.induct)
  case (2 s support need x l work)
  let ?need = "bm_insert x l need"
  have x: "meets sel x l" using 2(6) [of "(x, l)"] by simp
  then have low: "meets sel u k" if "meets ?need u k" for u k
    using 2(5) [of u k] that x by (cases "u = x") (auto simp: meets_insert, auto simp: meets_def)
  have pushed: "meets sel v L0" if "sd_contains s x" "v \<in> set (obligations s support x l)" for v
  proof -
    obtain l' where "bm_get sel x = Some l'" "l \<le> l'" using x by (auto simp: meets_def)
    then show ?thesis using 2(4) that obligations_mono [of l l' s support x] by (auto simp: closed_sel_def)
  qed
  show ?case
  proof (cases "case bm_get need x of Some l' \<Rightarrow> l \<le> l' | None \<Rightarrow> False")
    case True
    then have "meets (required_loop s support need work) u k" using 2(7) by simp
    then show ?thesis using 2(1) [OF True 2(4,5)] 2(6) by simp
  next
    case new: False
    show ?thesis
    proof (cases "sd_contains s x")
      case False
      then have "meets (required_loop s support ?need work) u k" using 2(7) new by simp
      then show ?thesis using 2(2) [OF new refl False 2(4) low] 2(6) by simp
    next
      case True
      then have m: "meets (required_loop s support ?need (rev (map (\<lambda>v. (v, L0)) (obligations s support x l)) @ work)) u k"
        using 2(7) new by simp
      show ?thesis
        by (rule 2(3) [OF new refl _ 2(4) low _ m]) (use True pushed 2(6) in auto)
    qed
  qed
qed simp

lemma required_loop_present:
  "fst ` set (required_loop s support need work) \<subseteq> fst ` set need \<union> fst ` set work \<union> fst ` set (sd_units s)"
proof (induction s support need work rule: required_loop.induct)
  case (2 s support need x l work)
  let ?need = "bm_insert x l need" and ?new = "rev (map (\<lambda>v. (v, L0)) (obligations s support x l))"
  have need: "fst ` set ?need = insert x (fst ` set need)" by simp
  have new: "fst ` set (?new @ work) \<subseteq> fst ` set (sd_units s) \<union> fst ` set work"
    using obligations_present [of _ s support x l] by (auto simp: sd_contains_iff)
  show ?case
  proof (cases "case bm_get need x of Some l' \<Rightarrow> l \<le> l' | None \<Rightarrow> False")
    case True
    then show ?thesis using 2(1) [OF True] by auto
  next
    case new_x: False
    show ?thesis
    proof (cases "sd_contains s x")
      case True
      then show ?thesis using 2(3) [OF new_x refl] new_x need new by (simp add: Let_def image_Un) blast
    next
      case False
      then show ?thesis using 2(2) [OF new_x refl False] new_x need by (simp add: Let_def)
    qed
  qed
qed simp

lemma required_ok [simp, ok_intros]: "bm_ok (required_via s u l support)"
  and required_closed: "closed_sel s support (required_via s u l support)"
  and required_meets: "meets (required_via s u l support) u l"
  using required_loop_closes [of "[]" s support "[(u, l)]"] by (auto simp: required_via_def)

lemma required_least:
  "closed_sel s support sel \<Longrightarrow> meets sel u l \<Longrightarrow> meets (required_via s u l support) v k \<Longrightarrow> meets sel v k"
  unfolding required_via_def by (rule required_loop_least [where need = "[]" and work = "[(u, l)]"]) (auto simp: meets_def)

lemma required_present: "bm_contains (required_via s u l support) v \<Longrightarrow> v = u \<or> sd_contains s v"
  using required_loop_present [of s support "[]" "[(u, l)]"]
  by (auto simp: required_via_def bm_contains_iff sd_contains_iff)

subsection \<open>The checker and the constraints\<close>

lemma missing_in_Nil: "missing_in s sel mk xs = [] \<longleftrightarrow> (\<forall>x \<in> set (filter (sd_contains s) xs). bm_contains sel x)"
  by (auto simp: missing_in_def filter_empty_conv)

lemma absent_Nil: "filter (\<lambda>w. \<not> bm_contains sel w) xs = [] \<longleftrightarrow> (\<forall>x \<in> set xs. bm_contains sel x)"
  by (simp add: filter_empty_conv)

lemma contested_Nil:
  "concat (map (\<lambda>k. if P k then missing_in s sel mk (f k) else []) ks) = [] \<longleftrightarrow>
     (\<forall>x \<in> set (concat (map (\<lambda>k. if P k then filter (sd_contains s) (f k) else []) ks)). bm_contains sel x)"
  by (induction ks) (simp_all add: missing_in_Nil ball_Un del: set_concat concat_eq_Nil_conv)

lemma entry_violations_Nil:
  "entry_violations s sel c (u, l) = [] \<longleftrightarrow>
     (sd_contains s u \<longrightarrow> (\<forall>v \<in> set (obligations s (cs_support c) u l). meets sel v L0))"
proof (cases "sd_get s u")
  case None
  then show ?thesis by (simp add: entry_violations_def sd_contains_get)
next
  case (Some x)
  then show ?thesis
    by (simp add: entry_violations_def obligations_def meets_present sd_contains_get [of s u] unit_references_def
        missing_in_Nil [of s sel "ViDep u"] missing_in_Nil [of s sel "ViGround u"] missing_in_Nil [of s sel "ViRebuttal u"]
        absent_Nil contested_Nil ball_Un del: concat_eq_Nil_conv set_concat set_filter)
      (simp add: Ball_def; blast)
qed

definition pins_met :: "store_read \<Rightarrow> selection \<Rightarrow> uid list \<Rightarrow> bool" where
  "pins_met s sel pinned \<longleftrightarrow>
     (\<forall>u \<in> set pinned. \<forall>x. sd_get s u = Some x \<longrightarrow> meets sel u (if uc_body (un_core x) = None then L0 else L1))"

lemma L0_or_L1: "L1 \<le> l \<or> l = L0"
  by (cases l) (simp_all add: less_eq_lod_def)

lemma pin_violations_Nil:
  "pin_violations s sel u = [] \<longleftrightarrow>
     (\<forall>x. sd_get s u = Some x \<longrightarrow> meets sel u (if uc_body (un_core x) = None then L0 else L1))"
  by (auto simp: pin_violations_def sd_contains_get meets_def split: option.splits)

lemma violations_empty_iff:
  assumes "bm_ok sel"
  shows "violations s sel used c = {} \<longleftrightarrow>
    closed_sel s (cs_support c) sel \<and> pins_met s sel (cs_pinned c) \<and> used \<le> cs_budget c"
proof -
  have "(\<forall>e \<in> set sel. entry_violations s sel c e = []) \<longleftrightarrow> closed_sel s (cs_support c) sel"
    using assms by (auto simp: closed_sel_def entry_violations_Nil bm_get_Some_iff split_paired_all)
  moreover have "(\<forall>u \<in> set (cs_pinned c). pin_violations s sel u = []) \<longleftrightarrow> pins_met s sel (cs_pinned c)"
    by (simp add: pins_met_def pin_violations_Nil)
  ultimately show ?thesis by (auto simp: violations_def)
qed

end
