(* ===== verification/Pack_Cost.thy ===== *)
theory Pack_Cost
  imports Pack_Closure
begin

section \<open>What a pack costs and is worth (smysl-pack/src/cost.rs)\<close>

text \<open>
  The bundled estimator and a counter the caller supplies, on 64-bit costs that wrap as a release
  build does, and the value of a unit at a level. Values are \<open>f64\<close>, held as their bits: the order
  \<open>total_cmp\<close> is written out on the bits, and the arithmetic of the processor (IEEE 754) is the record
  \<open>f64_ops\<close>, an argument of what computes with it. What is proved of packs holds whatever values
  these operations give.
\<close>

type_synonym f64 = u64

record f64_ops =
  fo_of_f32 :: "f32 \<Rightarrow> f64"
  fo_of_u64 :: "u64 \<Rightarrow> f64"
  fo_to_f32 :: "f64 \<Rightarrow> f32"
  fo_add :: "f64 \<Rightarrow> f64 \<Rightarrow> f64"
  fo_sub :: "f64 \<Rightarrow> f64 \<Rightarrow> f64"
  fo_mul :: "f64 \<Rightarrow> f64 \<Rightarrow> f64"
  fo_div :: "f64 \<Rightarrow> f64 \<Rightarrow> f64"
  fo_div32 :: "f32 \<Rightarrow> f32 \<Rightarrow> f32"

text \<open>
  \<open>total_cmp\<close>: the bits of a negative number are flipped below the sign, and the results compare as
  signed integers.
\<close>

definition total_key :: "f64 \<Rightarrow> int" where
  "total_key w = sint (if bit w 63 then w XOR 0x7FFFFFFFFFFFFFFF else w)"

definition f64_positive :: "f64 \<Rightarrow> bool" where
  "f64_positive w \<longleftrightarrow> 0 < w \<and> w \<le> 0x7FF0000000000000"

definition f64_is_nan :: "f64 \<Rightarrow> bool" where
  "f64_is_nan w \<longleftrightarrow> 0x7FF0000000000000 < w AND 0x7FFFFFFFFFFFFFFF"

definition f64_max :: "f64 \<Rightarrow> f64 \<Rightarrow> f64" where
  "f64_max a b = (if f64_is_nan a then b else if f64_is_nan b then a else if total_key a < total_key b then b else a)"

subsection \<open>Costs\<close>

datatype estimator = EsUtf8Div4

definition estimator_all :: "estimator list" where
  "estimator_all = [EsUtf8Div4]"

fun estimator_id :: "estimator \<Rightarrow> string" where
  "estimator_id EsUtf8Div4 = ''smysl/utf8-div4''"

definition estimator_parse :: "string \<Rightarrow> estimator option" where
  "estimator_parse s = find (\<lambda>e. estimator_id e = s) estimator_all"

fun estimator_text :: "estimator \<Rightarrow> string \<Rightarrow> u64" where
  "estimator_text EsUtf8Div4 t = ucast (tokens t) + 2"

record external_cost =
  ec_id :: string
  ec_cost :: "string \<Rightarrow> u64"

record cost_model =
  cm_estimator :: estimator
  cm_external :: "external_cost option"

definition cost_model_plain :: "estimator \<Rightarrow> cost_model" where
  "cost_model_plain e = \<lparr>cm_estimator = e, cm_external = None\<rparr>"

definition cost_model_id :: "cost_model \<Rightarrow> string" where
  "cost_model_id m = (case cm_external m of Some e \<Rightarrow> ec_id e | None \<Rightarrow> estimator_id (cm_estimator m))"

definition cost_model_is_external :: "cost_model \<Rightarrow> bool" where
  "cost_model_is_external m \<longleftrightarrow> cm_external m \<noteq> None"

definition cost_text :: "cost_model \<Rightarrow> string \<Rightarrow> u64" where
  "cost_text m t = (case cm_external m of Some e \<Rightarrow> ec_cost e t | None \<Rightarrow> estimator_text (cm_estimator m) t)"

definition cost_unit :: "cost_model \<Rightarrow> unit_core \<Rightarrow> lod \<Rightarrow> u64" where
  "cost_unit m core l =
     cost_text m (uc_gist core) +
     (if L1 \<le> l then (case uc_body core of Some b \<Rightarrow> cost_text m b | None \<Rightarrow> 0) else 0) +
     (if L2 \<le> l then (case uc_detail core of Some d \<Rightarrow> cost_text m d | None \<Rightarrow> 0) else 0)"

definition sat_sub :: "u64 \<Rightarrow> u64 \<Rightarrow> u64" where
  "sat_sub a b = (if a < b then 0 else a - b)"

definition cost_upgrade :: "cost_model \<Rightarrow> unit_core \<Rightarrow> lod \<Rightarrow> lod \<Rightarrow> u64" where
  "cost_upgrade m core from to = sat_sub (cost_unit m core to) (cost_unit m core from)"

definition available_levels :: "unit_core \<Rightarrow> lod list" where
  "available_levels core =
     [L0] @ (if uc_body core \<noteq> None then [L1] else []) @ (if uc_detail core \<noteq> None then [L2] else [])"

fun lod_gain :: "lod \<Rightarrow> f32" where
  "lod_gain L0 = 0x3F800000"
| "lod_gain L1 = 0x3FCCCCCD"
| "lod_gain L2 = 0x3FECCCCD"

definition value_at :: "f64_ops \<Rightarrow> f32 \<Rightarrow> lod \<Rightarrow> f64" where
  "value_at fo salience l = fo_mul fo (fo_of_f32 fo salience) (fo_of_f32 fo (lod_gain l))"

end
