(* ===== verification/Pack_Solve.thy ===== *)
theory Pack_Solve
  imports Pack_Cost Discourse "HOL-Library.Product_Lexorder"
begin

section \<open>The solver (smysl-pack/src/solve.rs, bound.rs)\<close>

text \<open>
  \<open>pack\<close>: the mandatory floor, the whole scope when it fits, the greedy by density, and the manifest of
  the result, as built without the optional \<open>branch-and-bound\<close> feature. Costs are 64-bit and wrap. The
  memo \<open>Needs\<close> is transparent (\<open>needs_required_memo\<close>), so the solver asks \<open>required_via\<close> directly.
  An \<open>expect\<close> that fails is \<open>None\<close>.
\<close>

subsection \<open>Requests\<close>

record pack_request =
  rq_budget :: u64
  rq_reserved :: u64
  rq_thread :: "string option"
  rq_focus :: "uid list"
  rq_mode :: pack_mode
  rq_estimator :: estimator
  rq_external :: "external_cost option"
  rq_max_lod :: "lod option"
  rq_scope :: "uid list"
  rq_support :: edge_set
  rq_exact_threshold :: nat

definition exact_threshold :: nat where
  "exact_threshold = 256"

definition request_default :: pack_request where
  "request_default =
     \<lparr>rq_budget = 0, rq_reserved = 0, rq_thread = None, rq_focus = [], rq_mode = PmGreedy,
      rq_estimator = EsUtf8Div4, rq_external = None, rq_max_lod = None, rq_scope = [],
      rq_support = es_of [], rq_exact_threshold = exact_threshold\<rparr>"

definition request_cost_model :: "pack_request \<Rightarrow> cost_model" where
  "request_cost_model rq = \<lparr>cm_estimator = rq_estimator rq, cm_external = rq_external rq\<rparr>"

definition request_effective_budget :: "pack_request \<Rightarrow> u64" where
  "request_effective_budget rq = sat_sub (rq_budget rq) (rq_reserved rq)"

datatype pack_error = Infeasible u64 u64 | FocusAbsent uid | OverReserved u64 u64

datatype pack_note = ExactAboveThreshold nat nat | ExactNotCompiled

record finished_pack =
  pk_selection :: selection
  pk_info :: pack_info
  pk_why :: "(uid, reason) bmap"
  pk_report :: "pack_note list"

subsection \<open>Salience within a selection (smysl-graph/src/salience.rs)\<close>

text \<open>\<open>f32::max\<close> keeps the other operand of a NaN; a maximum is positive when its bits are those of a positive number.\<close>

definition f32_key :: "f32 \<Rightarrow> int" where
  "f32_key w = sint (if bit w 31 then w XOR 0x7FFFFFFF else w)"

definition f32_max :: "f32 \<Rightarrow> f32 \<Rightarrow> f32" where
  "f32_max a b = (if f32_is_nan a then b else if f32_is_nan b then a else if f32_key a < f32_key b then b else a)"

definition salience_get :: "(uid, f32) bmap \<Rightarrow> uid \<Rightarrow> f32" where
  "salience_get scores u = (case bm_get scores u of Some v \<Rightarrow> v | None \<Rightarrow> 0)"

definition renormalise :: "f64_ops \<Rightarrow> (uid, f32) bmap \<Rightarrow> uid list \<Rightarrow> (uid, f32) bmap" where
  "renormalise fo scores within =
     (let m = fold (\<lambda>u a. f32_max a (salience_get scores u)) within 0 in
      bm_collect (map (\<lambda>u. (u, if 0 < m \<and> m \<le> 0x7F800000 then quantise (fo_div32 fo (salience_get scores u) m) else 0)) within))"

subsection \<open>Selections and their cost\<close>

definition cap_at :: "pack_request \<Rightarrow> lod \<Rightarrow> lod" where
  "cap_at rq l = (case rq_max_lod rq of Some m \<Rightarrow> if m < l then m else l | None \<Rightarrow> l)"

definition highest_available :: "store_read \<Rightarrow> uid \<Rightarrow> lod" where
  "highest_available s u = max (case sd_get s u of Some x \<Rightarrow> unit_max_lod (un_core x) | None \<Rightarrow> L0) L1"

definition raise_sel :: "uid \<times> lod \<Rightarrow> selection \<Rightarrow> selection" where
  "raise_sel e sel =
     (case bm_get sel (fst e) of
        Some l \<Rightarrow> if snd e \<le> l then sel else bm_insert (fst e) (snd e) sel
      | None \<Rightarrow> bm_insert (fst e) (snd e) sel)"

definition raise_all :: "selection \<Rightarrow> selection \<Rightarrow> selection" where
  "raise_all need sel = fold raise_sel need sel"

definition cost_of :: "store_read \<Rightarrow> cost_model \<Rightarrow> selection \<Rightarrow> u64" where
  "cost_of s m sel =
     sum_list (map (\<lambda>(u, l). case sd_get s u of Some x \<Rightarrow> cost_unit m (un_core x) l | None \<Rightarrow> 0) sel)"

definition weigh_entry :: "store_read \<Rightarrow> cost_model \<Rightarrow> f64_ops \<Rightarrow> (uid, f32) bmap \<Rightarrow> selection \<Rightarrow> uid \<times> lod \<Rightarrow> u64 \<times> f64 \<Rightarrow> u64 \<times> f64" where
  "weigh_entry s m fo local sel e cv = (case e of (u, l) \<Rightarrow>
     (case sd_get s u of
        None \<Rightarrow> cv
      | Some x \<Rightarrow>
          let from = bm_get sel u; v = salience_get local u in
          (fst cv + (case from of Some f \<Rightarrow> cost_upgrade m (un_core x) f l | None \<Rightarrow> cost_unit m (un_core x) l),
           fo_add fo (snd cv)
             (fo_sub fo (value_at fo v l) (case from of Some f \<Rightarrow> value_at fo v f | None \<Rightarrow> 0)))))"

definition weigh :: "store_read \<Rightarrow> cost_model \<Rightarrow> f64_ops \<Rightarrow> (uid, f32) bmap \<Rightarrow> selection \<Rightarrow> selection \<Rightarrow> u64 \<times> f64" where
  "weigh s m fo local sel d = fold (weigh_entry s m fo local sel) d (0, 0)"

subsection \<open>\<open>Choice\<close>\<close>

datatype choice = Choice (ch_density: f64) (ch_salience: f64) (ch_uid: uid) (ch_level: lod) (ch_index: nat)

text \<open>\<open>std::cmp::Reverse\<close>.\<close>

datatype 'a rev_order = Reverse 'a

instantiation rev_order :: (linorder) linorder
begin

fun less_eq_rev_order :: "'a rev_order \<Rightarrow> 'a rev_order \<Rightarrow> bool" where
  "less_eq_rev_order (Reverse a) (Reverse b) \<longleftrightarrow> b \<le> a"

fun less_rev_order :: "'a rev_order \<Rightarrow> 'a rev_order \<Rightarrow> bool" where
  "less_rev_order (Reverse a) (Reverse b) \<longleftrightarrow> b < a"

instance
proof
  fix a b c :: "'a rev_order"
  show "a < b \<longleftrightarrow> a \<le> b \<and> \<not> b \<le> a" by (cases a; cases b) auto
  show "a \<le> a" by (cases a) simp
  show "a \<le> b \<Longrightarrow> b \<le> c \<Longrightarrow> a \<le> c" by (cases a; cases b; cases c) simp
  show "a \<le> b \<Longrightarrow> b \<le> a \<Longrightarrow> a = b" by (cases a; cases b) simp
  show "a \<le> b \<or> b \<le> a" by (cases a; cases b) auto
qed

end

text \<open>The derived order: density, salience, then the unit, the level and the index the other way round.\<close>

definition choice_key :: "choice \<Rightarrow> int \<times> int \<times> uid rev_order \<times> lod rev_order \<times> nat rev_order" where
  "choice_key c =
     (total_key (ch_density c), total_key (ch_salience c), Reverse (ch_uid c), Reverse (ch_level c), Reverse (ch_index c))"

lemma xor_low_inj:
  "(if bit a 63 then a XOR 0x7FFFFFFFFFFFFFFF else a) = (if bit b 63 then b XOR 0x7FFFFFFFFFFFFFFF else b) \<Longrightarrow> a = (b :: u64)"
proof (rule bit_word_eqI)
  fix n
  let ?f = "\<lambda>w :: u64. if bit w 63 then w XOR 0x7FFFFFFFFFFFFFFF else w"
  assume eq: "?f a = ?f b" and n: "n < LENGTH(64)"
  have low: "bit (0x7FFFFFFFFFFFFFFF :: u64) k \<longleftrightarrow> k < 63" for k
  proof -
    have m: "(0x7FFFFFFFFFFFFFFF :: u64) = mask 63" by (simp add: mask_eq_exp_minus_1)
    show ?thesis unfolding m bit_mask_iff by auto
  qed
  have b: "bit (?f w) k \<longleftrightarrow> bit w k \<noteq> (bit w 63 \<and> k < 63)" for w k
    by (cases "bit w 63") (simp_all only: if_True if_False bit_xor_iff low simp_thms)
  have "bit (?f a) 63 = bit (?f b) 63" "bit (?f a) n = bit (?f b) n" using eq by simp_all
  then show "bit a n = bit b n" unfolding b by blast
qed

lemma choice_key_inj: "choice_key a = choice_key b \<Longrightarrow> a = b"
  by (cases a; cases b) (auto simp: choice_key_def total_key_def dest!: signed_word_eqI xor_low_inj)

instantiation choice :: linorder
begin

definition less_eq_choice :: "choice \<Rightarrow> choice \<Rightarrow> bool" where
  "less_eq_choice a b \<longleftrightarrow> choice_key a \<le> choice_key b"

definition less_choice :: "choice \<Rightarrow> choice \<Rightarrow> bool" where
  "less_choice a b \<longleftrightarrow> choice_key a < choice_key b"

instance
  by standard (auto simp: less_eq_choice_def less_choice_def intro: choice_key_inj antisym)

end

subsection \<open>The greedy\<close>

text \<open>What a run is fixed to, and what it changes.\<close>

record pack_env =
  pe_store :: store_read
  pe_model :: cost_model
  pe_ops :: f64_ops
  pe_local :: "(uid, f32) bmap"
  pe_support :: edge_set
  pe_budget :: u64
  pe_candidates :: "(uid \<times> lod) list"

record greedy =
  gd_selection :: selection
  gd_used :: u64
  gd_why :: "(uid, reason) bmap"
  gd_weighed :: "(u64 \<times> f64) option list"
  gd_ready :: "choice list"
  gd_parked :: "nat set"
  gd_placed :: "choice option list"
  gd_dirty :: "nat list"

definition need_of :: "pack_env \<Rightarrow> nat \<Rightarrow> selection" where
  "need_of e i = required_via (pe_store e) (fst (pe_candidates e ! i)) (snd (pe_candidates e ! i)) (pe_support e)"

definition delta_of :: "pack_env \<Rightarrow> selection \<Rightarrow> nat \<Rightarrow> selection" where
  "delta_of e sel i = keep_shortfall (need_of e i) sel"

definition satisfied :: "pack_env \<Rightarrow> selection \<Rightarrow> nat \<Rightarrow> bool" where
  "satisfied e sel i \<longleftrightarrow>
     (case bm_get sel (fst (pe_candidates e ! i)) of Some l \<Rightarrow> snd (pe_candidates e ! i) \<le> l | None \<Rightarrow> False)"

definition weigh_of :: "pack_env \<Rightarrow> selection \<Rightarrow> nat \<Rightarrow> u64 \<times> f64" where
  "weigh_of e sel i =
     (let d = delta_of e sel i in
      if d = [] then (0, 0) else weigh (pe_store e) (pe_model e) (pe_ops e) (pe_local e) sel d)"

definition choice_of :: "pack_env \<Rightarrow> u64 \<times> f64 \<Rightarrow> nat \<Rightarrow> choice" where
  "choice_of e w i =
     Choice (fo_div (pe_ops e) (snd w) (fo_of_u64 (pe_ops e) (fst w)))
       (fo_of_f32 (pe_ops e) (salience_get (pe_local e) (fst (pe_candidates e ! i))))
       (fst (pe_candidates e ! i)) (snd (pe_candidates e ! i)) i"

text \<open>\<open>affected\<close>: the candidates, in order, whose obligation mentions a unit.\<close>

definition affected :: "pack_env \<Rightarrow> uid \<Rightarrow> nat list" where
  "affected e u = filter (\<lambda>i. bm_contains (need_of e i) u) [0..<length (pe_candidates e)]"

definition reprice :: "pack_env \<Rightarrow> nat \<Rightarrow> greedy \<Rightarrow> greedy" where
  "reprice e i g =
     (let g1 = (case gd_placed g ! i of
                  Some old \<Rightarrow> g\<lparr>gd_ready := removeAll old (gd_ready g), gd_placed := (gd_placed g)[i := None]\<rparr>
                | None \<Rightarrow> g)\<lparr>gd_parked := gd_parked g - {i}\<rparr> in
      if satisfied e (gd_selection g) i then g1
      else
        let w = weigh_of e (gd_selection g) i; g2 = g1\<lparr>gd_weighed := (gd_weighed g1)[i := Some w]\<rparr> in
        if fst w = 0 then g2
        else if pe_budget e < gd_used g + fst w then g2\<lparr>gd_parked := insert i (gd_parked g2)\<rparr>
        else let c = choice_of e w i in
          g2\<lparr>gd_placed := (gd_placed g2)[i := Some c], gd_ready := bs_insert c (gd_ready g2)\<rparr>)"

function take_winner :: "pack_env \<Rightarrow> greedy \<Rightarrow> ((uid \<times> lod \<times> u64) option \<times> greedy) option" where
  "take_winner e g =
     (if gd_ready g = [] then Some (None, g)
      else
        let c = last (gd_ready g); i = ch_index c;
            g' = g\<lparr>gd_ready := butlast (gd_ready g), gd_placed := (gd_placed g)[i := None]\<rparr> in
        (case gd_weighed g ! i of
           None \<Rightarrow> None
         | Some (dc, dv) \<Rightarrow>
             if pe_budget e < gd_used g + dc then take_winner e (g'\<lparr>gd_parked := insert i (gd_parked g')\<rparr>)
             else Some (Some (fst (pe_candidates e ! i), snd (pe_candidates e ! i), dc), g')))"
  by pat_completeness auto
termination
  by (relation "measure (\<lambda>(e, g). length (gd_ready g))") auto

declare take_winner.simps [simp del]

text \<open>One entry of the winner's shortfall is taken in.\<close>

definition admit_entry :: "pack_env \<Rightarrow> uid \<Rightarrow> lod \<Rightarrow> uid \<times> lod \<Rightarrow> greedy \<Rightarrow> greedy" where
  "admit_entry e uid level x g = (case x of (u, l) \<Rightarrow>
     let moved = (case bm_get (gd_selection g) u of Some held \<Rightarrow> held < l | None \<Rightarrow> True);
         hit = (if moved then affected e u else []) in
     g\<lparr>gd_selection := raise_sel (u, l) (gd_selection g),
       gd_weighed := fold (\<lambda>i w. w[i := None]) hit (gd_weighed g),
       gd_dirty := gd_dirty g @ hit,
       gd_why := (if bm_contains (gd_why g) u then gd_why g
                  else bm_insert u
                    (if u = uid then ReDensity
                     else case bm_get (reasons_via (pe_store e) uid level (pe_support e)) u of
                            Some r \<Rightarrow> r | None \<Rightarrow> ReDensity) (gd_why g))\<rparr>)"

definition admit :: "pack_env \<Rightarrow> uid \<times> lod \<times> u64 \<Rightarrow> greedy \<Rightarrow> greedy" where
  "admit e w g = (case w of (uid, level, dc) \<Rightarrow>
     let d = delta_via (pe_store e) (gd_selection g) uid level (pe_support e);
         g' = fold (admit_entry e uid level) d g in
     g'\<lparr>gd_used := gd_used g' + dc\<rparr>)"

definition reprice_dirty :: "pack_env \<Rightarrow> greedy \<Rightarrow> greedy" where
  "reprice_dirty e g = fold (reprice e) (gd_dirty g) (g\<lparr>gd_dirty := []\<rparr>)"

partial_function (option) greedy_loop :: "pack_env \<Rightarrow> greedy \<Rightarrow> greedy option" where
  [code]: "greedy_loop e g =
     (case take_winner e (reprice_dirty e g) of
        None \<Rightarrow> None
      | Some (None, g') \<Rightarrow> Some g'
      | Some (Some w, g') \<Rightarrow> greedy_loop e (admit e w g'))"

subsection \<open>The fractional bound (smysl-pack/src/bound.rs)\<close>

record relaxed =
  rx_cost :: u64
  rx_value :: f64

definition relaxed_density :: "f64_ops \<Rightarrow> relaxed \<Rightarrow> f64" where
  "relaxed_density fo r =
     (if rx_cost r = 0 then 0x7FF0000000000000 else fo_div fo (rx_value r) (fo_of_u64 fo (rx_cost r)))"

definition upgrades_of ::
  "cost_model \<Rightarrow> f64_ops \<Rightarrow> (lod \<Rightarrow> lod) \<Rightarrow> unit_core \<Rightarrow> lod option \<Rightarrow> f32 \<Rightarrow> (u64 \<times> f64) list" where
  "upgrades_of m fo cap core held v =
     filter (\<lambda>(c, x). 0 < c \<and> f64_positive x)
       (map (\<lambda>l.
          ((case held of Some h \<Rightarrow> cost_upgrade m core h l | None \<Rightarrow> cost_unit m core l),
           fo_sub fo (value_at fo v l) (case held of Some h \<Rightarrow> value_at fo v h | None \<Rightarrow> 0)))
         (filter (\<lambda>l. case held of Some h \<Rightarrow> h < l | None \<Rightarrow> True) (map cap (available_levels core))))"

definition relaxed_item :: "f64_ops \<Rightarrow> (u64 \<times> f64) list \<Rightarrow> relaxed option" where
  "relaxed_item fo upgrades =
     (if upgrades = [] then None
      else
        let best = fold (\<lambda>(c, v) a. f64_max a (fo_div fo v (fo_of_u64 fo c))) upgrades 0;
            capacity = fold (\<lambda>(c, v) a. max a c) upgrades 0 in
        if capacity = 0 \<or> \<not> f64_positive best then None
        else Some \<lparr>rx_cost = capacity, rx_value = fo_mul fo (fo_of_u64 fo capacity) best\<rparr>)"

fun fill_items :: "f64_ops \<Rightarrow> u64 \<Rightarrow> f64 \<Rightarrow> relaxed list \<Rightarrow> f64" where
  "fill_items fo left acc [] = acc"
| "fill_items fo left acc (r # rs) =
     (if left = 0 then acc
      else if rx_cost r \<le> left then fill_items fo (left - rx_cost r) (fo_add fo acc (rx_value r)) rs
      else fo_add fo acc (fo_mul fo (rx_value r) (fo_div fo (fo_of_u64 fo left) (fo_of_u64 fo (rx_cost r)))))"

text \<open>\<open>sort_by\<close> is stable: densest first, then cheapest.\<close>

definition fractional ::
  "store_read \<Rightarrow> selection \<Rightarrow> uid list \<Rightarrow> (uid, f32) bmap \<Rightarrow> cost_model \<Rightarrow> f64_ops \<Rightarrow> u64 \<Rightarrow> (lod \<Rightarrow> lod) \<Rightarrow> f64" where
  "fractional s sel scope local m fo remaining cap =
     (if remaining = 0 then 0
      else
        let items = List.map_filter (\<lambda>u. case sd_get s u of
              None \<Rightarrow> None
            | Some x \<Rightarrow> relaxed_item fo (upgrades_of m fo cap (un_core x) (bm_get sel u) (salience_get local u))) scope in
        fill_items fo remaining 0 (sort_key (\<lambda>r. (- total_key (relaxed_density fo r), rx_cost r)) items))"

definition achieved :: "f64_ops \<Rightarrow> selection \<Rightarrow> (uid, f32) bmap \<Rightarrow> f64" where
  "achieved fo sel local = fold (\<lambda>(u, l) a. fo_add fo a (value_at fo (salience_get local u) l)) sel 0"

definition gap_of :: "f64_ops \<Rightarrow> f64 \<Rightarrow> f64 \<Rightarrow> f32" where
  "gap_of fo got headroom =
     (let ceiling = fo_add fo got headroom in
      if \<not> f64_positive ceiling then 0 else quantise (fo_to_f32 fo (fo_div fo headroom ceiling)))"

subsection \<open>\<open>pack\<close>\<close>

definition scope_of :: "store_read \<Rightarrow> pack_request \<Rightarrow> uid list" where
  "scope_of s rq = (if rq_scope rq = [] then bm_keys (sd_units s) else filter (sd_contains s) (rq_scope rq))"

definition focus_level :: "store_read \<Rightarrow> pack_request \<Rightarrow> uid \<Rightarrow> lod" where
  "focus_level s rq f = cap_at rq (highest_available s f)"

definition floor_of :: "store_read \<Rightarrow> pack_request \<Rightarrow> selection" where
  "floor_of s rq =
     fold (\<lambda>f sel. raise_all (required_via s f (focus_level s rq f) (rq_support rq)) sel) (rq_focus rq) []"

definition or_insert :: "uid \<times> reason \<Rightarrow> (uid, reason) bmap \<Rightarrow> (uid, reason) bmap" where
  "or_insert e why = (if bm_contains why (fst e) then why else bm_insert (fst e) (snd e) why)"

definition floor_why :: "store_read \<Rightarrow> pack_request \<Rightarrow> (uid, reason) bmap" where
  "floor_why s rq =
     fold (\<lambda>f why. fold or_insert (reasons_via s f (focus_level s rq f) (rq_support rq)) (bm_insert f ReFocus why))
       (rq_focus rq) []"

definition everything_of :: "store_read \<Rightarrow> pack_request \<Rightarrow> selection" where
  "everything_of s rq =
     bm_collect (List.map_filter (\<lambda>u. map_option (\<lambda>x. (u, Max (set (map (cap_at rq) (available_levels (un_core x)))))) (sd_get s u))
       (scope_of s rq))"

definition request_constraints :: "pack_request \<Rightarrow> constraints" where
  "request_constraints rq =
     \<lparr>cs_pinned = rq_focus rq, cs_budget = request_effective_budget rq, cs_support = rq_support rq\<rparr>"

definition everything_fits :: "store_read \<Rightarrow> pack_request \<Rightarrow> bool" where
  "everything_fits s rq \<longleftrightarrow>
     (let cost = cost_of s (request_cost_model rq) (everything_of s rq) in
      cost \<le> request_effective_budget rq \<and>
      violations s (everything_of s rq) cost (request_constraints rq) = {})"

definition candidates_of :: "store_read \<Rightarrow> pack_request \<Rightarrow> (uid \<times> lod) list" where
  "candidates_of s rq =
     concat (map (\<lambda>u. case sd_get s u of
                         None \<Rightarrow> []
                       | Some x \<Rightarrow> map (\<lambda>l. (u, cap_at rq l)) (available_levels (un_core x))) (scope_of s rq))"

definition pack_env_of :: "f64_ops \<Rightarrow> store_read \<Rightarrow> (uid, f32) bmap \<Rightarrow> pack_request \<Rightarrow> pack_env" where
  "pack_env_of fo s scores rq =
     \<lparr>pe_store = s, pe_model = request_cost_model rq, pe_ops = fo,
      pe_local = renormalise fo scores (scope_of s rq), pe_support = rq_support rq,
      pe_budget = request_effective_budget rq, pe_candidates = candidates_of s rq\<rparr>"

definition greedy_start :: "nat \<Rightarrow> selection \<Rightarrow> u64 \<Rightarrow> (uid, reason) bmap \<Rightarrow> greedy" where
  "greedy_start n sel used why =
     \<lparr>gd_selection = sel, gd_used = used, gd_why = why, gd_weighed = replicate n None, gd_ready = [],
      gd_parked = {}, gd_placed = replicate n None, gd_dirty = [0..<n]\<rparr>"

text \<open>The floor, or the floor raised to everything when everything fits.\<close>

definition pack_start :: "store_read \<Rightarrow> pack_request \<Rightarrow> greedy" where
  "pack_start s rq =
     (let n = length (candidates_of s rq); m = request_cost_model rq; all = everything_of s rq in
      if everything_fits s rq
      then greedy_start n (raise_all all (floor_of s rq)) (cost_of s m all)
             (fold or_insert (map (\<lambda>(u, l). (u, ReDensity)) all) (floor_why s rq))
      else greedy_start n (floor_of s rq) (cost_of s m (floor_of s rq)) (floor_why s rq))"

definition drop_reason_of :: "store_read \<Rightarrow> selection \<Rightarrow> (uid, f32) bmap \<Rightarrow> uid \<Rightarrow> drop_reason" where
  "drop_reason_of s sel local u =
     (if salience_get local u AND 0x7FFFFFFF = 0 then DrLowValue
      else if length (delta s sel u L0) > 1 then DrClosureCost else DrBudget)"

definition pack_info_of :: "f64_ops \<Rightarrow> store_read \<Rightarrow> (uid, f32) bmap \<Rightarrow> pack_request \<Rightarrow> selection \<Rightarrow> u64 \<Rightarrow> pack_info" where
  "pack_info_of fo s local rq sel used =
     (let scope = scope_of s rq; m = request_cost_model rq;
          headroom = fractional s sel scope local m fo (sat_sub (request_effective_budget rq) used) (cap_at rq) in
      (pack_info_new (rq_budget rq) used (cost_model_id m))
        \<lparr>pi_reserved := rq_reserved rq, pi_thread := rq_thread rq,
         pi_dropped := map (\<lambda>u. (u, drop_reason_of s sel local u)) (filter (\<lambda>u. \<not> bm_contains sel u) scope),
         pi_degraded := filter (\<lambda>(u, l). case sd_get s u of
             Some x \<Rightarrow> l < cap_at rq (unit_max_lod (un_core x)) | None \<Rightarrow> False) sel,
         pi_optimality := \<lparr>op_mode = rq_mode rq, op_gap = gap_of fo (achieved fo sel local) headroom\<rparr>\<rparr>)"

definition exact_notes :: "store_read \<Rightarrow> pack_request \<Rightarrow> pack_note list" where
  "exact_notes s rq =
     (if rq_mode rq = PmExact
      then if rq_exact_threshold rq < length (scope_of s rq)
           then [ExactAboveThreshold (length (scope_of s rq)) (rq_exact_threshold rq)]
           else [ExactNotCompiled]
      else [])"

definition pack :: "f64_ops \<Rightarrow> store_read \<Rightarrow> (uid, f32) bmap \<Rightarrow> pack_request \<Rightarrow> (pack_error + finished_pack) option" where
  "pack fo s scores rq =
     (if rq_reserved rq \<noteq> 0 \<and> rq_budget rq \<le> rq_reserved rq then Some (Inl (OverReserved (rq_budget rq) (rq_reserved rq)))
      else (case find (\<lambda>f. \<not> sd_contains s f) (rq_focus rq) of
        Some f \<Rightarrow> Some (Inl (FocusAbsent f))
      | None \<Rightarrow>
          let floor_cost = cost_of s (request_cost_model rq) (floor_of s rq) in
          if request_effective_budget rq < floor_cost
          then Some (Inl (Infeasible (rq_budget rq) (floor_cost + rq_reserved rq)))
          else (case greedy_loop (pack_env_of fo s scores rq) (pack_start s rq) of
                  None \<Rightarrow> None
                | Some g \<Rightarrow> Some (Inr
                    \<lparr>pk_selection = gd_selection g,
                     pk_info = pack_info_of fo s (renormalise fo scores (scope_of s rq)) rq (gd_selection g) (gd_used g),
                     pk_why = gd_why g, pk_report = exact_notes s rq\<rparr>))))"

definition verify_pack :: "store_read \<Rightarrow> finished_pack \<Rightarrow> pack_request \<Rightarrow> violation set" where
  "verify_pack s p rq = violations s (pk_selection p) (pi_used (pk_info p)) (request_constraints rq)"

end
