(* ===== verification/Pack_Selections.thy ===== *)
theory Pack_Selections
  imports Pack_Solve
begin

section \<open>Raising a selection, and what it costs\<close>

text \<open>
  The algebra of selections: raising one by an obligation is their join, it keeps closure, and it is
  the same whether the obligation or only its shortfall is taken in. The cost of a selection is a
  sum over the units of the store; where the whole store at full depth costs less than \<open>2 ^ 64\<close>, no
  sum of the solver wraps, and what a shortfall is weighed at is what the selection's cost grows by.
\<close>

subsection \<open>Joins\<close>

lemma sel_ext:
  assumes "bm_ok a" "bm_ok b" "\<And>u l. meets a u l \<longleftrightarrow> meets b u l"
  shows "a = b"
proof (rule bm_ext [OF assms(1,2)])
  fix u
  have "meets a u l \<longleftrightarrow> meets b u l" for l by (rule assms(3))
  then show "bm_get a u = bm_get b u"
    by (cases "bm_get a u"; cases "bm_get b u") (auto simp: meets_def intro: antisym)
qed

lemma raise_sel_get:
  "bm_get (raise_sel e sel) u =
     (if u = fst e then Some (case bm_get sel u of Some k \<Rightarrow> max k (snd e) | None \<Rightarrow> snd e) else bm_get sel u)"
  by (auto simp: raise_sel_def bm_get_insert_any max_def split: option.splits)

lemma raise_sel_ok [simp, ok_intros]: "bm_ok sel \<Longrightarrow> bm_ok (raise_sel e sel)"
  by (auto simp: raise_sel_def split: option.splits)

lemma meets_raise_sel: "meets (raise_sel e sel) u l \<longleftrightarrow> meets sel u l \<or> u = fst e \<and> l \<le> snd e"
  by (auto simp: meets_def raise_sel_get le_max_iff_disj split: option.splits)

lemma raise_all_ok [simp, ok_intros]: "bm_ok sel \<Longrightarrow> bm_ok (raise_all need sel)"
  unfolding raise_all_def by (induction need arbitrary: sel) auto

lemma meets_raise_list: "meets (raise_all need sel) u l \<longleftrightarrow> meets sel u l \<or> (\<exists>k. (u, k) \<in> set need \<and> l \<le> k)"
  unfolding raise_all_def
proof (induction need arbitrary: sel)
  case (Cons e need)
  then show ?case by (cases e) (auto simp: meets_raise_sel)
qed simp

lemma meets_raise_all: "bm_ok need \<Longrightarrow> meets (raise_all need sel) u l \<longleftrightarrow> meets sel u l \<or> meets need u l"
  by (auto simp: meets_raise_list) (auto simp: meets_def bm_get_Some_iff)

lemma raise_all_get:
  "bm_get (raise_all need sel) u = Some l \<Longrightarrow> bm_get sel u = Some l \<or> (u, l) \<in> set need"
  unfolding raise_all_def
proof (induction need arbitrary: sel)
  case (Cons e need)
  then show ?case
    by (cases e) (auto simp: raise_sel_get max_def split: if_splits option.splits dest!: Cons.IH)
qed simp

lemma raise_all_closed:
  assumes "bm_ok need" "closed_sel s support need" "closed_sel s support sel"
  shows "closed_sel s support (raise_all need sel)"
  unfolding closed_sel_def
proof (intro allI impI ballI)
  fix u l v
  assume u: "bm_get (raise_all need sel) u = Some l" "sd_contains s u" "v \<in> set (obligations s support u l)"
  then have "bm_get sel u = Some l \<or> bm_get need u = Some l"
    using raise_all_get [OF u(1)] assms(1) by (auto simp: bm_get_Some_iff)
  then show "meets (raise_all need sel) v L0"
    using u(2,3) assms(2,3) by (auto simp: meets_raise_all [OF assms(1)] closed_sel_def)
qed

lemma keep_shortfall_ok [simp, ok_intros]: "bm_ok need \<Longrightarrow> bm_ok (keep_shortfall need sel)"
  by (simp add: keep_shortfall_def)

lemma raise_shortfall:
  assumes "bm_ok need" "bm_ok sel"
  shows "raise_all (keep_shortfall need sel) sel = raise_all need sel"
proof (rule sel_ext)
  fix u l
  show "meets (raise_all (keep_shortfall need sel) sel) u l \<longleftrightarrow> meets (raise_all need sel) u l"
    unfolding meets_raise_list
    by (auto simp: keep_shortfall_def meets_def not_less split: option.splits intro: order_trans)
qed (use assms in simp_all)

lemma closed_Nil [simp]: "closed_sel s support []"
  by (simp add: closed_sel_def)

subsection \<open>Costs\<close>

text \<open>The price of a unit at the level it is held at, as a natural number.\<close>

definition price :: "store_read \<Rightarrow> cost_model \<Rightarrow> uid \<Rightarrow> lod option \<Rightarrow> nat" where
  "price s m u held =
     (case sd_get s u of
        None \<Rightarrow> 0
      | Some x \<Rightarrow>
          (case held of
             None \<Rightarrow> 0
           | Some l \<Rightarrow>
               unat (cost_text m (uc_gist (un_core x))) +
               (if L1 \<le> l then (case uc_body (un_core x) of Some b \<Rightarrow> unat (cost_text m b) | None \<Rightarrow> 0) else 0) +
               (if L2 \<le> l then (case uc_detail (un_core x) of Some d \<Rightarrow> unat (cost_text m d) | None \<Rightarrow> 0) else 0)))"

definition sel_price :: "store_read \<Rightarrow> cost_model \<Rightarrow> selection \<Rightarrow> nat" where
  "sel_price s m sel = (\<Sum>u \<in> fst ` set (sd_units s). price s m u (bm_get sel u))"

text \<open>The whole store at full depth costs less than the width of a cost.\<close>

definition store_fits :: "store_read \<Rightarrow> cost_model \<Rightarrow> bool" where
  "store_fits s m \<longleftrightarrow> (\<Sum>u \<in> fst ` set (sd_units s). price s m u (Some L2)) < 2 ^ 64"

lemma price_mono: "lod_rank a \<le> lod_rank b \<Longrightarrow> price s m u a \<le> price s m u b"
  by (cases a; cases b; cases "the a"; cases "the b"; cases "sd_get s u")
     (auto simp: price_def lod_rank_def less_eq_lod_def split: option.splits)

lemma lod_rank_mono: "l \<le> l' \<Longrightarrow> lod_rank (Some l) \<le> lod_rank (Some l')"
  by (cases l; cases l') (auto simp: lod_rank_def less_eq_lod_def word_le_nat_alt)

lemma price_full: "price s m u a \<le> price s m u (Some L2)"
  by (rule price_mono) (cases a; cases "the a"; auto simp: lod_rank_def)

lemma sel_price_full: "store_fits s m \<Longrightarrow> sel_price s m sel < 2 ^ 64"
  unfolding store_fits_def sel_price_def by (rule le_less_trans [OF sum_mono]) (auto intro: price_full)

lemma price_fits: "store_fits s m \<Longrightarrow> price s m u a < 2 ^ 64"
proof (cases "sd_get s u")
  case (Some x)
  assume fits: "store_fits s m"
  have "u \<in> fst ` set (sd_units s)" using Some by (simp add: sd_get_def) (metis bm_get_None_iff option.distinct(1))
  then have "price s m u (Some L2) \<le> (\<Sum>u \<in> fst ` set (sd_units s). price s m u (Some L2))"
    by (intro member_le_sum) auto
  then show ?thesis using fits price_full [of s m u a] by (simp add: store_fits_def)
qed (simp add: price_def)

lemma unat_plus_fits: "unat a + unat b < 2 ^ 64 \<Longrightarrow> unat (a + b :: u64) = unat a + unat b"
  by (simp add: unat_word_ariths)

lemma unat_cost_unit:
  assumes "store_fits s m" "sd_get s u = Some x"
  shows "unat (cost_unit m (un_core x) l) = price s m u (Some l)"
proof -
  have "price s m u (Some l) < 2 ^ 64" by (rule price_fits [OF assms(1)])
  then show ?thesis
    using assms(2) by (auto simp: cost_unit_def price_def unat_plus_fits split: option.splits)
qed

lemma unat_sum_list: "sum_list (map unat ws) < 2 ^ 64 \<Longrightarrow> unat (sum_list ws :: u64) = sum_list (map unat ws)"
  by (induction ws) (simp_all add: unat_plus_fits)

lemma units_key: "sd_get s u \<noteq> None \<longleftrightarrow> u \<in> fst ` set (sd_units s)"
  by (simp add: sd_get_def bm_get_None_iff)

text \<open>A sum over the entries of a selection is a sum over the units of the store.\<close>

lemma sum_entries:
  assumes "bm_ok sel" "\<And>u l. sd_get s u = None \<Longrightarrow> f u l = 0"
  shows "sum_list (map (\<lambda>(u, l). f u l) sel) =
    (\<Sum>u \<in> fst ` set (sd_units s). case bm_get sel u of Some l \<Rightarrow> f u l | None \<Rightarrow> (0 :: nat))"
proof -
  let ?g = "\<lambda>u. case bm_get sel u of Some l \<Rightarrow> f u l | None \<Rightarrow> (0 :: nat)"
  have d: "distinct (map fst sel)" using assms(1) by (simp add: bm_ok_def ascending_distinct)
  have "sum_list (map (\<lambda>(u, l). f u l) sel) = sum_list (map (?g \<circ> fst) sel)"
    using assms(1) by (intro arg_cong [where f = sum_list] map_cong) (auto simp flip: bm_get_Some_iff)
  also have "\<dots> = sum ?g (fst ` set sel)"
    using d by (simp add: sum_list_distinct_conv_sum_set flip: map_map)
  also have "\<dots> = sum ?g (fst ` set sel \<inter> fst ` set (sd_units s))"
  proof (intro sum.mono_neutral_right ballI)
    fix u assume "u \<in> fst ` set sel - fst ` set sel \<inter> fst ` set (sd_units s)"
    then have "sd_get s u = None" using units_key [of s u] by blast
    then show "?g u = 0" by (simp add: assms(2) split: option.splits)
  qed auto
  also have "\<dots> = sum ?g (fst ` set (sd_units s))"
  proof (intro sum.mono_neutral_left ballI)
    fix u assume "u \<in> fst ` set (sd_units s) - fst ` set sel \<inter> fst ` set (sd_units s)"
    then have "u \<notin> fst ` set sel" by blast
    then have "bm_get sel u = None" by (simp only: bm_get_None_iff not_False_eq_True)
    then show "?g u = 0" by simp
  qed auto
  finally show ?thesis .
qed

lemma price_None [simp]: "price s m u None = 0"
  by (simp add: price_def split: option.splits)

lemma price_absent: "sd_get s u = None \<Longrightarrow> price s m u l = 0"
  by (simp add: price_def)

lemma unat_cost_of:
  assumes "store_fits s m" "bm_ok sel"
  shows "unat (cost_of s m sel) = sel_price s m sel"
proof -
  let ?f = "\<lambda>(u, l). case sd_get s u of Some x \<Rightarrow> cost_unit m (un_core x) l | None \<Rightarrow> 0"
  have entry: "map (unat \<circ> ?f) sel = map (\<lambda>(u, l). price s m u (Some l)) sel"
    by (rule map_cong) (auto simp: unat_cost_unit [OF assms(1)] price_absent split: option.splits)
  have "sum_list (map (\<lambda>(u, l). price s m u (Some l)) sel) = sel_price s m sel"
    unfolding sel_price_def by (subst sum_entries [OF assms(2), of s]) (auto simp: price_absent split: option.splits intro!: sum.cong)
  then show ?thesis
    using unat_sum_list [of "map ?f sel"] sel_price_full [OF assms(1), of sel] by (simp add: cost_of_def entry)
qed

definition entry_cost :: "store_read \<Rightarrow> cost_model \<Rightarrow> selection \<Rightarrow> uid \<times> lod \<Rightarrow> u64" where
  "entry_cost s m sel e = (case e of (u, l) \<Rightarrow>
     (case sd_get s u of
        None \<Rightarrow> 0
      | Some x \<Rightarrow>
          (case bm_get sel u of Some f \<Rightarrow> cost_upgrade m (un_core x) f l | None \<Rightarrow> cost_unit m (un_core x) l)))"

lemma weigh_entry_cost: "fst (weigh_entry s m fo local sel e cv) = fst cv + entry_cost s m sel e"
  by (cases e; cases "sd_get s (fst e)") (simp_all add: weigh_entry_def entry_cost_def Let_def)

lemma fold_weigh_cost:
  "fst (fold (weigh_entry s m fo local sel) d cv) = fst cv + sum_list (map (entry_cost s m sel) d)"
  by (induction d arbitrary: cv) (simp_all add: weigh_entry_cost add.assoc)

text \<open>What a shortfall is weighed at is what the price of the selection grows by.\<close>

lemma weigh_is_growth:
  assumes fits: "store_fits s m" and ok: "bm_ok need" "bm_ok sel" and d: "d = keep_shortfall need sel"
  shows "sel_price s m (raise_all need sel) = sel_price s m sel + unat (fst (weigh s m fo local sel d))"
proof -
  let ?r = "raise_all d sel"
  let ?g = "\<lambda>u l. price s m u (Some l) - price s m u (bm_get sel u)"
  have dok: "bm_ok d" using ok d by simp
  have r: "raise_all need sel = ?r" using raise_shortfall [OF ok] d by simp
  have short: "lod_rank (bm_get sel u) \<le> lod_rank (Some l)" if "bm_get d u = Some l" for u l
    using that dok d lod_rank_less [where y = "bm_get sel u" and l = l]
    by (auto simp: keep_shortfall_def bm_get_Some_iff split: option.splits intro: less_imp_le)
  have get: "bm_get ?r u = (case bm_get d u of Some l \<Rightarrow> Some l | None \<Rightarrow> bm_get sel u)" for u
  proof (cases "bm_get d u")
    case None
    then have "(u, l) \<notin> set d" for l using dok by (simp flip: bm_get_Some_iff)
    then have "meets ?r u k \<longleftrightarrow> meets sel u k" for k by (simp add: meets_raise_list)
    then show ?thesis using None by (cases "bm_get ?r u"; cases "bm_get sel u") (auto simp: meets_def intro: antisym)
  next
    case (Some l)
    then have "meets ?r u l" using dok by (auto simp: meets_raise_list bm_get_Some_iff)
    then obtain k where k: "bm_get ?r u = Some k" "l \<le> k" by (auto simp: meets_def)
    from raise_all_get [OF k(1)] dok have "bm_get sel u = Some k \<or> k = l"
      using Some by (auto simp flip: bm_get_Some_iff)
    moreover have "bm_get sel u = Some k \<Longrightarrow> k = l"
      using short [OF Some] k(2) by (cases k; cases l) (auto simp: lod_rank_def less_eq_lod_def word_le_nat_alt)
    ultimately show ?thesis using k Some by auto
  qed
  have grow: "price s m u (bm_get ?r u) = price s m u (bm_get sel u) + (case bm_get d u of Some l \<Rightarrow> ?g u l | None \<Rightarrow> 0)" for u
    using price_mono [OF short] by (auto simp: get split: option.splits)
  have "sel_price s m ?r = sel_price s m sel + (\<Sum>u \<in> fst ` set (sd_units s). case bm_get d u of Some l \<Rightarrow> ?g u l | None \<Rightarrow> 0)"
    unfolding sel_price_def by (simp add: grow sum.distrib)
  also have "(\<Sum>u \<in> fst ` set (sd_units s). case bm_get d u of Some l \<Rightarrow> ?g u l | None \<Rightarrow> 0) = sum_list (map (\<lambda>(u, l). ?g u l) d)"
    by (rule sum_entries [OF dok, symmetric]) (simp add: price_absent)
  finally have total: "sel_price s m ?r = sel_price s m sel + sum_list (map (\<lambda>(u, l). ?g u l) d)" .
  have upgrade: "unat (cost_upgrade m (un_core x) f l) = price s m u (Some l) - price s m u (Some f)"
    if "sd_get s u = Some x" for u x f l
    using unat_cost_unit [OF fits that, of l] unat_cost_unit [OF fits that, of f]
    by (auto simp: cost_upgrade_def sat_sub_def word_less_nat_alt unat_sub word_le_nat_alt not_less)
  have "map (unat \<circ> entry_cost s m sel) d = map (\<lambda>(u, l). ?g u l) d"
    by (rule map_cong) (auto simp: entry_cost_def price_absent upgrade unat_cost_unit [OF fits] split: option.splits)
  moreover have "sum_list (map (\<lambda>(u, l). ?g u l) d) < 2 ^ 64"
    using total sel_price_full [OF fits, of ?r] by simp
  ultimately have "unat (fst (weigh s m fo local sel d)) = sum_list (map (\<lambda>(u, l). ?g u l) d)"
    using unat_sum_list [of "map (entry_cost s m sel) d"] by (simp only: weigh_def fold_weigh_cost map_map fst_conv add_0)
  with total show ?thesis by (simp add: r)
qed

end
