(* ===== verification/Pack_Greedy.thy ===== *)
theory Pack_Greedy
  imports Pack_Selections
begin

section \<open>The lazy greedy is the scan\<close>

text \<open>
  The solver keeps its candidates in an ordered set of priced choices, reprices only those a change
  can have touched and parks those it cannot afford. The reference is the loop it replaced: weigh
  every candidate against the selection, take the greatest affordable choice, and go round again. The
  invariant \<open>priced\<close> says what the caches hold for every candidate not marked dirty; with it, each
  round takes the choice the scan takes, both loops end, and they end alike.
\<close>

subsection \<open>The reference\<close>

definition affordable :: "pack_env \<Rightarrow> selection \<Rightarrow> u64 \<Rightarrow> nat \<Rightarrow> bool" where
  "affordable e sel used i \<longleftrightarrow>
     \<not> satisfied e sel i \<and> fst (weigh_of e sel i) \<noteq> 0 \<and> \<not> pe_budget e < used + fst (weigh_of e sel i)"

definition choice_at :: "pack_env \<Rightarrow> selection \<Rightarrow> nat \<Rightarrow> choice" where
  "choice_at e sel i = choice_of e (weigh_of e sel i) i"

partial_function (option) scan_loop :: "pack_env \<Rightarrow> selection \<Rightarrow> u64 \<Rightarrow> (selection \<times> u64) option" where
  [code]: "scan_loop e sel used =
     (let open = filter (affordable e sel used) [0..<length (pe_candidates e)] in
      if open = [] then Some (sel, used)
      else let i = ch_index (Max (set (map (choice_at e sel) open))) in
        scan_loop e (raise_all (need_of e i) sel) (used + fst (weigh_of e sel i)))"

subsection \<open>What weighing depends on\<close>

lemma need_of_ok [simp]: "bm_ok (need_of e i)"
  by (simp add: need_of_def)

lemma choice_at_index [simp]: "ch_index (choice_at e sel i) = i" "ch_index (choice_of e w i) = i"
  by (simp_all add: choice_at_def choice_of_def)

lemma need_of_meets: "meets (need_of e i) (fst (pe_candidates e ! i)) (snd (pe_candidates e ! i))"
  unfolding need_of_def by (rule required_meets)

lemma need_of_self: "bm_contains (need_of e i) (fst (pe_candidates e ! i))"
  using need_of_meets [of e i] by (auto simp: meets_def bm_contains_def)

lemma satisfied_meets: "satisfied e sel i \<longleftrightarrow> meets sel (fst (pe_candidates e ! i)) (snd (pe_candidates e ! i))"
  by (auto simp: satisfied_def meets_def split: option.splits)

lemma weigh_of_cong:
  assumes "\<And>u. bm_contains (need_of e i) u \<Longrightarrow> bm_get sel' u = bm_get sel u"
  shows "satisfied e sel' i = satisfied e sel i" "weigh_of e sel' i = weigh_of e sel i"
    "choice_at e sel' i = choice_at e sel i"
proof -
  show "satisfied e sel' i = satisfied e sel i"
    using assms [OF need_of_self] by (simp add: satisfied_def)
  have key: "x \<in> set (need_of e i) \<Longrightarrow> bm_get sel' (fst x) = bm_get sel (fst x)" for x
    by (rule assms) (auto simp: bm_contains_iff)
  have d: "delta_of e sel' i = delta_of e sel i"
    unfolding delta_of_def keep_shortfall_def by (rule filter_cong) (auto dest: key)
  have same: "weigh_entry s m fo local sel' x = weigh_entry s m fo local sel x" if "x \<in> set (delta_of e sel i)"
    for s m fo local x
  proof
    fix cv
    have "bm_get sel' (fst x) = bm_get sel (fst x)" using that by (intro key) (simp add: delta_of_def keep_shortfall_def)
    then show "weigh_entry s m fo local sel' x cv = weigh_entry s m fo local sel x cv"
      by (cases x; cases "sd_get s (fst x)") (simp_all add: weigh_entry_def)
  qed
  have "weigh s m fo local sel' (delta_of e sel i) = weigh s m fo local sel (delta_of e sel i)" for s m fo local
    unfolding weigh_def by (intro fold_cong refl same)
  then show "weigh_of e sel' i = weigh_of e sel i" by (simp add: weigh_of_def d Let_def)
  then show "choice_at e sel' i = choice_at e sel i" by (simp add: choice_at_def)
qed

lemma weigh_of_growth:
  assumes "store_fits (pe_store e) (pe_model e)" "bm_ok sel"
  shows "sel_price (pe_store e) (pe_model e) (raise_all (need_of e i) sel) =
    sel_price (pe_store e) (pe_model e) sel + unat (fst (weigh_of e sel i))"
proof (cases "delta_of e sel i = []")
  case True
  then have "raise_all (need_of e i) sel = sel"
    using raise_shortfall [of "need_of e i" sel] assms(2) by (simp add: delta_of_def raise_all_def)
  then show ?thesis using True by (simp add: weigh_of_def)
next
  case False
  then show ?thesis
    using weigh_is_growth [OF assms(1) need_of_ok assms(2), where d = "delta_of e sel i"]
    by (simp add: weigh_of_def delta_of_def)
qed

subsection \<open>The invariant\<close>

definition settled :: "pack_env \<Rightarrow> greedy \<Rightarrow> nat \<Rightarrow> bool" where
  "settled e g i \<longleftrightarrow>
     (if satisfied e (gd_selection g) i then gd_placed g ! i = None
      else gd_weighed g ! i = Some (weigh_of e (gd_selection g) i) \<and>
        (case gd_placed g ! i of
           Some c \<Rightarrow> c = choice_at e (gd_selection g) i \<and> fst (weigh_of e (gd_selection g) i) \<noteq> 0
         | None \<Rightarrow> \<not> affordable e (gd_selection g) (gd_used g) i))"

definition placed_ok :: "pack_env \<Rightarrow> greedy \<Rightarrow> bool" where
  "placed_ok e g \<longleftrightarrow>
     length (gd_weighed g) = length (pe_candidates e) \<and> length (gd_placed g) = length (pe_candidates e) \<and>
     ascending (gd_ready g) \<and>
     (\<forall>c. c \<in> set (gd_ready g) \<longleftrightarrow> ch_index c < length (pe_candidates e) \<and> gd_placed g ! ch_index c = Some c) \<and>
     (\<forall>i c. i < length (pe_candidates e) \<longrightarrow> gd_placed g ! i = Some c \<longrightarrow> ch_index c = i)"

definition priced :: "pack_env \<Rightarrow> nat set \<Rightarrow> greedy \<Rightarrow> bool" where
  "priced e D g \<longleftrightarrow> placed_ok e g \<and> (\<forall>i < length (pe_candidates e). i \<notin> D \<longrightarrow> settled e g i)"

lemma reprice_keeps:
  "gd_selection (reprice e i g) = gd_selection g" "gd_used (reprice e i g) = gd_used g"
  "gd_why (reprice e i g) = gd_why g" "gd_dirty (reprice e i g) = gd_dirty g"
  by (auto simp: reprice_def Let_def split: option.splits)

text \<open>The first half of \<open>reprice\<close>: the candidate leaves the ordered set.\<close>

definition unplace :: "nat \<Rightarrow> greedy \<Rightarrow> greedy" where
  "unplace i g = (case gd_placed g ! i of
     Some old \<Rightarrow> g\<lparr>gd_ready := removeAll old (gd_ready g), gd_placed := (gd_placed g)[i := None]\<rparr> | None \<Rightarrow> g)"

lemma reprice_unplace:
  "reprice e i g =
     (let g1 = (unplace i g)\<lparr>gd_parked := gd_parked g - {i}\<rparr>; w = weigh_of e (gd_selection g) i in
      if satisfied e (gd_selection g) i then g1
      else if affordable e (gd_selection g) (gd_used g) i
      then g1\<lparr>gd_weighed := (gd_weighed g1)[i := Some w], gd_placed := (gd_placed g1)[i := Some (choice_of e w i)],
              gd_ready := bs_insert (choice_of e w i) (gd_ready g1)\<rparr>
      else if fst w = 0 then g1\<lparr>gd_weighed := (gd_weighed g1)[i := Some w]\<rparr>
      else g1\<lparr>gd_weighed := (gd_weighed g1)[i := Some w], gd_parked := insert i (gd_parked g1)\<rparr>)"
  by (simp add: reprice_def unplace_def affordable_def Let_def split: option.splits)

lemma unplace_fields:
  "gd_selection (unplace i g) = gd_selection g" "gd_used (unplace i g) = gd_used g"
  "gd_weighed (unplace i g) = gd_weighed g"
  by (simp_all add: unplace_def split: option.splits)

lemma unplace_ok:
  assumes "placed_ok e g" "i < length (pe_candidates e)"
  shows "placed_ok e (unplace i g)" "gd_placed (unplace i g) = (gd_placed g)[i := None]"
proof -
  show p: "gd_placed (unplace i g) = (gd_placed g)[i := None]"
    using list_update_id [of "gd_placed g" i] by (cases "gd_placed g ! i") (simp_all add: unplace_def)
  have lens: "length (gd_placed g) = length (pe_candidates e)" and ready: "ascending (gd_ready g)"
    and mem: "\<And>c. c \<in> set (gd_ready g) \<longleftrightarrow> ch_index c < length (pe_candidates e) \<and> gd_placed g ! ch_index c = Some c"
    and index: "\<And>j c. j < length (pe_candidates e) \<Longrightarrow> gd_placed g ! j = Some c \<Longrightarrow> ch_index c = j"
    and weighed: "length (gd_weighed g) = length (pe_candidates e)"
    using assms(1) by (simp_all add: placed_ok_def)
  have mem': "c \<in> set (gd_ready (unplace i g)) \<longleftrightarrow> c \<in> set (gd_ready g) \<and> ch_index c \<noteq> i" for c
  proof (cases "gd_placed g ! i")
    case None
    then show ?thesis using mem [of c] by (auto simp: unplace_def)
  next
    case (Some old)
    then have "ch_index c = i \<and> c \<in> set (gd_ready g) \<longleftrightarrow> c = old"
      using mem [of c] mem [of old] index [OF assms(2) Some] assms(2) by auto
    then show ?thesis using Some by (auto simp: unplace_def)
  qed
  have ready': "ascending (gd_ready (unplace i g))"
    using ready ascending_filter [OF ready] by (simp add: unplace_def removeAll_filter_not_eq split: option.splits)
  show "placed_ok e (unplace i g)"
    unfolding placed_ok_def p unplace_fields
  proof (intro conjI allI impI)
    fix c
    show "c \<in> set (gd_ready (unplace i g)) \<longleftrightarrow>
        ch_index c < length (pe_candidates e) \<and> (gd_placed g)[i := None] ! ch_index c = Some c"
      unfolding mem' mem using lens assms(2) by (cases "ch_index c = i") simp_all
  next
    fix j c
    assume "j < length (pe_candidates e)" "(gd_placed g)[i := None] ! j = Some c"
    then show "ch_index c = j" using index [of j c] lens by (cases "j = i") simp_all
  qed (use lens weighed ready' in simp_all)
qed

text \<open>What \<open>placed_ok\<close> reads; placing a choice where there was none.\<close>

lemma placed_ok_cong:
  "gd_ready h = gd_ready g \<Longrightarrow> gd_placed h = gd_placed g \<Longrightarrow> length (gd_weighed h) = length (gd_weighed g) \<Longrightarrow>
   placed_ok e h = placed_ok e g"
  by (simp add: placed_ok_def)

lemma placed_ok_place:
  assumes "placed_ok e g" "i < length (pe_candidates e)" "gd_placed g ! i = None" "ch_index c = i"
    and h: "gd_ready h = bs_insert c (gd_ready g)" "gd_placed h = (gd_placed g)[i := Some c]"
      "length (gd_weighed h) = length (gd_weighed g)"
  shows "placed_ok e h"
proof -
  have lens: "length (gd_placed g) = length (pe_candidates e)"
    and mem: "\<And>c. c \<in> set (gd_ready g) \<longleftrightarrow> ch_index c < length (pe_candidates e) \<and> gd_placed g ! ch_index c = Some c"
    and index: "\<And>j c. j < length (pe_candidates e) \<Longrightarrow> gd_placed g ! j = Some c \<Longrightarrow> ch_index c = j"
    using assms(1) by (simp_all add: placed_ok_def)
  show ?thesis
    unfolding placed_ok_def h
  proof (intro conjI allI impI)
    fix x
    show "x \<in> set (bs_insert c (gd_ready g)) \<longleftrightarrow>
        ch_index x < length (pe_candidates e) \<and> (gd_placed g)[i := Some c] ! ch_index x = Some x"
      using mem [of x] lens assms(2-4) by (cases "ch_index x = i") auto
  next
    fix j x
    assume "j < length (pe_candidates e)" "(gd_placed g)[i := Some c] ! j = Some x"
    then show "ch_index x = j" using index [of j x] lens assms(4) by (cases "j = i") simp_all
  qed (use assms(1) in \<open>simp_all add: placed_ok_def\<close>)
qed

lemma settled_cong:
  assumes "gd_selection h = gd_selection g" "gd_used h = gd_used g" "gd_placed h ! j = gd_placed g ! j"
    and "gd_weighed h ! j = gd_weighed g ! j"
  shows "settled e h j = settled e g j"
  by (simp add: settled_def assms cong: option.case_cong if_cong)

lemma reprice_priced:
  assumes "priced e D g" "i < length (pe_candidates e)"
  shows "priced e (D - {i}) (reprice e i g)"
proof -
  let ?u = "unplace i g" and ?c = "choice_at e (gd_selection g) i"
  have ok: "placed_ok e g" using assms(1) by (simp add: priced_def)
  note u = unplace_ok [OF ok assms(2)] unplace_fields
  have lens: "length (gd_weighed g) = length (pe_candidates e)" "length (gd_placed g) = length (pe_candidates e)"
    using ok by (simp_all add: placed_ok_def)
  have other: "settled e (reprice e i g) j \<longleftrightarrow> settled e g j" if "j < length (pe_candidates e)" "j \<noteq> i" for j
    using that lens u by (intro settled_cong reprice_keeps) (simp_all add: reprice_unplace Let_def)
  have own: "settled e (reprice e i g) i"
    using assms(2) lens u
    by (simp add: settled_def reprice_keeps) (auto simp: reprice_unplace Let_def affordable_def choice_at_def)
  have none: "gd_placed ?u ! i = None" using u(2) assms(2) lens by simp
  have "placed_ok e (reprice e i g)"
  proof (cases "\<not> satisfied e (gd_selection g) i \<and> affordable e (gd_selection g) (gd_used g) i")
    case True
    then show ?thesis
      by (intro placed_ok_place [OF u(1) assms(2) none, of "choice_of e (weigh_of e (gd_selection g) i) i"])
         (simp_all add: reprice_unplace Let_def)
  next
    case False
    then have "placed_ok e (reprice e i g) = placed_ok e ?u"
      by (intro placed_ok_cong) (auto simp: reprice_unplace Let_def)
    then show ?thesis using u(1) by simp
  qed
  then show ?thesis using assms(1) other own by (auto simp: priced_def)
qed

lemma reprice_dirty_priced:
  assumes "priced e (set (gd_dirty g)) g" "set (gd_dirty g) \<subseteq> {..<length (pe_candidates e)}"
  shows "priced e {} (reprice_dirty e g)" "gd_selection (reprice_dirty e g) = gd_selection g"
    "gd_used (reprice_dirty e g) = gd_used g" "gd_why (reprice_dirty e g) = gd_why g" "gd_dirty (reprice_dirty e g) = []"
proof -
  have fields: "gd_selection (fold (reprice e) is h) = gd_selection h \<and> gd_used (fold (reprice e) is h) = gd_used h \<and>
      gd_why (fold (reprice e) is h) = gd_why h \<and> gd_dirty (fold (reprice e) is h) = gd_dirty h" for "is" h
    by (induction "is" arbitrary: h) (simp_all add: reprice_keeps)
  then show "gd_selection (reprice_dirty e g) = gd_selection g" "gd_used (reprice_dirty e g) = gd_used g"
      "gd_why (reprice_dirty e g) = gd_why g" "gd_dirty (reprice_dirty e g) = []"
    by (simp_all add: reprice_dirty_def)
  have "priced e (D - set is) (fold (reprice e) is h)"
    if "priced e D h" "set is \<subseteq> {..<length (pe_candidates e)}" for D "is" h
    using that
  proof (induction "is" arbitrary: D h)
    case (Cons i "is")
    have "D - set (i # is) = (D - {i}) - set is" by auto
    then show ?case using Cons reprice_priced [of e D h i] by simp
  qed simp
  moreover have "priced e D (g\<lparr>gd_dirty := []\<rparr>) = priced e D g" for D
    using placed_ok_cong [of "g\<lparr>gd_dirty := []\<rparr>" g] settled_cong [of "g\<lparr>gd_dirty := []\<rparr>" g] by (simp add: priced_def)
  moreover have "set (gd_dirty g) - set (gd_dirty g) = {}" by simp
  ultimately show "priced e {} (reprice_dirty e g)"
    using assms unfolding reprice_dirty_def by metis
qed

subsection \<open>Taking the winner\<close>

text \<open>The best of the ordered set leaves it.\<close>

definition pop_best :: "greedy \<Rightarrow> greedy" where
  "pop_best g = g\<lparr>gd_ready := butlast (gd_ready g), gd_placed := (gd_placed g)[ch_index (last (gd_ready g)) := None]\<rparr>"

lemma ascending_snoc: "ascending (xs @ [x]) \<longleftrightarrow> ascending xs \<and> (\<forall>y \<in> set xs. y < x)"
  by (auto simp: sorted_wrt_append)

lemma pop_best_priced:
  assumes "priced e D g" "gd_ready g \<noteq> []"
  defines "c \<equiv> last (gd_ready g)"
  shows "ch_index c < length (pe_candidates e)" "gd_placed g ! ch_index c = Some c"
    "\<And>x. x \<in> set (gd_ready g) \<Longrightarrow> x \<le> c" "priced e (insert (ch_index c) D) (pop_best g)"
    "gd_placed (pop_best g) ! ch_index c = None"
proof -
  have ok: "placed_ok e g" using assms(1) by (simp add: priced_def)
  then have asc: "ascending (gd_ready g)" and lens: "length (gd_placed g) = length (pe_candidates e)"
    and mem: "\<And>x. x \<in> set (gd_ready g) \<longleftrightarrow> ch_index x < length (pe_candidates e) \<and> gd_placed g ! ch_index x = Some x"
    and index: "\<And>j x. j < length (pe_candidates e) \<Longrightarrow> gd_placed g ! j = Some x \<Longrightarrow> ch_index x = j"
    by (simp_all add: placed_ok_def)
  have split: "gd_ready g = butlast (gd_ready g) @ [c]" using assms(2) by (simp add: c_def)
  have c: "c \<in> set (gd_ready g)" using assms(2) by (simp add: c_def)
  then show i: "ch_index c < length (pe_candidates e)" "gd_placed g ! ch_index c = Some c" using mem by auto
  have asc': "ascending (butlast (gd_ready g))" "\<forall>x \<in> set (butlast (gd_ready g)). x < c"
    using asc split ascending_snoc by metis+
  have set: "set (gd_ready g) = insert c (set (butlast (gd_ready g)))" by (subst split) auto
  show "x \<in> set (gd_ready g) \<Longrightarrow> x \<le> c" for x using set asc'(2) by auto
  have mem': "x \<in> set (butlast (gd_ready g)) \<longleftrightarrow>
      ch_index x < length (pe_candidates e) \<and> (gd_placed g)[ch_index c := None] ! ch_index x = Some x" for x
  proof (cases "ch_index x = ch_index c")
    case True
    have False if x: "x \<in> set (butlast (gd_ready g))"
    proof -
      have "x \<in> set (gd_ready g)" using set x by blast
      then have "gd_placed g ! ch_index x = Some x" unfolding mem by (rule conjunct2)
      then have "x = c" unfolding True i(2) by (rule option.inject [THEN iffD1, symmetric])
      moreover have "x < c" using asc'(2) x by (rule bspec)
      ultimately show False by (metis less_irrefl)
    qed
    moreover have "(gd_placed g)[ch_index c := None] ! ch_index x = None" using lens i(1) by (simp add: True)
    ultimately show ?thesis by (metis option.distinct(1))
  next
    case False
    then have "x \<noteq> c" by blast
    then show ?thesis using False mem [of x] set by simp
  qed
  have "placed_ok e (pop_best g)"
    unfolding placed_ok_def pop_best_def c_def [symmetric]
  proof (intro conjI allI impI)
    fix j x
    assume "j < length (pe_candidates e)"
      "gd_placed (g\<lparr>gd_ready := butlast (gd_ready g), gd_placed := (gd_placed g)[ch_index c := None]\<rparr>) ! j = Some x"
    then show "ch_index x = j" using index [of j x] lens by (cases "j = ch_index c") simp_all
  qed (use ok asc'(1) mem' in \<open>simp_all add: placed_ok_def\<close>)
  moreover have "settled e (pop_best g) j = settled e g j" if "j \<noteq> ch_index c" for j
    using that by (intro settled_cong) (simp_all add: pop_best_def c_def)
  ultimately show "priced e (insert (ch_index c) D) (pop_best g)"
    using assms(1) by (auto simp: priced_def)
  show "gd_placed (pop_best g) ! ch_index c = None" using i(1) lens by (simp add: pop_best_def c_def)
qed

definition best_at :: "pack_env \<Rightarrow> selection \<Rightarrow> u64 \<Rightarrow> nat \<Rightarrow> bool" where
  "best_at e sel used i \<longleftrightarrow>
     i < length (pe_candidates e) \<and> affordable e sel used i \<and>
     (\<forall>j < length (pe_candidates e). affordable e sel used j \<longrightarrow> choice_at e sel j \<le> choice_at e sel i)"

definition won :: "pack_env \<Rightarrow> selection \<Rightarrow> u64 \<Rightarrow> (uid \<times> lod \<times> u64) option \<Rightarrow> greedy \<Rightarrow> bool" where
  "won e sel used w g' \<longleftrightarrow>
     (case w of
        None \<Rightarrow> \<forall>i < length (pe_candidates e). \<not> affordable e sel used i
      | Some (uid, level, dc) \<Rightarrow>
          \<exists>i. best_at e sel used i \<and> pe_candidates e ! i = (uid, level) \<and>
              dc = fst (weigh_of e sel i) \<and> priced e {i} g')"

lemma take_winner_spec:
  assumes "priced e {} g"
  shows "\<exists>w g'. take_winner e g = Some (w, g') \<and> gd_selection g' = gd_selection g \<and> gd_used g' = gd_used g \<and>
    gd_why g' = gd_why g \<and> gd_dirty g' = gd_dirty g \<and> won e (gd_selection g) (gd_used g) w g'"
  using assms
proof (induction "length (gd_ready g)" arbitrary: g rule: less_induct)
  case less
  let ?sel = "gd_selection g" and ?used = "gd_used g"
  have ok: "placed_ok e g" and set: "\<And>i. i < length (pe_candidates e) \<Longrightarrow> settled e g i"
    using less.prems by (simp_all add: priced_def)
  have mem: "\<And>x. x \<in> set (gd_ready g) \<longleftrightarrow> ch_index x < length (pe_candidates e) \<and> gd_placed g ! ch_index x = Some x"
    using ok by (simp add: placed_ok_def)
  have aff: "choice_at e ?sel j \<in> set (gd_ready g)" if "j < length (pe_candidates e)" "affordable e ?sel ?used j" for j
    using set [OF that(1)] that by (auto simp: mem settled_def affordable_def split: option.splits)
  show ?case
  proof (cases "gd_ready g = []")
    case True
    then have "\<forall>i < length (pe_candidates e). \<not> affordable e ?sel ?used i" using aff by fastforce
    then show ?thesis using True by (subst take_winner.simps) (simp add: won_def)
  next
    case False
    define c where "c = last (gd_ready g)"
    define i where "i = ch_index c"
    note best = pop_best_priced [OF less.prems False, folded c_def i_def]
    have "gd_placed g ! i = Some c" "i < length (pe_candidates e)" using best(1,2) by (simp_all add: i_def)
    then have st: "\<not> satisfied e ?sel i" "gd_weighed g ! i = Some (weigh_of e ?sel i)" "c = choice_at e ?sel i"
        "fst (weigh_of e ?sel i) \<noteq> 0"
      using set [of i] by (auto simp: settled_def split: if_splits)
    have step: "take_winner e g =
        (if pe_budget e < ?used + fst (weigh_of e ?sel i)
         then take_winner e ((pop_best g)\<lparr>gd_parked := insert i (gd_parked (pop_best g))\<rparr>)
         else Some (Some (fst (pe_candidates e ! i), snd (pe_candidates e ! i), fst (weigh_of e ?sel i)), pop_best g))"
      using False st(2) by (subst take_winner.simps) (simp add: Let_def c_def [symmetric] i_def [symmetric] pop_best_def split: prod.splits)
    have fields: "gd_selection (pop_best g) = ?sel" "gd_used (pop_best g) = ?used" "gd_why (pop_best g) = gd_why g"
      "gd_dirty (pop_best g) = gd_dirty g" "gd_weighed (pop_best g) = gd_weighed g"
      by (simp_all add: pop_best_def)
    show ?thesis
    proof (cases "pe_budget e < ?used + fst (weigh_of e ?sel i)")
      case True
      let ?g = "(pop_best g)\<lparr>gd_parked := insert i (gd_parked (pop_best g))\<rparr>"
      have "settled e ?g i"
        using st True best(5) by (simp add: settled_def fields affordable_def)
      moreover have "placed_ok e ?g = placed_ok e (pop_best g)" "settled e ?g j = settled e (pop_best g) j" for j
        by (intro placed_ok_cong settled_cong; simp)+
      ultimately have "priced e {} ?g" using best(4) by (auto simp: priced_def)
      moreover have "length (gd_ready ?g) < length (gd_ready g)" using False by (simp add: pop_best_def)
      ultimately obtain w g' where "take_winner e ?g = Some (w, g')" "gd_selection g' = gd_selection ?g" "gd_used g' = gd_used ?g"
          "gd_why g' = gd_why ?g" "gd_dirty g' = gd_dirty ?g" "won e (gd_selection ?g) (gd_used ?g) w g'"
        using less.hyps [of ?g] by blast
      then show ?thesis using step True by (intro exI [of _ w] exI [of _ g']) (simp add: fields)
    next
      case affordable: False
      have "best_at e ?sel ?used i"
        unfolding best_at_def using best(1,3) st affordable aff
        by (auto simp: affordable_def i_def [symmetric])
      then have "won e ?sel ?used (Some (fst (pe_candidates e ! i), snd (pe_candidates e ! i), fst (weigh_of e ?sel i))) (pop_best g)"
        using best(4) by (auto simp: won_def)
      then show ?thesis using step affordable by (simp add: fields)
    qed
  qed
qed

subsection \<open>Admitting it\<close>

text \<open>
  Taking in a shortfall raises the selection by it; a candidate none of whose units moved is not marked
  dirty, and keeps what the caches hold for it.
\<close>

lemma fold_none_nth: "i \<notin> set is \<Longrightarrow> fold (\<lambda>i w. w[i := None]) is ws ! i = ws ! i"
  by (induction "is" arbitrary: ws) auto

lemma fold_none_length [simp]: "length (fold (\<lambda>i w. w[i := None]) is ws) = length ws"
  by (induction "is" arbitrary: ws) auto

lemma admit_entry_fields:
  "gd_selection (admit_entry e uid level x g) = raise_sel x (gd_selection g)"
  "gd_used (admit_entry e uid level x g) = gd_used g" "gd_ready (admit_entry e uid level x g) = gd_ready g"
  "gd_placed (admit_entry e uid level x g) = gd_placed g"
  "length (gd_weighed (admit_entry e uid level x g)) = length (gd_weighed g)"
  by (cases x; simp add: admit_entry_def Let_def)+

lemma admit_entry_dirty:
  "set (gd_dirty g) \<subseteq> set (gd_dirty (admit_entry e uid level x g))"
  "set (gd_dirty (admit_entry e uid level x g)) \<subseteq> set (gd_dirty g) \<union> {..<length (pe_candidates e)}"
  by (cases x; auto simp: admit_entry_def affected_def Let_def)+

lemma admit_entry_clean:
  assumes "i < length (pe_candidates e)" "i \<notin> set (gd_dirty (admit_entry e uid level x g))"
  shows "gd_weighed (admit_entry e uid level x g) ! i = gd_weighed g ! i"
    "bm_contains (need_of e i) u \<Longrightarrow> bm_get (gd_selection (admit_entry e uid level x g)) u = bm_get (gd_selection g) u"
proof -
  obtain v l where x: "x = (v, l)" by (cases x)
  let ?moved = "case bm_get (gd_selection g) v of Some held \<Rightarrow> held < l | None \<Rightarrow> True"
  have i: "i \<notin> set (if ?moved then affected e v else [])"
    using assms(2) by (simp add: admit_entry_def x Let_def)
  show "gd_weighed (admit_entry e uid level x g) ! i = gd_weighed g ! i"
    using fold_none_nth [of i "affected e v"] i by (cases ?moved) (simp_all add: admit_entry_def x Let_def)
  assume u: "bm_contains (need_of e i) u"
  show "bm_get (gd_selection (admit_entry e uid level x g)) u = bm_get (gd_selection g) u"
  proof (cases "u = v")
    case True
    then have "\<not> ?moved" using i u assms(1) by (auto simp: affected_def split: if_splits)
    then show ?thesis
      using True by (auto simp: admit_entry_fields x raise_sel_get max_def split: option.splits)
  next
    case False
    then show ?thesis by (simp add: admit_entry_fields x raise_sel_get)
  qed
qed

lemma fold_admit_entry:
  fixes e uid level d g
  defines "h \<equiv> fold (admit_entry e uid level) d g"
  shows "gd_selection h = raise_all d (gd_selection g)" "gd_used h = gd_used g" "gd_ready h = gd_ready g"
    "gd_placed h = gd_placed g" "length (gd_weighed h) = length (gd_weighed g)"
    "set (gd_dirty g) \<subseteq> set (gd_dirty h)"
    "set (gd_dirty h) \<subseteq> set (gd_dirty g) \<union> {..<length (pe_candidates e)}"
    "\<And>i. i < length (pe_candidates e) \<Longrightarrow> i \<notin> set (gd_dirty h) \<Longrightarrow> gd_weighed h ! i = gd_weighed g ! i"
    "\<And>i u. i < length (pe_candidates e) \<Longrightarrow> i \<notin> set (gd_dirty h) \<Longrightarrow> bm_contains (need_of e i) u \<Longrightarrow>
       bm_get (gd_selection h) u = bm_get (gd_selection g) u"
  unfolding h_def
proof (induction d arbitrary: g)
  case (Cons x d)
  have sub: "i \<in> set (gd_dirty (admit_entry e uid level x g)) \<Longrightarrow>
      i \<in> set (gd_dirty (fold (admit_entry e uid level) d (admit_entry e uid level x g)))" for i g
    using Cons.IH(6) by blast
  {
    case 1 show ?case by (simp add: Cons.IH(1) admit_entry_fields raise_all_def)
  next
    case 2 show ?case by (simp add: Cons.IH(2) admit_entry_fields)
  next
    case 3 show ?case by (simp add: Cons.IH(3) admit_entry_fields)
  next
    case 4 show ?case by (simp add: Cons.IH(4) admit_entry_fields)
  next
    case 5 show ?case by (simp add: Cons.IH(5) admit_entry_fields)
  next
    case 6 show ?case using sub admit_entry_dirty(1) by (fastforce simp: subset_iff)
  next
    case (7 g)
    show ?case using Cons.IH(7) [of "admit_entry e uid level x g"] admit_entry_dirty(2) [of e uid level x g] by auto
  next
    case (8 i g)
    then show ?case
      using Cons.IH(8) [of i "admit_entry e uid level x g"] sub admit_entry_clean(1) [of i e uid level x g] by auto
  next
    case (9 i u g)
    then show ?case
      using Cons.IH(9) [of i "admit_entry e uid level x g" u] sub admit_entry_clean(2) [of i e uid level x g u] by auto
  }
qed (auto simp: raise_all_def)

text \<open>No sum of the loop wraps: what is used is at most the price of the selection.\<close>

lemma affordable_no_wrap:
  assumes "store_fits (pe_store e) (pe_model e)" "bm_ok sel" "unat used \<le> sel_price (pe_store e) (pe_model e) sel"
  shows "unat (used + fst (weigh_of e sel i)) = unat used + unat (fst (weigh_of e sel i))"
proof -
  have "sel_price (pe_store e) (pe_model e) sel + unat (fst (weigh_of e sel i)) < 2 ^ 64"
    using weigh_of_growth [OF assms(1,2), of i] sel_price_full [OF assms(1)] by metis
  then show ?thesis using assms(3) by (intro unat_plus_fits) linarith
qed

lemma admit_spec:
  fixes e g i
  defines "sel \<equiv> gd_selection g" and "used \<equiv> gd_used g"
  defines "h \<equiv> admit e (fst (pe_candidates e ! i), snd (pe_candidates e ! i), fst (weigh_of e sel i)) g"
  assumes g: "priced e {i} g" "gd_dirty g = []" and i: "best_at e sel used i"
    and ok: "store_fits (pe_store e) (pe_model e)" "bm_ok sel" "unat used \<le> sel_price (pe_store e) (pe_model e) sel"
  shows "gd_selection h = raise_all (need_of e i) sel" "gd_used h = used + fst (weigh_of e sel i)"
    "priced e (set (gd_dirty h)) h" "set (gd_dirty h) \<subseteq> {..<length (pe_candidates e)}"
    "bm_ok (gd_selection h)" "unat (gd_used h) \<le> sel_price (pe_store e) (pe_model e) (gd_selection h)"
proof -
  let ?N = "length (pe_candidates e)" and ?d = "keep_shortfall (need_of e i) sel"
  define h0 where "h0 = fold (admit_entry e (fst (pe_candidates e ! i)) (snd (pe_candidates e ! i))) ?d g"
  have h: "h = h0\<lparr>gd_used := gd_used h0 + fst (weigh_of e sel i)\<rparr>"
    by (simp add: h_def admit_def h0_def delta_via_def need_of_def sel_def Let_def)
  note f = fold_admit_entry [where e = e and uid = "fst (pe_candidates e ! i)" and level = "snd (pe_candidates e ! i)" and d = ?d and g = g, folded h0_def sel_def used_def]
  show sel': "gd_selection h = raise_all (need_of e i) sel"
    using raise_shortfall [OF need_of_ok ok(2)] by (simp add: h f(1))
  show used': "gd_used h = used + fst (weigh_of e sel i)" by (simp add: h f(2))
  show "set (gd_dirty h) \<subseteq> {..<?N}" using f(7) g(2) by (simp add: h)
  show ok': "bm_ok (gd_selection h)" by (simp add: sel' ok(2))
  have grow: "sel_price (pe_store e) (pe_model e) (gd_selection h) =
      sel_price (pe_store e) (pe_model e) sel + unat (fst (weigh_of e sel i))"
    using weigh_of_growth [OF ok(1,2)] by (simp add: sel')
  have unat': "unat (gd_used h) = unat used + unat (fst (weigh_of e sel i))"
    using affordable_no_wrap [OF ok] by (simp add: used')
  then show le': "unat (gd_used h) \<le> sel_price (pe_store e) (pe_model e) (gd_selection h)" using grow ok(3) by simp
  have iN: "i < ?N" and aff: "affordable e sel used i" using i by (simp_all add: best_at_def)
  have dirty: "set (gd_dirty h) = set (gd_dirty h0)" by (simp add: h)
  have i_dirty: "i \<in> set (gd_dirty h)"
  proof (rule ccontr)
    assume "i \<notin> set (gd_dirty h)"
    then have "bm_get (gd_selection h0) (fst (pe_candidates e ! i)) = bm_get sel (fst (pe_candidates e ! i))"
      using f(9) [OF iN _ need_of_self] by (simp add: dirty)
    then have "satisfied e (gd_selection h) i = satisfied e sel i" by (simp add: satisfied_def h)
    moreover have "satisfied e (gd_selection h) i"
      using need_of_meets [of e i] by (simp add: satisfied_meets sel' meets_raise_all)
    ultimately show False using aff by (simp add: affordable_def)
  qed
  have "settled e h j" if j: "j < ?N" "j \<notin> set (gd_dirty h)" for j
  proof -
    have "j \<noteq> i" using j i_dirty by blast
    then have old: "settled e g j" using g(1) j(1) by (simp add: priced_def)
    have get: "\<And>u. bm_contains (need_of e j) u \<Longrightarrow> bm_get (gd_selection h) u = bm_get sel u"
      using f(9) [OF j(1)] j(2) by (simp add: h)
    note same = weigh_of_cong [OF get]
    have fields: "gd_placed h ! j = gd_placed g ! j" "gd_weighed h ! j = gd_weighed g ! j"
      using f(4) f(8) [OF j(1)] j(2) by (simp_all add: h)
    have "affordable e sel used j" if "affordable e (gd_selection h) (gd_used h) j"
    proof -
      have "unat (gd_used h + fst (weigh_of e sel j)) = unat (gd_used h) + unat (fst (weigh_of e sel j))"
        using affordable_no_wrap [OF ok(1) ok' le', of j] by (simp add: same)
      then show ?thesis
        using that affordable_no_wrap [OF ok, of j] unat'
        by (simp add: affordable_def same word_less_nat_alt)
    qed
    moreover have "settled e g j = (if satisfied e sel j then gd_placed g ! j = None
        else gd_weighed g ! j = Some (weigh_of e sel j) \<and>
          (case gd_placed g ! j of Some c \<Rightarrow> c = choice_at e sel j \<and> fst (weigh_of e sel j) \<noteq> 0
           | None \<Rightarrow> \<not> affordable e sel used j))"
      unfolding settled_def sel_def used_def by (rule refl)
    ultimately show ?thesis
      using old by (simp add: settled_def fields same(1)) (auto simp: same(2,3) split: option.splits)
  qed
  moreover have "placed_ok e h"
  proof -
    have "placed_ok e h = placed_ok e g" using f(3-5) by (intro placed_ok_cong) (simp_all add: h)
    then show ?thesis using g(1) by (simp add: priced_def)
  qed
  ultimately show "priced e (set (gd_dirty h)) h" by (simp add: priced_def)
qed

subsection \<open>The loops end, and end alike\<close>

definition unmet :: "pack_env \<Rightarrow> selection \<Rightarrow> nat set" where
  "unmet e sel = {i. i < length (pe_candidates e) \<and> \<not> satisfied e sel i}"

lemma unmet_raise:
  assumes "best_at e sel used i"
  shows "card (unmet e (raise_all (need_of e i) sel)) < card (unmet e sel)"
proof (rule psubset_card_mono)
  have "i \<in> unmet e sel - unmet e (raise_all (need_of e i) sel)"
    using assms need_of_meets [of e i] by (simp add: unmet_def best_at_def affordable_def satisfied_meets meets_raise_all)
  then show "unmet e (raise_all (need_of e i) sel) \<subset> unmet e sel"
    by (auto simp: unmet_def satisfied_meets meets_raise_all)
qed (simp add: unmet_def)

lemma scan_step:
  assumes "best_at e sel used i"
  shows "scan_loop e sel used = scan_loop e (raise_all (need_of e i) sel) (used + fst (weigh_of e sel i))"
proof -
  let ?open = "filter (affordable e sel used) [0..<length (pe_candidates e)]"
  have i: "i \<in> set ?open" using assms by (auto simp: best_at_def)
  have "Max (set (map (choice_at e sel) ?open)) = choice_at e sel i"
    using assms i by (intro Max_eqI) (auto simp: best_at_def)
  moreover have "?open \<noteq> []" using i by (metis empty_iff empty_set)
  ultimately show ?thesis by (subst scan_loop.simps) (simp add: Let_def)
qed

lemma greedy_is_scan:
  assumes fits: "store_fits (pe_store e) (pe_model e)"
    and step: "\<And>sel used i. P sel used \<Longrightarrow> bm_ok sel \<Longrightarrow> unat used \<le> sel_price (pe_store e) (pe_model e) sel \<Longrightarrow>
      i < length (pe_candidates e) \<Longrightarrow> affordable e sel used i \<Longrightarrow>
      P (raise_all (need_of e i) sel) (used + fst (weigh_of e sel i))"
    and start: "priced e (set (gd_dirty g)) g" "set (gd_dirty g) \<subseteq> {..<length (pe_candidates e)}"
      "bm_ok (gd_selection g)" "unat (gd_used g) \<le> sel_price (pe_store e) (pe_model e) (gd_selection g)"
      "P (gd_selection g) (gd_used g)"
  shows "\<exists>g'. greedy_loop e g = Some g' \<and> scan_loop e (gd_selection g) (gd_used g) = Some (gd_selection g', gd_used g') \<and>
    P (gd_selection g') (gd_used g') \<and> bm_ok (gd_selection g') \<and>
    (\<forall>i < length (pe_candidates e). \<not> affordable e (gd_selection g') (gd_used g') i)"
  using start
proof (induction "card (unmet e (gd_selection g))" arbitrary: g rule: less_induct)
  case less
  note rd = reprice_dirty_priced [OF less.prems(1,2)]
  obtain w g1 where tw: "take_winner e (reprice_dirty e g) = Some (w, g1)" "gd_selection g1 = gd_selection g"
      "gd_used g1 = gd_used g" "gd_dirty g1 = []" "won e (gd_selection g) (gd_used g) w g1"
    using take_winner_spec [OF rd(1)] rd(2-5) by auto
  show ?case
  proof (cases w)
    case None
    then have none: "\<forall>i < length (pe_candidates e). \<not> affordable e (gd_selection g) (gd_used g) i"
      using tw(5) by (simp add: won_def)
    then have open0: "filter (affordable e (gd_selection g) (gd_used g)) [0..<length (pe_candidates e)] = []"
      by (simp add: filter_empty_conv)
    have "greedy_loop e g = Some g1" using tw(1) None by (subst greedy_loop.simps) simp
    moreover have "scan_loop e (gd_selection g) (gd_used g) = Some (gd_selection g, gd_used g)"
      by (subst scan_loop.simps) (simp add: open0)
    ultimately show ?thesis using tw(2,3) less.prems(3,5) none by auto
  next
    case (Some x)
    obtain i where i: "best_at e (gd_selection g) (gd_used g) i" "priced e {i} g1"
        and x: "x = (fst (pe_candidates e ! i), snd (pe_candidates e ! i), fst (weigh_of e (gd_selection g) i))"
      using tw(5) Some by (cases x) (auto simp: won_def)
    note ad = admit_spec [OF i(2) tw(4), unfolded tw(2,3), OF i(1) fits less.prems(3,4), folded x]
    have "greedy_loop e g = greedy_loop e (admit e x g1)" using tw(1) Some by (subst greedy_loop.simps) simp
    moreover have "P (gd_selection (admit e x g1)) (gd_used (admit e x g1))"
      unfolding ad(1,2) using i(1) less.prems(3-5) by (intro step) (simp_all add: best_at_def)
    moreover have "card (unmet e (gd_selection (admit e x g1))) < card (unmet e (gd_selection g))"
      unfolding ad(1) by (rule unmet_raise [OF i(1)])
    ultimately show ?thesis
      using less.hyps [of "admit e x g1"] ad(3-6) scan_step [OF i(1)] by (simp add: ad(1,2))
  qed
qed

lemma greedy_start_priced:
  "priced e (set (gd_dirty (greedy_start (length (pe_candidates e)) sel used why))) (greedy_start (length (pe_candidates e)) sel used why)"
  by (auto simp: priced_def placed_ok_def greedy_start_def)

end
