(* ===== verification/Pack_Props.thy ===== *)
theory Pack_Props
  imports Pack_Greedy
begin

section \<open>What a pack promises\<close>

text \<open>
  The floor, the start of the greedy and the finished pack: the solver answers, what it returns meets
  every constraint \<open>verify\<close> asks about, the cost it reports is the cost of what it selected, and the
  budget an infeasible request is told is exactly enough. The example stores at the end show the two
  requests for which the code does not keep this.
\<close>

subsection \<open>The floor\<close>

lemma floor_fold_ok:
  "bm_ok sel \<Longrightarrow> bm_ok (fold (\<lambda>f sel. raise_all (required_via s f (lv f) support) sel) fs sel)"
  by (induction fs arbitrary: sel) auto

lemma floor_ok [simp]: "bm_ok (floor_of s rq)"
  unfolding floor_of_def by (rule floor_fold_ok) simp

lemma meets_floor_fold:
  "meets (fold (\<lambda>f sel. raise_all (required_via s f (lv f) support) sel) fs sel) u l \<longleftrightarrow>
     meets sel u l \<or> (\<exists>f \<in> set fs. meets (required_via s f (lv f) support) u l)"
  by (induction fs arbitrary: sel) (auto simp: meets_raise_all)

lemma meets_floor:
  "meets (floor_of s rq) u l \<longleftrightarrow> (\<exists>f \<in> set (rq_focus rq). meets (required_via s f (focus_level s rq f) (rq_support rq)) u l)"
  unfolding floor_of_def meets_floor_fold by (simp add: meets_def)

lemma floor_fold_closed:
  "closed_sel s support sel \<Longrightarrow>
     closed_sel s support (fold (\<lambda>f sel. raise_all (required_via s f (lv f) support) sel) fs sel)"
  by (induction fs arbitrary: sel) (simp_all add: raise_all_closed required_closed)

lemma floor_closed: "closed_sel s (rq_support rq) (floor_of s rq)"
  unfolding floor_of_def by (rule floor_fold_closed) simp

lemma floor_of_budget [simp]: "floor_of s (rq\<lparr>rq_budget := b\<rparr>) = floor_of s rq"
  by (simp add: floor_of_def focus_level_def cap_at_def cong: fold_cong)

lemma request_cost_model_update [simp]:
  "request_cost_model (rq\<lparr>rq_max_lod := a\<rparr>) = request_cost_model rq"
  "request_cost_model (rq\<lparr>rq_scope := sc\<rparr>) = request_cost_model rq"
  "request_cost_model (rq\<lparr>rq_budget := b\<rparr>) = request_cost_model rq"
  by (simp_all add: request_cost_model_def)

text \<open>The requests whose focus can be held as \<open>verify\<close> demands: not capped at gists, or no focused unit has a body.\<close>

definition focus_reachable :: "store_read \<Rightarrow> pack_request \<Rightarrow> bool" where
  "focus_reachable s rq \<longleftrightarrow>
     rq_max_lod rq \<noteq> Some L0 \<or>
     list_all (\<lambda>f. case sd_get s f of Some x \<Rightarrow> uc_body (un_core x) = None | None \<Rightarrow> True) (rq_focus rq)"

lemma focus_level_deep: "rq_max_lod rq \<noteq> Some L0 \<Longrightarrow> L1 \<le> focus_level s rq f"
  by (cases "rq_max_lod rq"; cases "the (rq_max_lod rq)")
     (auto simp: focus_level_def cap_at_def highest_available_def less_eq_lod_def less_lod_def max_def)

lemma floor_pins:
  assumes "focus_reachable s rq"
  shows "pins_met s (floor_of s rq) (rq_focus rq)"
  unfolding pins_met_def
proof (intro ballI allI impI)
  fix f x
  assume f: "f \<in> set (rq_focus rq)" "sd_get s f = Some x"
  have m: "meets (floor_of s rq) f l" if "l \<le> focus_level s rq f" for l
    using required_meets [of s f "focus_level s rq f" "rq_support rq"] f(1) that
    by (auto simp: meets_floor) (auto simp: meets_def intro: order_trans)
  show "meets (floor_of s rq) f (if uc_body (un_core x) = None then L0 else L1)"
  proof (cases "rq_max_lod rq = Some L0")
    case True
    then have "uc_body (un_core x) = None" using assms f by (auto simp: focus_reachable_def list_all_iff)
    then show ?thesis using m [of L0] by simp
  next
    case False
    then show ?thesis using m [of L0] m [OF focus_level_deep] by simp
  qed
qed

lemma pins_met_mono:
  "pins_met s sel fs \<Longrightarrow> (\<And>u l. meets sel u l \<Longrightarrow> meets sel' u l) \<Longrightarrow> pins_met s sel' fs"
  by (auto simp: pins_met_def)

subsection \<open>Everything\<close>

lemma everything_ok [simp]: "bm_ok (everything_of s rq)"
  by (simp add: everything_of_def)

lemma gd_greedy_start [simp]:
  "gd_selection (greedy_start n sel used why) = sel" "gd_used (greedy_start n sel used why) = used"
  "gd_dirty (greedy_start n sel used why) = [0..<n]"
  by (simp_all add: greedy_start_def)

lemma pack_start_fields:
  "gd_selection (pack_start s rq) = (if everything_fits s rq then raise_all (everything_of s rq) (floor_of s rq) else floor_of s rq)"
  "gd_used (pack_start s rq) = cost_of s (request_cost_model rq) (if everything_fits s rq then everything_of s rq else floor_of s rq)"
  "gd_dirty (pack_start s rq) = [0..<length (candidates_of s rq)]"
  by (simp_all add: pack_start_def Let_def)

lemma pack_start_ok [simp]: "bm_ok (gd_selection (pack_start s rq))"
  by (simp add: pack_start_fields)

lemma pack_env_fields [simp]:
  "pe_store (pack_env_of fo s scores rq) = s" "pe_model (pack_env_of fo s scores rq) = request_cost_model rq"
  "pe_budget (pack_env_of fo s scores rq) = request_effective_budget rq"
  "pe_support (pack_env_of fo s scores rq) = rq_support rq"
  "pe_candidates (pack_env_of fo s scores rq) = candidates_of s rq"
  by (simp_all add: pack_env_of_def)

lemma pack_start_priced:
  "priced (pack_env_of fo s scores rq) (set (gd_dirty (pack_start s rq))) (pack_start s rq)"
  using greedy_start_priced [of "pack_env_of fo s scores rq"] by (simp add: pack_start_def Let_def)

lemma sel_price_mono:
  "(\<And>u l. meets a u l \<Longrightarrow> meets b u l) \<Longrightarrow> sel_price s m a \<le> sel_price s m b"
  unfolding sel_price_def
proof (intro sum_mono price_mono)
  fix u
  assume below: "\<And>u l. meets a u l \<Longrightarrow> meets b u l"
  show "lod_rank (bm_get a u) \<le> lod_rank (bm_get b u)"
  proof (cases "bm_get a u")
    case (Some l)
    then have "meets b u l" by (intro below meets_get)
    then show ?thesis using Some by (auto simp: meets_def intro: lod_rank_mono)
  qed (simp add: lod_rank_def)
qed

lemma pack_start_used:
  assumes "store_fits s (request_cost_model rq)"
  shows "unat (gd_used (pack_start s rq)) \<le> sel_price s (request_cost_model rq) (gd_selection (pack_start s rq))"
  by (auto simp: pack_start_fields unat_cost_of [OF assms] meets_raise_all intro: sel_price_mono)

text \<open>The solver's loop, with what a caller wants kept along it.\<close>

lemma pack_runs:
  fixes s rq
  defines "m \<equiv> request_cost_model rq"
  assumes fits: "store_fits s m"
    and step: "\<And>sel used i. P sel used \<Longrightarrow> bm_ok sel \<Longrightarrow> unat used \<le> sel_price s m sel \<Longrightarrow>
      i < length (candidates_of s rq) \<Longrightarrow> affordable (pack_env_of fo s scores rq) sel used i \<Longrightarrow>
      P (raise_all (need_of (pack_env_of fo s scores rq) i) sel) (used + fst (weigh_of (pack_env_of fo s scores rq) sel i))"
    and start: "P (gd_selection (pack_start s rq)) (gd_used (pack_start s rq))"
  shows "\<exists>g. greedy_loop (pack_env_of fo s scores rq) (pack_start s rq) = Some g \<and>
    scan_loop (pack_env_of fo s scores rq) (gd_selection (pack_start s rq)) (gd_used (pack_start s rq)) =
      Some (gd_selection g, gd_used g) \<and>
    P (gd_selection g) (gd_used g) \<and> bm_ok (gd_selection g) \<and>
    (\<forall>i < length (candidates_of s rq). \<not> affordable (pack_env_of fo s scores rq) (gd_selection g) (gd_used g) i)"
proof -
  let ?e = "pack_env_of fo s scores rq"
  have "set (gd_dirty (pack_start s rq)) \<subseteq> {..<length (pe_candidates ?e)}" by (auto simp: pack_start_fields)
  then show ?thesis
    using greedy_is_scan [where e = ?e and P = P, OF _ _ pack_start_priced _ _ _ start] fits step
      pack_start_used [of s rq, folded m_def]
    by (simp add: m_def)
qed

text \<open>Where the start already holds every candidate, it is what is returned.\<close>

lemma pack_stops:
  assumes fits: "store_fits s (request_cost_model rq)"
    and full: "list_all (\<lambda>(u, l). meets (gd_selection (pack_start s rq)) u l) (candidates_of s rq)"
  shows "\<exists>g. greedy_loop (pack_env_of fo s scores rq) (pack_start s rq) = Some g \<and>
    gd_selection g = gd_selection (pack_start s rq) \<and> gd_used g = gd_used (pack_start s rq)"
proof -
  have none: "\<not> affordable (pack_env_of fo s scores rq) (gd_selection (pack_start s rq)) used i"
    if "i < length (candidates_of s rq)" for i used
    using full that by (auto simp: affordable_def satisfied_meets list_all_length split_beta)
  show ?thesis
    using pack_runs [where P = "\<lambda>sel used. sel = gd_selection (pack_start s rq) \<and> used = gd_used (pack_start s rq)", OF fits, of fo scores]
      none by auto
qed

subsection \<open>Every pack meets the constraints\<close>

definition kept :: "store_read \<Rightarrow> pack_request \<Rightarrow> selection \<Rightarrow> u64 \<Rightarrow> bool" where
  "kept s rq sel used \<longleftrightarrow>
     closed_sel s (rq_support rq) sel \<and> pins_met s sel (rq_focus rq) \<and> used \<le> request_effective_budget rq"

lemma kept_verifies: "bm_ok sel \<Longrightarrow> violations s sel used (request_constraints rq) = {} \<longleftrightarrow> kept s rq sel used"
  by (simp add: violations_empty_iff request_constraints_def kept_def)

lemma kept_step:
  assumes "kept s rq sel used" "affordable (pack_env_of fo s scores rq) sel used i"
  shows "kept s rq (raise_all (need_of (pack_env_of fo s scores rq) i) sel) (used + fst (weigh_of (pack_env_of fo s scores rq) sel i))"
proof -
  let ?need = "need_of (pack_env_of fo s scores rq) i"
  have "closed_sel s (rq_support rq) ?need" using required_closed by (simp add: need_of_def)
  then show ?thesis
    using assms by (auto simp: kept_def affordable_def meets_raise_all intro!: raise_all_closed elim!: pins_met_mono)
qed

lemma kept_start:
  assumes "focus_reachable s rq"
    and "\<not> request_effective_budget rq < cost_of s (request_cost_model rq) (floor_of s rq)"
  shows "kept s rq (gd_selection (pack_start s rq)) (gd_used (pack_start s rq))"
proof -
  note pins = floor_pins [OF assms(1)] and closed = floor_closed [of s rq]
  show ?thesis
  proof (cases "everything_fits s rq")
    case True
    then have "kept s rq (everything_of s rq) (cost_of s (request_cost_model rq) (everything_of s rq))"
      by (simp add: everything_fits_def Let_def kept_verifies)
    then show ?thesis
      using True pins closed
      by (auto simp: kept_def pack_start_fields meets_raise_all intro!: raise_all_closed elim!: pins_met_mono)
  next
    case False
    then show ?thesis using pins closed assms(2) by (simp add: kept_def pack_start_fields not_less)
  qed
qed

text \<open>What \<open>pack\<close> answers, once it is past its three refusals.\<close>

lemma pack_cases:
  obtains (over) "pack fo s scores rq = Some (Inl (OverReserved (rq_budget rq) (rq_reserved rq)))"
    | (absent) f where "f \<in> set (rq_focus rq)" "\<not> sd_contains s f" "pack fo s scores rq = Some (Inl (FocusAbsent f))"
    | (infeasible) "request_effective_budget rq < cost_of s (request_cost_model rq) (floor_of s rq)"
        "pack fo s scores rq =
           Some (Inl (Infeasible (rq_budget rq) (cost_of s (request_cost_model rq) (floor_of s rq) + rq_reserved rq)))"
    | (solved) "\<not> request_effective_budget rq < cost_of s (request_cost_model rq) (floor_of s rq)"
        "\<not> (rq_reserved rq \<noteq> 0 \<and> rq_budget rq \<le> rq_reserved rq)"
        "pack fo s scores rq = map_option (\<lambda>g. Inr
           \<lparr>pk_selection = gd_selection g,
            pk_info = pack_info_of fo s (renormalise fo scores (scope_of s rq)) rq (gd_selection g) (gd_used g),
            pk_why = gd_why g, pk_report = exact_notes s rq\<rparr>) (greedy_loop (pack_env_of fo s scores rq) (pack_start s rq))"
proof (cases "rq_reserved rq \<noteq> 0 \<and> rq_budget rq \<le> rq_reserved rq")
  case True
  then show ?thesis by (intro over) (simp add: pack_def)
next
  case nover: False
  show ?thesis
  proof (cases "find (\<lambda>f. \<not> sd_contains s f) (rq_focus rq)")
    case (Some f)
    then have "f \<in> set (rq_focus rq)" "\<not> sd_contains s f" by (auto simp: find_Some_iff)
    then show ?thesis by (rule absent) (use Some nover in \<open>simp add: pack_def\<close>)
  next
    case None
    show ?thesis
    proof (cases "request_effective_budget rq < cost_of s (request_cost_model rq) (floor_of s rq)")
      case True
      then show ?thesis using nover None by (intro infeasible) (auto simp: pack_def)
    next
      case False
      then show ?thesis using nover None by (intro solved) (auto simp: pack_def split: option.split)
    qed
  qed
qed

lemma pi_used_pack_info [simp]: "pi_used (pack_info_of fo s local rq sel used) = used"
  by (simp add: pack_info_of_def pack_info_new_def Let_def)

subsection \<open>Example stores\<close>

text \<open>A store of units with no relation, and the requests of the witnesses: \<open>1\<close> rests on \<open>2\<close>, and \<open>3\<close> on nothing.\<close>

definition sample_unit :: "string \<Rightarrow> string option \<Rightarrow> uid list \<Rightarrow> smy_unit" where
  "sample_unit gist body deps =
     unit_new ((unit_builder_new (SchKernel KtClaim) gist StSpeculative)\<lparr>uc_body := body, uc_deps := deps\<rparr>)"

definition sample_store :: "(uid, smy_unit) bmap \<Rightarrow> store_read" where
  "sample_store units =
     \<lparr>sd_units = units, sd_adjacency = adjacency_build units [], sd_relations = [], sd_by_key = (\<lambda>_ _ _. None),
      sd_withdrawn = (\<lambda>_. False), sd_unfounded = (\<lambda>_. False), sd_contentions = [], sd_resolutions = {}, sd_commits = []\<rparr>"

definition sample_units :: "(uid, smy_unit) bmap" where
  "sample_units = [(Uid [1], sample_unit ''abcd'' (Some ''efgh'') [Uid [2]]), (Uid [2], sample_unit ''wxyz'' None []),
     (Uid [3], sample_unit ''pqrs'' None [])]"

definition sample_request :: "u64 \<Rightarrow> uid list \<Rightarrow> pack_request" where
  "sample_request budget focus = request_default\<lparr>rq_budget := budget, rq_focus := focus\<rparr>"

definition sample_ops :: f64_ops where
  "sample_ops = \<lparr>fo_of_f32 = ucast, fo_of_u64 = id, fo_to_f32 = ucast, fo_add = (+), fo_sub = (-), fo_mul = (*),
     fo_div = (div), fo_div32 = (div)\<rparr>"

lemma sample_fits: "store_fits (sample_store sample_units) (request_cost_model (sample_request b fs))"
  by (simp add: store_fits_def sample_store_def sample_units_def sample_request_def request_default_def request_cost_model_def
      price_def sd_get_def sample_unit_def unit_new_def unit_builder_new_def cost_text_def tokens_def)

lemma sample_reachable: "focus_reachable s (sample_request b fs)"
  by (simp add: focus_reachable_def sample_request_def request_default_def)

subsection \<open>Packs that keep their constraints\<close>

text \<open>
  C1. A pack always answers: the solver terminates and no \<open>expect\<close> of it fails. What it returns, when it
  returns a pack, passes \<open>verify\<close>: every obligation C1 to C4, C6 and C8 of what is selected is selected,
  the focus is held at its body (C5), and the reported cost is within the budget less the reservation
  (C7). The hypotheses: no cost of the store overflows, and a request capped at gists focuses no unit
  with a body (the code returns a pack that breaks C5 there: \<open>capped_focus_breaks_pin\<close>).
\<close>

theorem pack_verifies:
  assumes "store_fits s (request_cost_model rq)" "focus_reachable s rq"
  shows "case pack fo s scores rq of
    None \<Rightarrow> False | Some (Inl err) \<Rightarrow> True | Some (Inr p) \<Rightarrow> verify_pack s p rq = {}"
proof (cases fo s scores rq rule: pack_cases)
  case solved
  from pack_runs [where P = "kept s rq", OF assms(1) _ kept_start [OF assms(2) solved(1)], of fo scores] kept_step [of s rq _ _ fo scores]
  show ?thesis by (fastforce simp: solved(3) verify_pack_def kept_verifies)
qed simp_all

lemma pack_verifies_witness:
  "case pack sample_ops (sample_store sample_units) [] (sample_request 10 [Uid [1]]) of
     None \<Rightarrow> False | Some (Inl err) \<Rightarrow> True
   | Some (Inr p) \<Rightarrow> verify_pack (sample_store sample_units) p (sample_request 10 [Uid [1]]) = {}"
  by (rule pack_verifies [OF sample_fits sample_reachable])

text \<open>
  C2. The solver's lazy loop is the scan it replaced: the ordered set of priced candidates, the repricing
  of only those a raise can have touched and the parking of those out of reach end with the selection
  and the cost that weighing every candidate afresh in every round ends with, and nothing affordable is
  left. Both loops terminate.
\<close>

theorem pack_is_scan:
  assumes "store_fits s (request_cost_model rq)"
  shows "\<exists>g. greedy_loop (pack_env_of fo s scores rq) (pack_start s rq) = Some g \<and>
    scan_loop (pack_env_of fo s scores rq) (gd_selection (pack_start s rq)) (gd_used (pack_start s rq)) =
      Some (gd_selection g, gd_used g) \<and>
    (\<forall>i < length (candidates_of s rq). \<not> affordable (pack_env_of fo s scores rq) (gd_selection g) (gd_used g) i)"
  using pack_runs [where P = "\<lambda>_ _. True", OF assms] by blast

lemma pack_is_scan_witness:
  "\<exists>g. greedy_loop (pack_env_of sample_ops (sample_store sample_units) [] (sample_request 10 [Uid [1]]))
      (pack_start (sample_store sample_units) (sample_request 10 [Uid [1]])) = Some g \<and>
    scan_loop (pack_env_of sample_ops (sample_store sample_units) [] (sample_request 10 [Uid [1]]))
      (gd_selection (pack_start (sample_store sample_units) (sample_request 10 [Uid [1]])))
      (gd_used (pack_start (sample_store sample_units) (sample_request 10 [Uid [1]]))) = Some (gd_selection g, gd_used g)"
  using pack_is_scan [OF sample_fits, of sample_ops "[]" 10 "[Uid [1]]"] by blast

subsection \<open>The reported cost\<close>

lemma unit_levels: "l \<in> set (available_levels core) \<Longrightarrow> l \<le> unit_max_lod core"
  by (auto simp: available_levels_def unit_max_lod_def less_eq_lod_def split: option.splits if_splits)

lemma unit_max_lod_available: "unit_max_lod core \<in> set (available_levels core)"
  by (auto simp: available_levels_def unit_max_lod_def split: option.splits)

lemma cap_at_mono: "l \<le> l' \<Longrightarrow> cap_at rq l \<le> cap_at rq l'"
  by (auto simp: cap_at_def split: option.splits)

lemma everything_level: "Max (set (map (cap_at rq) (available_levels core))) = cap_at rq (unit_max_lod core)"
  by (rule Max_eqI) (auto intro: cap_at_mono unit_levels unit_max_lod_available)

lemma map_of_keyed: "\<forall>(k, v) \<in> set xs. v = h k \<Longrightarrow> map_of xs k = (if k \<in> fst ` set xs then Some (h k) else None)"
  by (induction xs) auto

lemma everything_get:
  "bm_get (everything_of s rq) u =
     (if u \<in> set (scope_of s rq) then map_option (\<lambda>x. cap_at rq (unit_max_lod (un_core x))) (sd_get s u) else None)"
proof -
  let ?e = "\<lambda>u. map_option (\<lambda>x. (u, cap_at rq (unit_max_lod (un_core x)))) (sd_get s u)"
  let ?xs = "rev (List.map_filter ?e (scope_of s rq))"
  have set: "set ?xs = {(u, l). u \<in> set (scope_of s rq) \<and> ?e u = Some (u, l)}"
    by (auto simp: List.map_filter_def) (auto simp: image_iff)
  have "map_of ?xs u = (if u \<in> fst ` set ?xs then Some (snd (the (?e u))) else None)"
    by (rule map_of_keyed [where h = "\<lambda>u. snd (the (?e u))"]) (unfold set, auto)
  moreover have "u \<in> fst ` set ?xs \<longleftrightarrow> u \<in> set (scope_of s rq) \<and> sd_get s u \<noteq> None" unfolding set by force
  ultimately show ?thesis unfolding everything_of_def everything_level bm_get_collect by auto
qed

lemma required_levels:
  assumes "meets (required_via s f lf support) u l"
  shows "u = f \<and> l \<le> lf \<or> l = L0"
proof -
  let ?top = "(f, lf) # map (\<lambda>e. (fst e, L0)) (sd_units s)"
  have top: "bm_get ?top v = (if v = f then Some lf else if sd_contains s v then Some L0 else None)" for v
    by (simp add: sd_contains_iff map_of_eq_None_iff image_image map_of_keyed [where h = "\<lambda>_. L0"] split_beta)
  have "closed_sel s support ?top"
    unfolding closed_sel_def meets_def top using obligations_present by auto
  moreover have "meets ?top f lf" by (simp add: meets_def)
  ultimately have "meets ?top u l" by (rule required_least [OF _ _ assms])
  then show ?thesis unfolding meets_def top by (cases l) (auto simp: less_eq_lod_def split: if_splits)
qed

text \<open>No unit costs more on the floor than at the top level it is taken at when everything fits.\<close>

lemma floor_price:
  assumes "meets (floor_of s rq) u l" "sd_get s u = Some x"
  shows "price s m u (Some l) \<le> price s m u (Some (cap_at rq (unit_max_lod (un_core x))))"
proof -
  from assms(1) consider "l \<le> focus_level s rq u" | "l = L0" by (auto simp: meets_floor dest: required_levels)
  then show ?thesis
  proof cases
    case 1
    show ?thesis
    proof (cases "unit_max_lod (un_core x) = L0")
      case True
      then show ?thesis using assms(2) by (auto simp: price_def unit_max_lod_def split: if_splits)
    next
      case False
      then have "max (unit_max_lod (un_core x)) L1 = unit_max_lod (un_core x)"
        using L0_or_L1 [of "unit_max_lod (un_core x)"] by (simp add: max_def antisym)
      then show ?thesis using 1 assms(2) by (intro price_mono lod_rank_mono) (simp add: focus_level_def highest_available_def)
    qed
  next
    case 2
    then show ?thesis by (intro price_mono lod_rank_mono) simp
  qed
qed

lemma pack_start_exact:
  assumes fits: "store_fits s (request_cost_model rq)" and whole: "rq_scope rq = []"
  shows "unat (gd_used (pack_start s rq)) = sel_price s (request_cost_model rq) (gd_selection (pack_start s rq))"
proof (cases "everything_fits s rq")
  case False
  then show ?thesis by (simp add: pack_start_fields unat_cost_of [OF fits])
next
  case True
  let ?all = "everything_of s rq"
  have "price s m u (bm_get (raise_all ?all (floor_of s rq)) u) \<le> price s m u (bm_get ?all u)"
    if u: "u \<in> fst ` set (sd_units s)" for u m
  proof (cases "bm_get (raise_all ?all (floor_of s rq)) u")
    case (Some l)
    obtain x where x: "sd_get s u = Some x" using u units_key [of s u] by blast
    have all: "bm_get ?all u = Some (cap_at rq (unit_max_lod (un_core x)))"
      using u x whole by (simp add: everything_get scope_of_def)
    from raise_all_get [OF Some] consider "bm_get (floor_of s rq) u = Some l" | "bm_get ?all u = Some l"
      by (auto simp: bm_get_Some_iff)
    then show ?thesis
      using floor_price [OF meets_get x, of rq l m] by cases (simp_all add: Some all)
  qed simp
  then have "sel_price s (request_cost_model rq) (gd_selection (pack_start s rq)) \<le> sel_price s (request_cost_model rq) ?all"
    using True unfolding sel_price_def by (intro sum_mono) (simp add: pack_start_fields)
  then show ?thesis using pack_start_used [OF fits] True by (simp add: pack_start_fields unat_cost_of [OF fits])
qed

text \<open>
  C4. A pack over the whole store reports what it costs: \<open>used\<close> is the cost of the selection, recomputed
  from nothing, and with the reservation it is within the budget the caller stated. The hypothesis on
  the scope is needed: a scoped request can report less than its selection costs
  (\<open>scoped_pack_under_reports\<close>).
\<close>

theorem pack_reports_its_cost:
  assumes fits: "store_fits s (request_cost_model rq)" and whole: "rq_scope rq = []"
    and p: "pack fo s scores rq = Some (Inr p)"
  shows "pi_used (pk_info p) = cost_of s (request_cost_model rq) (pk_selection p) \<and>
    unat (pi_used (pk_info p)) + unat (rq_reserved rq) \<le> unat (rq_budget rq)"
proof (cases fo s scores rq rule: pack_cases)
  case solved
  let ?e = "pack_env_of fo s scores rq" and ?m = "request_cost_model rq"
  let ?P = "\<lambda>sel used. unat used = sel_price s ?m sel \<and> used \<le> request_effective_budget rq"
  have step: "?P (raise_all (need_of ?e i) sel) (used + fst (weigh_of ?e sel i))"
    if "?P sel used" "bm_ok sel" "affordable ?e sel used i" for sel used i
    using that weigh_of_growth [of ?e sel i] affordable_no_wrap [of ?e sel used i] fits
    by (simp add: affordable_def not_less)
  have start: "?P (gd_selection (pack_start s rq)) (gd_used (pack_start s rq))"
    using pack_start_exact [OF fits whole] solved(1) by (auto simp: pack_start_fields everything_fits_def Let_def not_less split: if_splits)
  obtain g where g: "greedy_loop ?e (pack_start s rq) = Some g" "?P (gd_selection g) (gd_used g)" "bm_ok (gd_selection g)"
    using pack_runs [where P = ?P, OF fits _ start, of fo scores] step by blast
  have "unat (gd_used g) + unat (rq_reserved rq) \<le> unat (rq_budget rq)"
    using g(2) solved(2) by (auto simp: request_effective_budget_def sat_sub_def word_le_nat_alt word_less_nat_alt unat_sub split: if_splits)
  moreover have "gd_used g = cost_of s ?m (gd_selection g)"
    using g(2,3) unat_cost_of [OF fits, of "gd_selection g"] by (simp add: word_unat_eq_iff)
  ultimately show ?thesis using p g(1) by (auto simp: solved(3))
qed (use p in simp_all)

lemma pack_whole_sample:
  "\<exists>p. pack fo (sample_store sample_units) scores (sample_request 20 [Uid [1]]) = Some (Inr p)"
proof -
  let ?s = "sample_store sample_units" and ?rq = "sample_request 20 [Uid [1]]"
  have start: "gd_selection (pack_start ?s ?rq) = [(Uid [1], L1), (Uid [2], L0), (Uid [3], L0)]"
    unfolding pack_start_fields by code_simp
  have c: "candidates_of ?s ?rq = [(Uid [1], L0), (Uid [1], L1), (Uid [2], L0), (Uid [3], L0)]" by code_simp
  have ok: "\<not> request_effective_budget ?rq < cost_of ?s (request_cost_model ?rq) (floor_of ?s ?rq)"
      "find (\<lambda>f. \<not> sd_contains ?s f) (rq_focus ?rq) = None" "rq_reserved ?rq = 0"
    by code_simp+
  have "list_all (\<lambda>(u, l). meets (gd_selection (pack_start ?s ?rq)) u l) (candidates_of ?s ?rq)"
    by (simp add: start c meets_def)
  from pack_stops [OF sample_fits this, of fo scores] ok show ?thesis by (auto simp: pack_def)
qed

lemma pack_reports_its_cost_witness:
  "\<exists>p. pack sample_ops (sample_store sample_units) [] (sample_request 20 [Uid [1]]) = Some (Inr p) \<and>
     pi_used (pk_info p) =
       cost_of (sample_store sample_units) (request_cost_model (sample_request 20 [Uid [1]])) (pk_selection p)"
proof -
  have whole: "rq_scope (sample_request 20 [Uid [1]]) = []" by (simp add: sample_request_def request_default_def)
  obtain p where "pack sample_ops (sample_store sample_units) [] (sample_request 20 [Uid [1]]) = Some (Inr p)"
    using pack_whole_sample by blast
  with pack_reports_its_cost [OF sample_fits whole this] show ?thesis by blast
qed

subsection \<open>The refusal\<close>

text \<open>
  C5. The budget an infeasible request is told is exact: with that budget and everything else the same,
  \<open>pack\<close> returns a pack, and with any smaller one it refuses. The second hypothesis is that the cost
  of the floor and the reservation add without wrapping.
\<close>

theorem pack_required_is_exact:
  assumes fits: "store_fits s (request_cost_model rq)"
    and refused: "pack fo s scores rq = Some (Inl (Infeasible b r))"
    and nowrap: "unat (cost_of s (request_cost_model rq) (floor_of s rq)) + unat (rq_reserved rq) < 2 ^ 64"
  shows "(\<exists>p. pack fo s scores (rq\<lparr>rq_budget := r\<rparr>) = Some (Inr p)) \<and>
    (\<forall>b' < r. \<exists>err. pack fo s scores (rq\<lparr>rq_budget := b'\<rparr>) = Some (Inl err))"
proof -
  let ?c = "cost_of s (request_cost_model rq) (floor_of s rq)"
  have r: "r = ?c + rq_reserved rq" and c: "request_effective_budget rq < ?c"
    and present: "find (\<lambda>f. \<not> sd_contains s f) (rq_focus rq) = None"
    using refused by (auto simp: pack_def Let_def split: if_splits option.splits)
  have ur: "unat r = unat ?c + unat (rq_reserved rq)" using unat_plus_fits [OF nowrap] by (simp add: r)
  have c0: "0 < ?c" using c by (metis word_gt_0 word_not_simps(1))
  have budget: "request_effective_budget (rq\<lparr>rq_budget := b'\<rparr>) = sat_sub b' (rq_reserved rq)" for b'
    by (simp add: request_effective_budget_def)
  have "\<not> sat_sub r (rq_reserved rq) < ?c" "\<not> r \<le> rq_reserved rq"
    using ur c0 by (auto simp: sat_sub_def word_less_nat_alt word_le_nat_alt unat_sub)
  moreover obtain g where "greedy_loop (pack_env_of fo s scores (rq\<lparr>rq_budget := r\<rparr>)) (pack_start s (rq\<lparr>rq_budget := r\<rparr>)) = Some g"
    using pack_runs [where P = "\<lambda>_ _. True" and rq = "rq\<lparr>rq_budget := r\<rparr>" and s = s, of fo scores] fits by auto
  ultimately have "\<exists>p. pack fo s scores (rq\<lparr>rq_budget := r\<rparr>) = Some (Inr p)"
    using present by (simp add: pack_def budget)
  moreover have "\<exists>err. pack fo s scores (rq\<lparr>rq_budget := b'\<rparr>) = Some (Inl err)" if "b' < r" for b'
  proof (cases "rq_reserved rq \<noteq> 0 \<and> b' \<le> rq_reserved rq")
    case False
    then have "sat_sub b' (rq_reserved rq) < ?c"
      using that ur c0 by (auto simp: sat_sub_def word_less_nat_alt word_le_nat_alt unat_sub)
    then show ?thesis using present False by (auto simp: pack_def budget)
  qed (auto simp: pack_def)
  ultimately show ?thesis by blast
qed

lemma pack_required_is_exact_witness:
  "(\<exists>p. pack sample_ops (sample_store sample_units) [] ((sample_request 4 [Uid [1]])\<lparr>rq_budget := 9\<rparr>) = Some (Inr p)) \<and>
    (\<exists>err. pack sample_ops (sample_store sample_units) [] ((sample_request 4 [Uid [1]])\<lparr>rq_budget := 8\<rparr>) = Some (Inl err))"
proof -
  have c: "cost_of (sample_store sample_units) (request_cost_model (sample_request 4 [Uid [1]]))
      (floor_of (sample_store sample_units) (sample_request 4 [Uid [1]])) = 9" by code_simp
  have ok: "find (\<lambda>f. \<not> sd_contains (sample_store sample_units) f) (rq_focus (sample_request 4 [Uid [1]])) = None"
      "rq_reserved (sample_request 4 [Uid [1]]) = 0" "rq_budget (sample_request 4 [Uid [1]]) = 4"
    by code_simp+
  have "pack sample_ops (sample_store sample_units) [] (sample_request 4 [Uid [1]]) = Some (Inl (Infeasible 4 9))"
    by (simp add: pack_def c ok request_effective_budget_def sat_sub_def)
  moreover have "unat (cost_of (sample_store sample_units) (request_cost_model (sample_request 4 [Uid [1]]))
      (floor_of (sample_store sample_units) (sample_request 4 [Uid [1]]))) + unat (rq_reserved (sample_request 4 [Uid [1]])) < 2 ^ 64"
    by (simp add: c ok)
  ultimately show ?thesis
    using pack_required_is_exact [OF sample_fits, of sample_ops "[]" 4 "[Uid [1]]" 4 9] by simp
qed

subsection \<open>Obligations\<close>

text \<open>
  C3. What selecting a unit at a level requires is the least selection that holds it there and is closed:
  it holds the unit at the level, everything an obligation of a unit it holds demands is in it, and any
  closed selection that holds the unit at the level holds all of it at no lower levels. The walk over the
  graph ends on every store, cyclic ones included (\<open>required_loop\<close> is total).
\<close>

theorem required_is_least_closed:
  "meets (required_via s u l support) u l \<and> closed_sel s support (required_via s u l support) \<and>
   (\<forall>sel. closed_sel s support sel \<and> meets sel u l \<longrightarrow>
      (\<forall>v k. meets (required_via s u l support) v k \<longrightarrow> meets sel v k))"
  by (metis required_meets required_closed required_least)

lemma required_is_least_closed_witness:
  "meets (required_via (sample_store sample_units) (Uid [1]) L1 (es_of [])) (Uid [1]) L1 \<and>
   bm_get (required_via (sample_store sample_units) (Uid [1]) L1 (es_of [])) (Uid [2]) = Some L0"
proof
  show "meets (required_via (sample_store sample_units) (Uid [1]) L1 (es_of [])) (Uid [1]) L1"
    using required_is_least_closed [of "sample_store sample_units" "Uid [1]" L1 "es_of []"] by blast
  show "bm_get (required_via (sample_store sample_units) (Uid [1]) L1 (es_of [])) (Uid [2]) = Some L0"
    by code_simp
qed

subsection \<open>Requests whose constraints are not kept\<close>

text \<open>
  A request capped at gists with a unit that has a body in focus: the solver holds the unit at its gist,
  which \<open>verify\<close> (and the \<open>debug_assert\<close> at the end of \<open>pack\<close>) reports as a broken pin.
\<close>

definition gist_capped :: pack_request where
  "gist_capped = (sample_request 10 [Uid [1]])\<lparr>rq_max_lod := Some L0, rq_scope := [Uid [1]]\<rparr>"

lemma capped_focus_breaks_pin:
  "\<exists>p. pack fo (sample_store sample_units) scores gist_capped = Some (Inr p) \<and>
     pk_selection p = [(Uid [1], L0)] \<and> verify_pack (sample_store sample_units) p gist_capped = {ViPin (Uid [1]) L0}"
proof -
  have start: "gd_selection (pack_start (sample_store sample_units) gist_capped) = [(Uid [1], L0)]"
      "gd_used (pack_start (sample_store sample_units) gist_capped) = 3"
    unfolding pack_start_fields by code_simp+
  have c: "candidates_of (sample_store sample_units) gist_capped = [(Uid [1], L0), (Uid [1], L0)]" by code_simp
  have v: "violations (sample_store sample_units) [(Uid [1], L0)] 3 (request_constraints gist_capped) = {ViPin (Uid [1]) L0}" by code_simp
  have ok: "\<not> request_effective_budget gist_capped < cost_of (sample_store sample_units) (request_cost_model gist_capped) (floor_of (sample_store sample_units) gist_capped)"
      "find (\<lambda>f. \<not> sd_contains (sample_store sample_units) f) (rq_focus gist_capped) = None" "rq_reserved gist_capped = 0"
    by code_simp+
  have fits: "store_fits (sample_store sample_units) (request_cost_model gist_capped)"
    unfolding gist_capped_def request_cost_model_update by (rule sample_fits)
  have "list_all (\<lambda>(u, l). meets (gd_selection (pack_start (sample_store sample_units) gist_capped)) u l)
      (candidates_of (sample_store sample_units) gist_capped)"
    by (simp add: start c meets_def)
  from pack_stops [OF fits this, of fo scores] ok v show ?thesis
    by (auto simp: pack_def start verify_pack_def)
qed

text \<open>
  A scope that fits, whose focus brings in a unit outside it: the whole scope is taken at its cost, and
  the units the floor holds outside the scope are selected without being paid for. The cost the pack
  reports is 6 of a budget of 8, \<open>verify\<close> finds nothing, and what is selected costs 9.
\<close>

definition scoped_units :: "(uid, smy_unit) bmap" where
  "scoped_units = [(Uid [1], sample_unit ''abcd'' None [Uid [2]]), (Uid [2], sample_unit ''wxyz'' None []),
     (Uid [3], sample_unit ''pqrs'' None [])]"

definition scoped_request :: pack_request where
  "scoped_request = (sample_request 8 [Uid [1]])\<lparr>rq_scope := [Uid [1], Uid [3]]\<rparr>"

lemma scoped_pack_under_reports:
  "\<exists>p. pack fo (sample_store scoped_units) scores scoped_request = Some (Inr p) \<and>
     pi_used (pk_info p) = 6 \<and> verify_pack (sample_store scoped_units) p scoped_request = {} \<and>
     cost_of (sample_store scoped_units) (request_cost_model scoped_request) (pk_selection p) = 9 \<and> rq_budget scoped_request = 8"
proof -
  have start: "gd_selection (pack_start (sample_store scoped_units) scoped_request) = [(Uid [1], L1), (Uid [2], L0), (Uid [3], L0)]"
      "gd_used (pack_start (sample_store scoped_units) scoped_request) = 6"
    unfolding pack_start_fields by code_simp+
  have c: "candidates_of (sample_store scoped_units) scoped_request = [(Uid [1], L0), (Uid [3], L0)]" by code_simp
  have v: "violations (sample_store scoped_units) [(Uid [1], L1), (Uid [2], L0), (Uid [3], L0)] 6 (request_constraints scoped_request) = {}"
      "cost_of (sample_store scoped_units) (request_cost_model scoped_request) [(Uid [1], L1), (Uid [2], L0), (Uid [3], L0)] = 9"
    by code_simp+
  have ok: "\<not> request_effective_budget scoped_request < cost_of (sample_store scoped_units) (request_cost_model scoped_request) (floor_of (sample_store scoped_units) scoped_request)"
      "find (\<lambda>f. \<not> sd_contains (sample_store scoped_units) f) (rq_focus scoped_request) = None"
      "rq_reserved scoped_request = 0" "rq_budget scoped_request = 8"
    by code_simp+
  have fits: "store_fits (sample_store scoped_units) (request_cost_model scoped_request)"
    by (simp add: store_fits_def sample_store_def scoped_units_def scoped_request_def sample_request_def request_default_def
        request_cost_model_def price_def sd_get_def sample_unit_def unit_new_def unit_builder_new_def cost_text_def tokens_def)
  have "list_all (\<lambda>(u, l). meets (gd_selection (pack_start (sample_store scoped_units) scoped_request)) u l)
      (candidates_of (sample_store scoped_units) scoped_request)"
    by (simp add: start c meets_def)
  from pack_stops [OF fits this, of fo scores] ok v show ?thesis
    by (auto simp: pack_def start verify_pack_def)
qed

end
