(* ===== verification/Retraction.thy ===== *)
theory Retraction
  imports Store_Read
begin

section \<open>Retraction and effective status (smysl-graph/src/merge/policy.rs, retraction.rs)\<close>

text \<open>
  The merge policies, effective status as the source's fixpoint over \<open>grounds\<close>, and the plan of a
  retraction. Proved here: the fixpoint ends, and what it marks unfounded is exactly the least set that
  holds the retracted units, the units declared so and every unit whose present grounds are all in it.
\<close>

subsection \<open>Policies\<close>

datatype supersession_policy = SpLatest | SpAll | SpContend

definition supersession_policy_all :: "supersession_policy list" where
  "supersession_policy_all = [SpLatest, SpAll, SpContend]"

fun supersession_policy_as_str :: "supersession_policy \<Rightarrow> string" where
  "supersession_policy_as_str SpLatest = ''latest''"
| "supersession_policy_as_str SpAll = ''all''"
| "supersession_policy_as_str SpContend = ''contend''"

definition supersession_policy_parse :: "string \<Rightarrow> supersession_policy option" where
  "supersession_policy_parse s = find (\<lambda>p. supersession_policy_as_str p = s) supersession_policy_all"

datatype retraction_policy = RpStrict | RpAdvisory | RpIgnore

definition retraction_policy_all :: "retraction_policy list" where
  "retraction_policy_all = [RpStrict, RpAdvisory, RpIgnore]"

fun retraction_policy_as_str :: "retraction_policy \<Rightarrow> string" where
  "retraction_policy_as_str RpStrict = ''strict''"
| "retraction_policy_as_str RpAdvisory = ''advisory''"
| "retraction_policy_as_str RpIgnore = ''ignore''"

definition retraction_policy_parse :: "string \<Rightarrow> retraction_policy option" where
  "retraction_policy_parse s = find (\<lambda>p. retraction_policy_as_str p = s) retraction_policy_all"

definition affects_status :: "retraction_policy \<Rightarrow> bool" where
  "affects_status p \<longleftrightarrow> p \<in> {RpStrict, RpAdvisory}"

definition is_transitive :: "retraction_policy \<Rightarrow> bool" where
  "is_transitive p \<longleftrightarrow> p = RpStrict"

datatype retraction_authority = AuOrigin | AuAny | AuQuorum u32

definition retraction_authority_as_string :: "retraction_authority \<Rightarrow> string" where
  "retraction_authority_as_string a =
     (case a of AuOrigin \<Rightarrow> ''origin'' | AuAny \<Rightarrow> ''any'' | AuQuorum n \<Rightarrow> ''quorum:'' @ show_nat (unat n))"

definition retraction_authority_parse :: "string \<Rightarrow> retraction_authority option" where
  "retraction_authority_parse s =
     (if s = ''origin'' then Some AuOrigin
      else if s = ''any'' then Some AuAny
      else if take 7 s = ''quorum:'' then
        (case parse_uint (2 ^ 32) (drop 7 s) of
           Some n \<Rightarrow> if 0 < n then Some (AuQuorum (of_nat n)) else None
         | None \<Rightarrow> None)
      else None)"

definition required_agents :: "retraction_authority \<Rightarrow> u32" where
  "required_agents a = (case a of AuQuorum n \<Rightarrow> n | _ \<Rightarrow> 1)"

definition requires_origin :: "retraction_authority \<Rightarrow> bool" where
  "requires_origin a \<longleftrightarrow> a = AuOrigin"

subsection \<open>Effective status\<close>

record effective_status =
  es_map :: "(uid, status) bmap"
  es_retracted :: "uid set"
  es_orphaned :: "uid set"

definition es_get :: "effective_status \<Rightarrow> uid \<Rightarrow> status option" where
  "es_get e u = bm_get (es_map e) u"

definition is_retracted :: "effective_status \<Rightarrow> uid \<Rightarrow> bool" where
  "is_retracted e u \<longleftrightarrow> u \<in> es_retracted e"

definition is_orphaned :: "effective_status \<Rightarrow> uid \<Rightarrow> bool" where
  "is_orphaned e u \<longleftrightarrow> u \<in> es_orphaned e"

definition blast_radius :: "effective_status \<Rightarrow> uid set" where
  "blast_radius e = es_retracted e \<union> es_orphaned e"

definition es_declared :: "store_read \<Rightarrow> effective_status" where
  "es_declared s =
     \<lparr>es_map = map (\<lambda>(u, x). (u, uc_status (un_core x))) (sd_units s), es_retracted = {}, es_orphaned = {}\<rparr>"

definition es_retract :: "relation \<Rightarrow> effective_status \<Rightarrow> effective_status" where
  "es_retract r e = e\<lparr>es_retracted := insert (rl_to r) (es_retracted e), es_map := bm_insert (rl_to r) StUnfounded (es_map e)\<rparr>"

definition es_after_retractions :: "store_read \<Rightarrow> effective_status" where
  "es_after_retractions s =
     fold es_retract (filter (\<lambda>r. sd_contains s (rl_to r)) (relations_of_kind s Retracts)) (es_declared s)"

text \<open>One unit of a pass of the fixpoint, and the pass.\<close>

definition present_grounds :: "store_read \<Rightarrow> smy_unit \<Rightarrow> uid list" where
  "present_grounds s x = filter (sd_contains s) (uc_grounds (un_core x))"

definition es_visit :: "store_read \<Rightarrow> uid \<times> smy_unit \<Rightarrow> effective_status \<times> bool \<Rightarrow> effective_status \<times> bool" where
  "es_visit s ux ec = (case ux of (u, x) \<Rightarrow> case ec of (e, changed) \<Rightarrow>
     if uc_grounds (un_core x) = [] \<or> es_get e u = Some StUnfounded then (e, changed)
     else if present_grounds s x = [] then (e, changed)
     else if list_all (\<lambda>g. es_get e g = Some StUnfounded) (present_grounds s x)
     then (e\<lparr>es_map := bm_insert u StUnfounded (es_map e), es_orphaned := insert u (es_orphaned e)\<rparr>, True)
     else (e, changed))"

definition es_pass :: "store_read \<Rightarrow> effective_status \<Rightarrow> effective_status \<times> bool" where
  "es_pass s e = fold (es_visit s) (sd_units s) (e, False)"

definition founded_units :: "store_read \<Rightarrow> effective_status \<Rightarrow> uid set" where
  "founded_units s e = {u \<in> fst ` set (sd_units s). es_get e u \<noteq> Some StUnfounded}"

lemma es_visit_founded:
  assumes v: "es_visit s (u, x) (e, c) = (e', c')" and u: "u \<in> fst ` set (sd_units s)"
  shows "founded_units s e' \<subseteq> founded_units s e \<and> (c' \<longrightarrow> c \<or> founded_units s e' \<subset> founded_units s e)"
proof (cases "uc_grounds (un_core x) = [] \<or> es_get e u = Some StUnfounded \<or> present_grounds s x = [] \<or>
    \<not> list_all (\<lambda>g. es_get e g = Some StUnfounded) (present_grounds s x)")
  case True
  then have "e' = e \<and> c' = c" using v by (auto simp: es_visit_def split: if_splits)
  then show ?thesis by simp
next
  case False
  then have e': "founded_units s e' = founded_units s e - {u}"
    using v by (auto simp: es_visit_def founded_units_def es_get_def bm_get_insert_any split: if_splits)
  have "u \<in> founded_units s e" using u False by (simp add: founded_units_def)
  then show ?thesis unfolding e' by blast
qed

lemma es_fold_founded:
  "fold (es_visit s) xs (e, c) = (e', c') \<Longrightarrow> set xs \<subseteq> set (sd_units s) \<Longrightarrow>
     founded_units s e' \<subseteq> founded_units s e \<and> (c' \<longrightarrow> c \<or> founded_units s e' \<subset> founded_units s e)"
proof (induction xs arbitrary: e c)
  case (Cons ux xs)
  obtain e1 c1 where v: "es_visit s ux (e, c) = (e1, c1)" by fastforce
  obtain u x where ux: "ux = (u, x)" by fastforce
  have "u \<in> fst ` set (sd_units s)" using Cons.prems(2) ux by force
  then have "founded_units s e1 \<subseteq> founded_units s e \<and> (c1 \<longrightarrow> c \<or> founded_units s e1 \<subset> founded_units s e)"
    using es_visit_founded v ux by blast
  moreover have "founded_units s e' \<subseteq> founded_units s e1 \<and> (c' \<longrightarrow> c1 \<or> founded_units s e' \<subset> founded_units s e1)"
    using Cons.IH [of e1 c1] Cons.prems v by simp
  ultimately show ?case by blast
qed simp

function es_fixpoint :: "store_read \<Rightarrow> effective_status \<Rightarrow> effective_status" where
  "es_fixpoint s e = (case es_pass s e of (e', changed) \<Rightarrow> if changed then es_fixpoint s e' else e')"
  by pat_completeness auto
termination
proof (relation "measure (\<lambda>(s, e). card (founded_units s e))")
  fix s e e' changed
  assume "(e', changed) = es_pass s e" changed
  then have "founded_units s e' \<subset> founded_units s e"
    using es_fold_founded [of s "sd_units s" e False e' changed] by (simp add: es_pass_def)
  moreover have "finite (founded_units s e)" by (simp add: founded_units_def)
  ultimately show "((s, e'), s, e) \<in> measure (\<lambda>(s, e). card (founded_units s e))"
    by (simp add: psubset_card_mono)
qed simp

declare es_fixpoint.simps [simp del]

definition effective_status_of :: "store_read \<Rightarrow> retraction_policy \<Rightarrow> effective_status" where
  "effective_status_of s p =
     (if \<not> affects_status p then es_declared s
      else if \<not> is_transitive p then es_after_retractions s
      else es_fixpoint s (es_after_retractions s))"

subsection \<open>The fixpoint is the least one\<close>

text \<open>What ought to be unfounded, with no pass and no order of units.\<close>

inductive unfounded :: "store_read \<Rightarrow> uid \<Rightarrow> bool" for s where
  declared: "sd_get s u = Some x \<Longrightarrow> uc_status (un_core x) = StUnfounded \<Longrightarrow> unfounded s u"
| retracted: "r \<in> set (relations_of_kind s Retracts) \<Longrightarrow> sd_contains s (rl_to r) \<Longrightarrow> unfounded s (rl_to r)"
| undermined: "sd_get s u = Some x \<Longrightarrow> present_grounds s x \<noteq> [] \<Longrightarrow>
    (\<And>g. g \<in> set (present_grounds s x) \<Longrightarrow> unfounded s g) \<Longrightarrow> unfounded s u"

lemma present_grounds_some: "present_grounds s x \<noteq> [] \<Longrightarrow> uc_grounds (un_core x) \<noteq> []"
  by (auto simp: present_grounds_def)

definition retract_targets :: "store_read \<Rightarrow> uid set" where
  "retract_targets s = {rl_to r | r. r \<in> set (relations_of_kind s Retracts) \<and> sd_contains s (rl_to r)}"

text \<open>What holds of the status between visits.\<close>

definition es_sound :: "store_read \<Rightarrow> effective_status \<Rightarrow> bool" where
  "es_sound s e \<longleftrightarrow>
     (\<forall>u. es_get e u = (if u \<in> retract_targets s \<union> es_orphaned e then Some StUnfounded
        else map_option (\<lambda>x. uc_status (un_core x)) (sd_get s u))) \<and>
     es_retracted e = retract_targets s \<and>
     (\<forall>u \<in> es_orphaned e. unfounded s u \<and> u \<notin> retract_targets s \<and>
        (\<exists>x. sd_get s u = Some x \<and> uc_status (un_core x) \<noteq> StUnfounded))"

lemma declared_get: "bm_get (map (\<lambda>(u, x). (u, f x)) m) u = map_option f (bm_get m u)"
  by (induction m) auto

lemma retract_fold:
  "es_orphaned (fold es_retract rs e) = es_orphaned e"
  "es_retracted (fold es_retract rs e) = es_retracted e \<union> rl_to ` set rs"
  "es_get (fold es_retract rs e) u = (if u \<in> rl_to ` set rs then Some StUnfounded else es_get e u)"
proof (induction rs arbitrary: e)
  case (Cons r rs)
  { case 1 then show ?case using Cons by (simp add: es_retract_def) }
  { case 2 then show ?case using Cons by (simp add: es_retract_def insert_commute) }
  { case 3 then show ?case using Cons by (auto simp: es_retract_def es_get_def bm_get_insert_any) }
qed auto

lemma after_retractions_sound: "es_sound s (es_after_retractions s)"
proof -
  have t: "rl_to ` set (filter (\<lambda>r. sd_contains s (rl_to r)) (relations_of_kind s Retracts)) = retract_targets s"
    by (auto simp: retract_targets_def)
  show ?thesis
    unfolding es_sound_def es_after_retractions_def retract_fold t
    by (auto simp: es_declared_def es_get_def declared_get sd_get_def)
qed

lemma es_sound_unfounded:
  assumes "es_sound s e" "es_get e u = Some StUnfounded"
  shows "unfounded s u"
proof (cases "u \<in> retract_targets s \<union> es_orphaned e")
  case True
  then show ?thesis using assms(1) by (auto simp: es_sound_def retract_targets_def intro: unfounded.retracted)
next
  case False
  then obtain x where "sd_get s u = Some x" "uc_status (un_core x) = StUnfounded"
    using assms by (auto simp: es_sound_def)
  then show ?thesis by (rule unfounded.declared)
qed

lemma es_visit_sound:
  assumes "es_sound s e" "sd_get s u = Some x" "es_visit s (u, x) (e, c) = (e', c')"
  shows "es_sound s e'"
proof (cases "uc_grounds (un_core x) = [] \<or> es_get e u = Some StUnfounded \<or> present_grounds s x = [] \<or>
    \<not> list_all (\<lambda>g. es_get e g = Some StUnfounded) (present_grounds s x)")
  case True
  then have "e' = e" using assms(3) by (auto simp: es_visit_def split: if_splits)
  then show ?thesis using assms(1) by simp
next
  case False
  then have e': "e' = e\<lparr>es_map := bm_insert u StUnfounded (es_map e), es_orphaned := insert u (es_orphaned e)\<rparr>"
    using assms(3) by (auto simp: es_visit_def)
  have "unfounded s u"
    using False assms(1,2) by (intro unfounded.undermined [of s u x] es_sound_unfounded) (auto simp: list_all_iff)
  moreover have "u \<notin> retract_targets s" "uc_status (un_core x) \<noteq> StUnfounded"
    using False assms(1,2) by (auto simp: es_sound_def split: if_splits)
  ultimately have orphans: "\<forall>v \<in> es_orphaned e'. unfounded s v \<and> v \<notin> retract_targets s \<and>
      (\<exists>x. sd_get s v = Some x \<and> uc_status (un_core x) \<noteq> StUnfounded)"
    using assms(1,2) by (simp add: es_sound_def e')
  have "es_get e' v = (if v \<in> retract_targets s \<union> es_orphaned e' then Some StUnfounded
      else map_option (\<lambda>x. uc_status (un_core x)) (sd_get s v))" for v
    using assms(1) by (cases "v = u") (simp_all add: es_sound_def e' es_get_def bm_get_insert_any)
  moreover have "es_retracted e' = retract_targets s" using assms(1) by (simp add: e' es_sound_def)
  ultimately show ?thesis unfolding es_sound_def using orphans by blast
qed

lemma es_fold_sound:
  "es_sound s e \<Longrightarrow> (\<And>u x. (u, x) \<in> set xs \<Longrightarrow> sd_get s u = Some x) \<Longrightarrow> fold (es_visit s) xs (e, c) = (e', c') \<Longrightarrow>
     es_sound s e'"
proof (induction xs arbitrary: e c)
  case (Cons ux xs)
  obtain e1 c1 where v: "es_visit s ux (e, c) = (e1, c1)" by fastforce
  obtain u x where ux: "ux = (u, x)" by fastforce
  have "sd_get s u = Some x" by (rule Cons.prems(2)) (simp add: ux)
  then have s1: "es_sound s e1" using es_visit_sound [OF Cons.prems(1)] v [unfolded ux] by blast
  show ?case
  proof (rule Cons.IH [OF s1])
    show "fold (es_visit s) xs (e1, c1) = (e', c')" using Cons.prems(3) v by simp
  qed (rule Cons.prems(2), simp)
qed simp

lemma es_visit_flag: "snd ec \<Longrightarrow> snd (es_visit s ux ec)"
  by (auto simp: es_visit_def split: prod.splits)

lemma es_fold_flag: "snd ec \<Longrightarrow> snd (fold (es_visit s) xs ec)"
  by (induction xs arbitrary: ec) (auto simp: es_visit_flag)

lemma es_fold_unchanged:
  "fold (es_visit s) xs (e, False) = (e', False) \<Longrightarrow> e' = e \<and> (\<forall>ux \<in> set xs. es_visit s ux (e, False) = (e, False))"
proof (induction xs)
  case (Cons ux xs)
  obtain e1 c1 where v: "es_visit s ux (e, False) = (e1, c1)" by fastforce
  have "\<not> c1" using Cons.prems v es_fold_flag [of "(e1, c1)" s xs] by auto
  then have "e1 = e" using v by (auto simp: es_visit_def split: prod.splits if_splits)
  then show ?case using Cons v \<open>\<not> c1\<close> by auto
qed simp

lemma es_fixpoint_sound:
  assumes "bm_ok (sd_units s)" "es_sound s e"
  shows "es_sound s (es_fixpoint s e) \<and> (\<forall>ux \<in> set (sd_units s). es_visit s ux (es_fixpoint s e, False) = (es_fixpoint s e, False))"
  using assms
proof (induction s e rule: es_fixpoint.induct)
  case (1 s e)
  obtain e' c where p: "es_pass s e = (e', c)" by fastforce
  then have f: "fold (es_visit s) (sd_units s) (e, False) = (e', c)" by (simp add: es_pass_def)
  have sound: "es_sound s e'"
    using 1(2,3) by (intro es_fold_sound [OF _ _ f]) (auto simp: sd_get_def bm_get_Some_iff)
  show ?case
  proof (cases c)
    case True
    then have "es_fixpoint s e = es_fixpoint s e'" using p by (subst es_fixpoint.simps) simp
    then show ?thesis using 1(1) [OF p [symmetric] True 1(2) sound] by simp
  next
    case False
    then have "es_fixpoint s e = e'" using p by (subst es_fixpoint.simps) simp
    then show ?thesis using es_fold_unchanged [of s "sd_units s" e e'] f False sound by simp
  qed
qed

lemma strict_complete:
  assumes ok: "bm_ok (sd_units s)" and u: "unfounded s u"
  shows "es_get (effective_status_of s RpStrict) u = Some StUnfounded"
proof -
  let ?e = "es_fixpoint s (es_after_retractions s)"
  have e: "effective_status_of s RpStrict = ?e"
    by (simp add: effective_status_of_def affects_status_def is_transitive_def)
  note end_ = es_fixpoint_sound [OF ok after_retractions_sound]
  have get: "es_get ?e u = (if u \<in> retract_targets s \<union> es_orphaned ?e then Some StUnfounded
      else map_option (\<lambda>x. uc_status (un_core x)) (sd_get s u))" for u
    using end_ by (simp add: es_sound_def)
  show ?thesis
    using u unfolding e
  proof induction
    case (undermined u x)
    have "(u, x) \<in> set (sd_units s)" using undermined(1) ok by (simp add: sd_get_def bm_get_Some_iff)
    then have "es_visit s (u, x) (?e, False) = (?e, False)" using end_ by blast
    then show ?case
      using undermined(2,4) present_grounds_some [OF undermined(2)]
      by (auto simp: es_visit_def list_all_iff split: if_splits)
  qed (auto simp: get retract_targets_def)
qed

text \<open>
  C6. Effective status under the strict policy is the least fixpoint the rule describes: a unit reads as
  unfounded exactly when it is declared so, retracted, or every one of its present grounds is unfounded;
  every other unit keeps its declared status; and the orphans are the units the grounds alone undid. The
  passes end, and the order in which units are visited does not show.
\<close>

theorem effective_status_least:
  assumes "bm_ok (sd_units s)"
  shows "es_get (effective_status_of s RpStrict) u =
      (if unfounded s u then Some StUnfounded else map_option (\<lambda>x. uc_status (un_core x)) (sd_get s u)) \<and>
    is_retracted (effective_status_of s RpStrict) u = (u \<in> retract_targets s) \<and>
    is_orphaned (effective_status_of s RpStrict) u =
      (unfounded s u \<and> u \<notin> retract_targets s \<and> (\<forall>x. sd_get s u = Some x \<longrightarrow> uc_status (un_core x) \<noteq> StUnfounded))"
proof -
  let ?e = "effective_status_of s RpStrict"
  have "?e = es_fixpoint s (es_after_retractions s)"
    by (simp add: effective_status_of_def affects_status_def is_transitive_def)
  then have sound: "es_sound s ?e" using es_fixpoint_sound [OF assms after_retractions_sound] by simp
  then have get: "es_get ?e u = (if u \<in> retract_targets s \<union> es_orphaned ?e then Some StUnfounded
      else map_option (\<lambda>x. uc_status (un_core x)) (sd_get s u))"
    and orphans: "u \<in> es_orphaned ?e \<Longrightarrow> unfounded s u \<and> u \<notin> retract_targets s \<and>
      (\<exists>x. sd_get s u = Some x \<and> uc_status (un_core x) \<noteq> StUnfounded)"
    and gone: "es_retracted ?e = retract_targets s"
    by (simp_all add: es_sound_def)
  have iff: "es_get ?e u = Some StUnfounded \<longleftrightarrow> unfounded s u"
    using strict_complete [OF assms] es_sound_unfounded [OF sound] by blast
  show ?thesis
    using get iff orphans by (auto simp: is_retracted_def is_orphaned_def gone split: if_splits)
qed

text \<open>A store of a retracted unit and a unit grounded on it.\<close>

definition retracted_sample :: store_read where
  "retracted_sample =
     (let units = [(Uid [1], unit_new (unit_builder_new (SchKernel KtEvidence) ''e'' StMeasured)),
                   (Uid [2], unit_new ((unit_builder_new (SchKernel KtClaim) ''c'' StDerived)\<lparr>uc_grounds := [Uid [1]]\<rparr>))];
          rels = [relation_new Retracts (Uid [1]) (Uid [1])]
      in \<lparr>sd_units = units, sd_adjacency = adjacency_build units rels, sd_relations = rels, sd_by_key = (\<lambda>_ _ _. None),
          sd_withdrawn = (\<lambda>_. False), sd_unfounded = (\<lambda>_. False), sd_contentions = [], sd_resolutions = {}, sd_commits = []\<rparr>)"

lemma effective_status_least_witness:
  "bm_ok (sd_units retracted_sample) \<and> es_get (effective_status_of retracted_sample RpStrict) (Uid [2]) = Some StUnfounded \<and>
   unfounded retracted_sample (Uid [2])"
proof -
  have ok: "bm_ok (sd_units retracted_sample)" by (simp add: retracted_sample_def Let_def)
  have "es_get (effective_status_of retracted_sample RpStrict) (Uid [2]) = Some StUnfounded" by code_simp
  moreover have "map_option (\<lambda>x. uc_status (un_core x)) (sd_get retracted_sample (Uid [2])) = Some StDerived" by code_simp
  ultimately show ?thesis using effective_status_least [OF ok, of "Uid [2]"] ok by (auto split: if_splits)
qed

subsection \<open>Reports and plans\<close>

text \<open>A diagnostic is its code and the unit it is about.\<close>

definition report_retractions :: "store_read \<Rightarrow> retraction_policy \<Rightarrow> (string \<times> uid) list" where
  "report_retractions s p =
     (let e = effective_status_of s p in
      (if p = RpAdvisory then map (Pair ''W052'') (sorted_list_of_set (es_retracted e)) else []) @
      map (Pair ''E050'') (sorted_list_of_set (es_orphaned e)))"

record retraction_plan =
  rp_target :: uid
  rp_blast_radius :: "uid list"
  rp_orphaned :: "uid list"
  rp_authorised :: bool
  rp_refusal :: "string option"

definition plan_refusal :: "store_read \<Rightarrow> uid \<Rightarrow> string list \<Rightarrow> retraction_authority \<Rightarrow> string option" where
  "plan_refusal s target agents a =
     (if word_of_nat (card (set agents)) < required_agents a
      then Some (retraction_authority_as_string a @ '' requires '' @ show_nat (unat (required_agents a)) @
        '' distinct agents, got '' @ show_nat (card (set agents)))
      else if requires_origin a \<and>
        set agents \<inter> (case sd_get s target of Some x \<Rightarrow> at_agent ` un_attestations x | None \<Rightarrow> {}) = {}
      then Some (''origin authority: none of the '' @ show_nat (card (set agents)) @ '' requesting agent(s) attested this unit'')
      else None)"

text \<open>The overlay the plan is computed over: the store, with the retraction beside it.\<close>

definition with_retraction :: "uid \<Rightarrow> store_read \<Rightarrow> store_read" where
  "with_retraction target s = s\<lparr>sd_relations := sd_relations s @ [relation_new Retracts target target]\<rparr>"

definition plan_retraction :: "store_read \<Rightarrow> uid \<Rightarrow> string list \<Rightarrow> retraction_policy \<Rightarrow> retraction_authority \<Rightarrow> retraction_plan" where
  "plan_retraction s target agents p a =
     (let e = effective_status_of (with_retraction target s) p in
      \<lparr>rp_target = target, rp_blast_radius = sorted_list_of_set (blast_radius e),
       rp_orphaned = sorted_list_of_set (es_orphaned e), rp_authorised = (plan_refusal s target agents a = None),
       rp_refusal = plan_refusal s target agents a\<rparr>)"

subsection \<open>What the fixpoint reads\<close>

text \<open>
  Effective status depends on the units' statuses and grounds and on which units are retracted, and on
  nothing else a store answers.
\<close>

lemma unfounded_cong:
  assumes "\<And>u. map_option (\<lambda>x. (uc_status (un_core x), uc_grounds (un_core x))) (sd_get s u) =
      map_option (\<lambda>x. (uc_status (un_core x), uc_grounds (un_core x))) (sd_get s' u)"
    and "retract_targets s = retract_targets s'" and "unfounded s u"
  shows "unfounded s' u"
proof -
  have get: "\<exists>x'. sd_get s' u = Some x' \<and> uc_status (un_core x') = uc_status (un_core x) \<and>
      uc_grounds (un_core x') = uc_grounds (un_core x)" if "sd_get s u = Some x" for u x
    using assms(1) [of u] that by (cases "sd_get s' u") auto
  have contains: "sd_contains s v = sd_contains s' v" for v
    using assms(1) [of v] by (auto simp: sd_contains_get) (metis option.distinct(1) option.map_disc_iff option.exhaust)+
  have same: "sd_contains s' = sd_contains s" by (rule ext) (simp add: contains)
  show ?thesis
    using assms(3)
  proof induction
    case (declared u x)
    then show ?case using get by (metis unfounded.declared)
  next
    case (retracted r)
    then have "rl_to r \<in> retract_targets s'" using assms(2) by (auto simp: retract_targets_def)
    then show ?case by (auto simp: retract_targets_def intro: unfounded.retracted)
  next
    case (undermined u x)
    obtain x' where x': "sd_get s' u = Some x'" "uc_grounds (un_core x') = uc_grounds (un_core x)"
      using get [OF undermined(1)] by blast
    then have "present_grounds s' x' = present_grounds s x" by (simp add: present_grounds_def same)
    then show ?case using undermined(2,4) x'(1) by (intro unfounded.undermined [of s' u x']) simp_all
  qed
qed

end
