(* ===== verification/Interp.thy ===== *)
theory Interp
  imports Store_Read Identity
begin

section \<open>The interpretive layer (smysl-graph/src/store/interp.rs)\<close>

text \<open>
  What a store holds about its units: relations, threads, views, contentions, withdrawals,
  resolutions and commitments, the fold of one record into the layer and the join of two layers.
  Proved here: joining the layer of some records to another layer is folding those records into it, so a
  union of shards reads as one store would.

  BLAKE3 and Unicode normalisation are third-party: the record \<open>platform\<close> holds them, and everything
  here holds of any functions in their place.
\<close>

record platform =
  pf_hash :: hasher
  pf_is_nfc :: "string \<Rightarrow> bool"
  pf_nfc :: "string \<Rightarrow> string"

definition unit_id :: "platform \<Rightarrow> unit_core \<Rightarrow> uid" where
  "unit_id p u = canonical_uid (pf_hash p) (pf_is_nfc p) (pf_nfc p) u"

definition rec_bytes :: "platform \<Rightarrow> record_env \<Rightarrow> bytes" where
  "rec_bytes p r = to_cbor (pf_is_nfc p) (pf_nfc p) r"

definition record_hash :: "platform \<Rightarrow> record_env \<Rightarrow> bytes" where
  "record_hash p r = pf_hash p (rec_bytes p r)"

definition rel_id :: "platform \<Rightarrow> relation \<Rightarrow> uid" where
  "rel_id p r = relation_uid (pf_hash p) r"

type_synonym rel_key = "string \<times> uid \<times> uid"

record interpretive =
  ip_relations :: "(rel_key, relation) bmap"
  ip_rids :: "(uid, rel_key) bmap"
  ip_threads :: "(string \<times> string, thread) bmap"
  ip_views :: "(string, view) bmap"
  ip_contentions :: "contention list"
  ip_withdrawals :: "(uid, withdrawal set) bmap"
  ip_resolutions :: "resolution set"
  ip_commits :: "(uid, commit set) bmap"

definition interp_new :: interpretive where
  "interp_new = \<lparr>ip_relations = [], ip_rids = [], ip_threads = [], ip_views = [], ip_contentions = [],
     ip_withdrawals = [], ip_resolutions = {}, ip_commits = []\<rparr>"

definition rel_key_of :: "relation \<Rightarrow> rel_key" where
  "rel_key_of r = (rel_as_str (rl_kind r), rl_from r, rl_to r)"

text \<open>\<open>entry(k).or_default().extend(s)\<close> on a map of sets.\<close>

definition set_at :: "('k, 'a set) bmap \<Rightarrow> 'k \<Rightarrow> 'a set" where
  "set_at m k = (case bm_get m k of Some s \<Rightarrow> s | None \<Rightarrow> {})"

definition bm_extend_at :: "'k::linorder \<Rightarrow> 'a set \<Rightarrow> ('k, 'a set) bmap \<Rightarrow> ('k, 'a set) bmap" where
  "bm_extend_at k s m = bm_insert k (set_at m k \<union> s) m"

subsection \<open>One record\<close>

definition with_attestations :: "attestation set \<Rightarrow> relation \<Rightarrow> relation" where
  "with_attestations s r = r\<lparr>rl_attestations := rl_attestations r \<union> s\<rparr>"

definition absorb_relation :: "platform \<Rightarrow> relation \<Rightarrow> interpretive \<Rightarrow> interpretive" where
  "absorb_relation p rel i =
     i\<lparr>ip_rids := bm_insert (rel_id p rel) (rel_key_of rel) (ip_rids i),
       ip_relations := bm_insert (rel_key_of rel)
         (case bm_get (ip_relations i) (rel_key_of rel) of
            Some existing \<Rightarrow> with_attestations (rl_attestations rel) existing
          | None \<Rightarrow> rel) (ip_relations i)\<rparr>"

text \<open>The register of a thread: the later clock, and between equal clocks the greater encoding.\<close>

definition thread_newer :: "platform \<Rightarrow> thread \<Rightarrow> thread \<Rightarrow> bool" where
  "thread_newer p t existing \<longleftrightarrow>
     hlc_less (th_ts existing) (th_ts t) \<or>
     \<not> hlc_less (th_ts t) (th_ts existing) \<and> rec_bytes p (RThread existing) < rec_bytes p (RThread t)"

definition thread_key :: "thread \<Rightarrow> string \<times> string" where
  "thread_key t = (th_id t, th_owner t)"

definition put_thread :: "platform \<Rightarrow> thread \<Rightarrow> (string \<times> string, thread) bmap \<Rightarrow> (string \<times> string, thread) bmap" where
  "put_thread p t m =
     (if (case bm_get m (thread_key t) of Some existing \<Rightarrow> thread_newer p t existing | None \<Rightarrow> True)
      then bm_insert (thread_key t) t m else m)"

definition absorb_thread :: "platform \<Rightarrow> thread \<Rightarrow> interpretive \<Rightarrow> interpretive" where
  "absorb_thread p t i = i\<lparr>ip_threads := put_thread p t (ip_threads i)\<rparr>"

definition absorb_view :: "view \<Rightarrow> interpretive \<Rightarrow> interpretive" where
  "absorb_view v i = i\<lparr>ip_views := bm_insert (vw_id v) v (ip_views i)\<rparr>"

definition put_contention :: "contention \<Rightarrow> contention list \<Rightarrow> contention list" where
  "put_contention c cs = (if list_ex (\<lambda>e. ct_id e = ct_id c) cs then cs else cs @ [c])"

definition absorb_contention :: "contention \<Rightarrow> interpretive \<Rightarrow> interpretive" where
  "absorb_contention c i = i\<lparr>ip_contentions := put_contention c (ip_contentions i)\<rparr>"

fun absorb_hot :: "platform \<Rightarrow> record_env \<Rightarrow> interpretive \<Rightarrow> interpretive option" where
  "absorb_hot p (RRelation r) i = Some (absorb_relation p r i)"
| "absorb_hot p (RThread t) i = Some (absorb_thread p t i)"
| "absorb_hot p (RView v) i = Some (absorb_view v i)"
| "absorb_hot p (RContention c) i = Some (absorb_contention c i)"
| "absorb_hot p (RWithdrawal w) i = Some (i\<lparr>ip_withdrawals := bm_extend_at (wd_relation w) {w} (ip_withdrawals i)\<rparr>)"
| "absorb_hot p (RResolution r) i = Some (i\<lparr>ip_resolutions := insert r (ip_resolutions i)\<rparr>)"
| "absorb_hot p (RCommit c) i = Some (i\<lparr>ip_commits := bm_extend_at (cm_unit c) {c} (ip_commits i)\<rparr>)"
| "absorb_hot p _ i = None"

subsection \<open>Two layers\<close>

definition join_relation :: "rel_key \<times> relation \<Rightarrow> (rel_key, relation) bmap \<Rightarrow> (rel_key, relation) bmap" where
  "join_relation e m =
     bm_insert (fst e) (case bm_get m (fst e) of
        Some existing \<Rightarrow> with_attestations (rl_attestations (snd e)) existing | None \<Rightarrow> snd e) m"

definition interp_join :: "platform \<Rightarrow> interpretive \<Rightarrow> interpretive \<Rightarrow> interpretive" where
  "interp_join p other i0 =
     (let i1 = i0\<lparr>ip_relations := fold join_relation (ip_relations other) (ip_relations i0)\<rparr>;
          i2 = i1\<lparr>ip_rids := fold (\<lambda>(rid, key). bm_insert rid key) (ip_rids other) (ip_rids i1)\<rparr>;
          i3 = fold (absorb_thread p) (bm_values (ip_threads other)) i2;
          i4 = fold absorb_view (bm_values (ip_views other)) i3;
          i5 = fold absorb_contention (ip_contentions other) i4;
          i6 = i5\<lparr>ip_withdrawals := fold (\<lambda>(rid, ws). bm_extend_at rid ws) (ip_withdrawals other) (ip_withdrawals i5)\<rparr>;
          i7 = i6\<lparr>ip_resolutions := ip_resolutions i6 \<union> ip_resolutions other\<rparr>
      in i7\<lparr>ip_commits := fold (\<lambda>(u, cs). bm_extend_at u cs) (ip_commits other) (ip_commits i7)\<rparr>)"

definition interp_is_withdrawn :: "platform \<Rightarrow> interpretive \<Rightarrow> relation \<Rightarrow> bool" where
  "interp_is_withdrawn p i r \<longleftrightarrow> \<not> rel_is_lifecycle (rl_kind r) \<and> bm_contains (ip_withdrawals i) (rel_id p r)"

text \<open>The attestation lands on the relation its subject names, or nothing does.\<close>

definition attach_to_relation :: "attestation \<Rightarrow> interpretive \<Rightarrow> interpretive option" where
  "attach_to_relation a i =
     (case bm_get (ip_rids i) (at_uid a) of
        None \<Rightarrow> None
      | Some key \<Rightarrow>
          (case bm_get (ip_relations i) key of
             None \<Rightarrow> None
           | Some r \<Rightarrow> Some (i\<lparr>ip_relations := bm_insert key (with_attestations {a} r) (ip_relations i)\<rparr>)))"

definition interp_relation_by_id :: "interpretive \<Rightarrow> uid \<Rightarrow> relation option" where
  "interp_relation_by_id i rid =
     (case bm_get (ip_rids i) rid of Some key \<Rightarrow> bm_get (ip_relations i) key | None \<Rightarrow> None)"

text \<open>Every entry of a map sits under its own key.\<close>

definition keyed :: "('v \<Rightarrow> 'k) \<Rightarrow> ('k, 'v) bmap \<Rightarrow> bool" where
  "keyed f m \<longleftrightarrow> (\<forall>e \<in> set m. f (snd e) = fst e)"

lemma keyed_insert [simp]: "keyed f m \<Longrightarrow> f w = j \<Longrightarrow> keyed f (bm_insert j w m)"
  unfolding keyed_def by (induction j w m rule: bm_insert.induct) auto

lemma keyed_get: "keyed f m \<Longrightarrow> bm_get m k = Some v \<Longrightarrow> f v = k"
  unfolding keyed_def by (force dest: map_of_SomeD)

lemma keyed_Nil [simp]: "keyed f []"
  by (simp add: keyed_def)

definition interp_ok :: "interpretive \<Rightarrow> bool" where
  "interp_ok i \<longleftrightarrow> bm_ok (ip_relations i) \<and> bm_ok (ip_rids i) \<and> bm_ok (ip_threads i) \<and> bm_ok (ip_views i) \<and>
     bm_ok (ip_withdrawals i) \<and> bm_ok (ip_commits i) \<and> distinct (map ct_id (ip_contentions i)) \<and>
     keyed rel_key_of (ip_relations i) \<and> keyed thread_key (ip_threads i) \<and> keyed vw_id (ip_views i)"

subsection \<open>The join, by lookup\<close>

lemma set_at_extend: "bm_ok m \<Longrightarrow> set_at (bm_extend_at k s m) k' = (if k' = k then set_at m k \<union> s else set_at m k')"
  by (simp add: set_at_def bm_extend_at_def bm_get_insert)

lemma bm_ok_extend_at [simp, ok_intros]: "bm_ok m \<Longrightarrow> bm_ok (bm_extend_at k s m)"
  by (simp add: bm_extend_at_def)

lemma bm_get_extend_at:
  "bm_ok m \<Longrightarrow> bm_get (bm_extend_at k s m) k' = (if k' = k then Some (set_at m k \<union> s) else bm_get m k')"
  by (simp add: bm_extend_at_def bm_get_insert)

text \<open>A fold over the entries of a map that rewrites each entry's own key, read at a key.\<close>

lemma fold_entries_get:
  assumes "\<And>k v m. (k, v) \<in> set l \<Longrightarrow> bm_ok m \<Longrightarrow> bm_ok (f (k, v) m)"
    and "\<And>k v m k'. (k, v) \<in> set l \<Longrightarrow> bm_ok m \<Longrightarrow>
      bm_get (f (k, v) m) k' = (if k' = k then Some (g v (bm_get m k)) else bm_get m k')"
    and "bm_ok l" "bm_ok m"
  shows "bm_ok (fold f l m) \<and>
    bm_get (fold f l m) k = (case bm_get l k of Some v \<Rightarrow> Some (g v (bm_get m k)) | None \<Rightarrow> bm_get m k)"
  using assms
proof (induction l arbitrary: m)
  case (Cons e l)
  obtain a b where e: "e = (a, b)" by fastforce
  have l: "bm_ok l" "bm_get l a = None" using Cons.prems(3) by (auto simp: e bm_get_None_iff)
  have m: "bm_ok (f e m)" "\<And>k'. bm_get (f e m) k' = (if k' = a then Some (g b (bm_get m a)) else bm_get m k')"
    using Cons.prems(1,2) [of a b m] Cons.prems(4) by (simp_all add: e)
  have "bm_ok (fold f l (f e m)) \<and> bm_get (fold f l (f e m)) k =
      (case bm_get l k of Some v \<Rightarrow> Some (g v (bm_get (f e m) k)) | None \<Rightarrow> bm_get (f e m) k)"
    by (rule Cons.IH) (use Cons.prems(1,2) l m(1) in auto)
  then show ?case using l(2) by (auto simp: e m(2) [unfolded e] split: option.splits)
qed simp

lemma put_thread_get:
  "thread_key t = k \<Longrightarrow> bm_get (put_thread p t m) k' =
     (if k' = k then Some (case bm_get m k of Some e \<Rightarrow> if thread_newer p t e then t else e | None \<Rightarrow> t) else bm_get m k')"
  by (auto simp: put_thread_def bm_get_insert_any split: option.splits)

lemma put_thread_ok [simp, ok_intros]: "bm_ok m \<Longrightarrow> bm_ok (put_thread p t m)"
  by (simp add: put_thread_def)

lemma put_contention_image: "put_contention c ds = (if ct_id c \<in> ct_id ` set ds then ds else ds @ [c])"
proof -
  have "list_ex (\<lambda>e. ct_id e = ct_id c) ds \<longleftrightarrow> ct_id c \<in> ct_id ` set ds"
    unfolding list_ex_iff image_iff by metis
  then show ?thesis by (simp add: put_contention_def)
qed

lemma put_contention_fold:
  "distinct (map ct_id cs) \<Longrightarrow>
     fold put_contention cs ds = ds @ filter (\<lambda>c. ct_id c \<notin> ct_id ` set ds) cs"
proof (induction cs arbitrary: ds)
  case (Cons c cs)
  have ids: "ct_id ` set (put_contention c ds) = insert (ct_id c) (ct_id ` set ds)"
    by (auto simp: put_contention_image)
  have "filter (\<lambda>x. ct_id x \<notin> ct_id ` set (put_contention c ds)) cs = filter (\<lambda>x. ct_id x \<notin> ct_id ` set ds) cs"
    unfolding ids using Cons.prems by (intro filter_cong refl) (auto simp: image_iff)
  then show ?case using Cons.IH [of "put_contention c ds"] Cons.prems by (simp add: put_contention_image)
qed simp

lemma fold_absorb_fields:
  "fold (absorb_thread p) ts i = i\<lparr>ip_threads := fold (put_thread p) ts (ip_threads i)\<rparr>"
  "fold absorb_view vs i = i\<lparr>ip_views := fold (\<lambda>v. bm_insert (vw_id v) v) vs (ip_views i)\<rparr>"
  "fold absorb_contention cs i = i\<lparr>ip_contentions := fold put_contention cs (ip_contentions i)\<rparr>"
  by (induction ts arbitrary: i, simp_all add: absorb_thread_def)
     (induction vs arbitrary: i, simp_all add: absorb_view_def,
      induction cs arbitrary: i, simp_all add: absorb_contention_def)

lemma interp_join_fields:
  "ip_relations (interp_join p l i) = fold join_relation (ip_relations l) (ip_relations i)"
  "ip_rids (interp_join p l i) = fold (\<lambda>(rid, key). bm_insert rid key) (ip_rids l) (ip_rids i)"
  "ip_threads (interp_join p l i) = fold (put_thread p) (bm_values (ip_threads l)) (ip_threads i)"
  "ip_views (interp_join p l i) = fold (\<lambda>v. bm_insert (vw_id v) v) (bm_values (ip_views l)) (ip_views i)"
  "ip_contentions (interp_join p l i) = fold put_contention (ip_contentions l) (ip_contentions i)"
  "ip_withdrawals (interp_join p l i) = fold (\<lambda>(rid, ws). bm_extend_at rid ws) (ip_withdrawals l) (ip_withdrawals i)"
  "ip_resolutions (interp_join p l i) = ip_resolutions i \<union> ip_resolutions l"
  "ip_commits (interp_join p l i) = fold (\<lambda>(u, cs). bm_extend_at u cs) (ip_commits l) (ip_commits i)"
  by (simp_all add: interp_join_def Let_def fold_absorb_fields)

text \<open>What the join answers for a key, from what the two layers answer for it.\<close>

definition either :: "('v \<Rightarrow> 'v \<Rightarrow> 'v) \<Rightarrow> 'v option \<Rightarrow> 'v option \<Rightarrow> 'v option" where
  "either f new old = (case new of None \<Rightarrow> old | Some v \<Rightarrow> Some (case old of None \<Rightarrow> v | Some w \<Rightarrow> f v w))"

lemma either_simps [simp]:
  "either f None old = old" "either f (Some v) None = Some v" "either f (Some v) (Some w) = Some (f v w)"
  by (simp_all add: either_def)

definition later_thread :: "platform \<Rightarrow> thread \<Rightarrow> thread \<Rightarrow> thread" where
  "later_thread p t e = (if thread_newer p t e then t else e)"

lemma join_lookups:
  assumes "interp_ok l" "interp_ok i"
  shows "bm_get (ip_relations (interp_join p l i)) k =
      either (\<lambda>r e. with_attestations (rl_attestations r) e) (bm_get (ip_relations l) k) (bm_get (ip_relations i) k)"
    "bm_ok (ip_relations (interp_join p l i))"
    "bm_get (ip_rids (interp_join p l i)) u = either (\<lambda>v w. v) (bm_get (ip_rids l) u) (bm_get (ip_rids i) u)"
    "bm_ok (ip_rids (interp_join p l i))"
    "bm_get (ip_threads (interp_join p l i)) tk = either (later_thread p) (bm_get (ip_threads l) tk) (bm_get (ip_threads i) tk)"
    "bm_ok (ip_threads (interp_join p l i))"
    "bm_get (ip_views (interp_join p l i)) vk = either (\<lambda>v w. v) (bm_get (ip_views l) vk) (bm_get (ip_views i) vk)"
    "bm_ok (ip_views (interp_join p l i))"
    "bm_get (ip_withdrawals (interp_join p l i)) u = either (\<lambda>v w. w \<union> v) (bm_get (ip_withdrawals l) u) (bm_get (ip_withdrawals i) u)"
    "bm_ok (ip_withdrawals (interp_join p l i))"
    "bm_get (ip_commits (interp_join p l i)) u = either (\<lambda>v w. w \<union> v) (bm_get (ip_commits l) u) (bm_get (ip_commits i) u)"
    "bm_ok (ip_commits (interp_join p l i))"
proof -
  have ok: "bm_ok (ip_relations l)" "bm_ok (ip_relations i)" "bm_ok (ip_rids l)" "bm_ok (ip_rids i)"
      "bm_ok (ip_threads l)" "bm_ok (ip_threads i)" "bm_ok (ip_views l)" "bm_ok (ip_views i)"
      "bm_ok (ip_withdrawals l)" "bm_ok (ip_withdrawals i)" "bm_ok (ip_commits l)" "bm_ok (ip_commits i)"
    and keys: "\<And>k t. (k, t) \<in> set (ip_threads l) \<Longrightarrow> thread_key t = k" "\<And>k v. (k, v) \<in> set (ip_views l) \<Longrightarrow> vw_id v = k"
    using assms by (auto simp: interp_ok_def keyed_def)
  let ?rg = "\<lambda>r e. case e of Some e \<Rightarrow> with_attestations (rl_attestations r) e | None \<Rightarrow> r"
  have rel: "bm_ok (fold join_relation (ip_relations l) (ip_relations i)) \<and>
      bm_get (fold join_relation (ip_relations l) (ip_relations i)) k = (case bm_get (ip_relations l) k of
        Some v \<Rightarrow> Some (?rg v (bm_get (ip_relations i) k)) | None \<Rightarrow> bm_get (ip_relations i) k)" for k
    by (rule fold_entries_get [where g = ?rg]) (simp_all add: ok join_relation_def bm_get_insert_any split: option.split)
  then show "bm_get (ip_relations (interp_join p l i)) k =
      either (\<lambda>r e. with_attestations (rl_attestations r) e) (bm_get (ip_relations l) k) (bm_get (ip_relations i) k)"
    "bm_ok (ip_relations (interp_join p l i))"
    by (auto simp: interp_join_fields either_def split: option.splits)
  have rid: "bm_ok (fold (\<lambda>(rid, key). bm_insert rid key) (ip_rids l) (ip_rids i)) \<and>
      bm_get (fold (\<lambda>(rid, key). bm_insert rid key) (ip_rids l) (ip_rids i)) k = (case bm_get (ip_rids l) k of
        Some v \<Rightarrow> Some v | None \<Rightarrow> bm_get (ip_rids i) k)" for k
    by (rule fold_entries_get [where g = "\<lambda>v _. v"]) (simp_all add: ok bm_get_insert_any)
  then show "bm_get (ip_rids (interp_join p l i)) u = either (\<lambda>v w. v) (bm_get (ip_rids l) u) (bm_get (ip_rids i) u)"
    "bm_ok (ip_rids (interp_join p l i))"
    by (auto simp: interp_join_fields either_def split: option.splits)
  let ?tg = "\<lambda>t e. case e of Some e \<Rightarrow> later_thread p t e | None \<Rightarrow> t"
  have "bm_ok (fold (\<lambda>e. put_thread p (snd e)) (ip_threads l) (ip_threads i)) \<and>
      bm_get (fold (\<lambda>e. put_thread p (snd e)) (ip_threads l) (ip_threads i)) k = (case bm_get (ip_threads l) k of
        Some v \<Rightarrow> Some (?tg v (bm_get (ip_threads i) k)) | None \<Rightarrow> bm_get (ip_threads i) k)" for k
    by (rule fold_entries_get [where g = ?tg])
      (simp_all add: ok keys put_thread_get [OF keys(1)] later_thread_def split: option.split)
  then show "bm_get (ip_threads (interp_join p l i)) tk = either (later_thread p) (bm_get (ip_threads l) tk) (bm_get (ip_threads i) tk)"
    "bm_ok (ip_threads (interp_join p l i))"
    by (auto simp: interp_join_fields fold_map comp_def either_def split: option.splits)
  have "bm_ok (fold (\<lambda>e. bm_insert (vw_id (snd e)) (snd e)) (ip_views l) (ip_views i)) \<and>
      bm_get (fold (\<lambda>e. bm_insert (vw_id (snd e)) (snd e)) (ip_views l) (ip_views i)) k = (case bm_get (ip_views l) k of
        Some v \<Rightarrow> Some v | None \<Rightarrow> bm_get (ip_views i) k)" for k
    by (rule fold_entries_get [where g = "\<lambda>v _. v"]) (simp_all add: ok keys bm_get_insert_any)
  then show "bm_get (ip_views (interp_join p l i)) vk = either (\<lambda>v w. v) (bm_get (ip_views l) vk) (bm_get (ip_views i) vk)"
    "bm_ok (ip_views (interp_join p l i))"
    by (auto simp: interp_join_fields fold_map comp_def either_def split: option.splits)
  have set: "bm_ok (fold (\<lambda>(k, s). bm_extend_at k s) m m') \<and>
      bm_get (fold (\<lambda>(k, s). bm_extend_at k s) m m') k = (case bm_get m k of
        Some v \<Rightarrow> Some ((case bm_get m' k of Some w \<Rightarrow> w | None \<Rightarrow> {}) \<union> v) | None \<Rightarrow> bm_get m' k)"
    if "bm_ok m" "bm_ok m'" for m m' :: "(uid, 'b set) bmap" and k
    using that by (intro fold_entries_get [where g = "\<lambda>v e. (case e of Some w \<Rightarrow> w | None \<Rightarrow> {}) \<union> v"])
      (auto simp: bm_get_extend_at set_at_def)
  show "bm_get (ip_withdrawals (interp_join p l i)) u = either (\<lambda>v w. w \<union> v) (bm_get (ip_withdrawals l) u) (bm_get (ip_withdrawals i) u)"
    "bm_ok (ip_withdrawals (interp_join p l i))"
    using set [of "ip_withdrawals l" "ip_withdrawals i"] assms
    by (auto simp: interp_ok_def interp_join_fields either_def split: option.splits)
  show "bm_get (ip_commits (interp_join p l i)) u = either (\<lambda>v w. w \<union> v) (bm_get (ip_commits l) u) (bm_get (ip_commits i) u)"
    "bm_ok (ip_commits (interp_join p l i))"
    using set [of "ip_commits l" "ip_commits i"] assms
    by (auto simp: interp_ok_def interp_join_fields either_def split: option.splits)
qed

subsection \<open>Joining is absorbing\<close>

lemma interp_new_ok [simp]: "interp_ok interp_new"
  by (simp add: interp_ok_def interp_new_def)

lemma with_attestations_key [simp]: "rel_key_of (with_attestations s r) = rel_key_of r"
  by (simp add: with_attestations_def rel_key_of_def)

lemma absorb_hot_ok:
  assumes "interp_ok i" "absorb_hot p r i = Some i'"
  shows "interp_ok i'"
proof (cases r)
  case (RRelation x)
  have "bm_get (ip_relations i) (rel_key_of x) = Some e \<Longrightarrow> rel_key_of e = rel_key_of x" for e
    using assms(1) by (auto simp: interp_ok_def dest: keyed_get)
  then show ?thesis
    using assms RRelation by (auto simp: interp_ok_def absorb_relation_def split: option.splits)
next
  case (RContention c)
  then show ?thesis using assms by (auto simp: interp_ok_def absorb_contention_def put_contention_image)
qed (use assms in \<open>auto simp: interp_ok_def absorb_thread_def put_thread_def absorb_view_def\<close>)

lemma interp_eqI:
  assumes "interp_ok a" "interp_ok b"
    "\<And>k. bm_get (ip_relations a) k = bm_get (ip_relations b) k" "\<And>k. bm_get (ip_rids a) k = bm_get (ip_rids b) k"
    "\<And>k. bm_get (ip_threads a) k = bm_get (ip_threads b) k" "\<And>k. bm_get (ip_views a) k = bm_get (ip_views b) k"
    "ip_contentions a = ip_contentions b" "\<And>k. bm_get (ip_withdrawals a) k = bm_get (ip_withdrawals b) k"
    "ip_resolutions a = ip_resolutions b" "\<And>k. bm_get (ip_commits a) k = bm_get (ip_commits b) k"
  shows "a = b"
proof (rule interpretive.equality)
  show "ip_relations a = ip_relations b" "ip_rids a = ip_rids b" "ip_threads a = ip_threads b" "ip_views a = ip_views b"
    "ip_withdrawals a = ip_withdrawals b" "ip_commits a = ip_commits b"
    using assms by (auto simp: interp_ok_def intro!: bm_ext)
qed (use assms in simp_all)

text \<open>The register is a maximum of a strict weak order, so a maximum of maxima is the maximum.\<close>

lemma hlc_less_trans: "hlc_less a b \<Longrightarrow> hlc_less b c \<Longrightarrow> hlc_less a c"
  unfolding hlc_less_def by (elim disjE conjE) (auto intro: less_trans)

lemma hlc_less_irrefl: "\<not> hlc_less a a"
  by (simp add: hlc_less_def)

lemma hlc_incomparable: "\<not> hlc_less a b \<Longrightarrow> \<not> hlc_less b a \<Longrightarrow>
   wall_ms a = wall_ms b \<and> counter a = counter b \<and> map char_code (hlc_agent a) = map char_code (hlc_agent b)"
  unfolding hlc_less_def by (metis linorder_neqE)

lemma thread_newer_weak:
  "thread_newer p a b \<Longrightarrow> \<not> thread_newer p c b \<Longrightarrow> thread_newer p a c"
  "thread_newer p a b \<Longrightarrow> \<not> thread_newer p a c \<Longrightarrow> thread_newer p c b"
  "\<not> thread_newer p a a" "thread_newer p a b \<Longrightarrow> \<not> thread_newer p b a"
proof -
  have key: "hlc_less x y \<longleftrightarrow> (wall_ms x, counter x, map char_code (hlc_agent x)) < (wall_ms y, counter y, map char_code (hlc_agent y))"
    for x y by (auto simp: hlc_less_def less_prod_def)
  let ?k = "\<lambda>t. ((wall_ms (th_ts t), counter (th_ts t), map char_code (hlc_agent (th_ts t))), rec_bytes p (RThread t))"
  have newer: "thread_newer p x y \<longleftrightarrow> ?k y < ?k x" for x y
    unfolding thread_newer_def key by (auto simp: not_less less_prod_def)
  show "thread_newer p a b \<Longrightarrow> \<not> thread_newer p c b \<Longrightarrow> thread_newer p a c"
    "thread_newer p a b \<Longrightarrow> \<not> thread_newer p a c \<Longrightarrow> thread_newer p c b" "\<not> thread_newer p a a"
    "thread_newer p a b \<Longrightarrow> \<not> thread_newer p b a"
    unfolding newer by (auto simp del: less_prod_simp)
qed

lemma later_thread_assoc: "later_thread p (later_thread p c b) a = later_thread p c (later_thread p b a)"
  by (cases "thread_newer p c b"; cases "thread_newer p b a"; cases "thread_newer p c a")
     (auto simp: later_thread_def dest: thread_newer_weak(1,2,4))

lemma image_new_disjoint: "f ` A \<inter> f ` {x \<in> B. f x \<notin> f ` A} = {}"
proof (rule equals0I)
  fix y assume "y \<in> f ` A \<inter> f ` {x \<in> B. f x \<notin> f ` A}"
  then obtain x where "y = f x" "f x \<notin> f ` A" by (elim IntE imageE [of y f "{x \<in> B. f x \<notin> f ` A}"]) simp
  then show False using \<open>y \<in> f ` A \<inter> f ` {x \<in> B. f x \<notin> f ` A}\<close> by simp
qed

lemma interp_join_ok:
  assumes "interp_ok l" "interp_ok i"
  shows "interp_ok (interp_join p l i)"
proof -
  note j = join_lookups [OF assms, of p]
  have key: "keyed f (ip (interp_join p l i))"
    if "\<And>k. bm_get (ip (interp_join p l i)) k = either g (bm_get (ip l) k) (bm_get (ip i) k)"
      "bm_ok (ip (interp_join p l i))" "keyed f (ip l)" "keyed f (ip i)" "\<And>v w. f v = f w \<Longrightarrow> f (g v w) = f w"
    for ip :: "interpretive \<Rightarrow> ('k :: linorder, 'v) bmap" and f g
    unfolding keyed_def
  proof
    fix e assume "e \<in> set (ip (interp_join p l i))"
    then have "either g (bm_get (ip l) (fst e)) (bm_get (ip i) (fst e)) = Some (snd e)"
      using that(1,2) bm_get_Some_iff [of "ip (interp_join p l i)" "fst e" "snd e"] by simp
    then show "f (snd e) = fst e"
      using keyed_get [OF that(3), of "fst e"] keyed_get [OF that(4), of "fst e"] that(5)
      by (auto simp: either_def split: option.splits) metis
  qed
  have "keyed rel_key_of (ip_relations (interp_join p l i))"
    by (rule key [OF j(1,2)]) (use assms in \<open>auto simp: interp_ok_def\<close>)
  moreover have "keyed thread_key (ip_threads (interp_join p l i))"
    by (rule key [OF j(5,6)]) (use assms in \<open>auto simp: interp_ok_def later_thread_def\<close>)
  moreover have "keyed vw_id (ip_views (interp_join p l i))"
    by (rule key [OF j(7,8)]) (use assms in \<open>auto simp: interp_ok_def\<close>)
  moreover have "distinct (map ct_id (ip_contentions (interp_join p l i)))"
  proof -
    have d: "distinct (map ct_id (ip_contentions l))" "distinct (map ct_id (ip_contentions i))"
      using assms by (simp_all add: interp_ok_def)
    have "ct_id ` set (ip_contentions i) \<inter>
        ct_id ` set (filter (\<lambda>c. ct_id c \<notin> ct_id ` set (ip_contentions i)) (ip_contentions l)) = {}"
      unfolding set_filter by (rule image_new_disjoint)
    then show ?thesis unfolding interp_join_fields put_contention_fold [OF d(1)]
      using d by (simp only: map_append distinct_append set_map distinct_map_filter simp_thms)
  qed
  ultimately show ?thesis using j by (simp add: interp_ok_def)
qed

lemma absorb_into_join:
  assumes ok: "interp_ok l" "interp_ok i" and l': "absorb_hot p r l = Some l'"
  shows "absorb_hot p r (interp_join p l i) = Some (interp_join p l' i)"
proof -
  have okl: "interp_ok l'" by (rule absorb_hot_ok [OF ok(1) l'])
  note j = join_lookups [OF ok, of p] and j' = join_lookups [OF okl ok(2), of p]
  obtain b where b: "absorb_hot p r (interp_join p l i) = Some b" using l' by (cases r) auto
  have okb: "interp_ok b" by (rule absorb_hot_ok [OF interp_join_ok [OF ok] b])
  have cs: "distinct (map ct_id (ip_contentions l))" "distinct (map ct_id (ip_contentions l'))"
    using ok(1) okl by (simp_all add: interp_ok_def)
  have "b = interp_join p l' i"
  proof (rule interp_eqI [OF okb interp_join_ok [OF okl ok(2)]])
    show "bm_get (ip_relations b) k = bm_get (ip_relations (interp_join p l' i)) k" for k
    proof (cases r)
      case (RRelation x)
      have put: "ip_relations y' = bm_insert (rel_key_of x) (case bm_get (ip_relations y) (rel_key_of x) of
            Some e \<Rightarrow> with_attestations (rl_attestations x) e | None \<Rightarrow> x) (ip_relations y)"
        if "absorb_hot p r y = Some y'" for y y' using that RRelation by (auto simp: absorb_relation_def)
      show ?thesis
        unfolding j' put [OF b] put [OF l'] bm_get_insert_any j
        by (cases "bm_get (ip_relations l) (rel_key_of x)"; cases "bm_get (ip_relations i) (rel_key_of x)")
          (simp_all add: with_attestations_def Un_assoc)
    qed (use b l' in \<open>auto simp: j j' absorb_thread_def absorb_view_def absorb_contention_def\<close>)
    show "bm_get (ip_rids b) k = bm_get (ip_rids (interp_join p l' i)) k" for k
    proof (cases r)
      case (RRelation x)
      have put: "ip_rids y' = bm_insert (rel_id p x) (rel_key_of x) (ip_rids y)" if "absorb_hot p r y = Some y'" for y y'
        using that RRelation by (auto simp: absorb_relation_def)
      show ?thesis unfolding j' put [OF b] put [OF l'] bm_get_insert_any j
        by (cases "bm_get (ip_rids i) k") simp_all
    qed (use b l' in \<open>auto simp: j j' absorb_thread_def absorb_view_def absorb_contention_def\<close>)
    show "bm_get (ip_views b) k = bm_get (ip_views (interp_join p l' i)) k" for k
    proof (cases r)
      case (RView x)
      have put: "ip_views y' = bm_insert (vw_id x) x (ip_views y)" if "absorb_hot p r y = Some y'" for y y'
        using that RView by (auto simp: absorb_view_def)
      show ?thesis unfolding j' put [OF b] put [OF l'] bm_get_insert_any j
        by (cases "bm_get (ip_views i) k") simp_all
    qed (use b l' in \<open>auto simp: j j' absorb_thread_def absorb_relation_def absorb_contention_def\<close>)
    show "bm_get (ip_withdrawals b) k = bm_get (ip_withdrawals (interp_join p l' i)) k" for k
    proof (cases r)
      case (RWithdrawal w)
      have b': "ip_withdrawals b = bm_extend_at (wd_relation w) {w} (ip_withdrawals (interp_join p l i))"
        and l'': "ip_withdrawals l' = bm_extend_at (wd_relation w) {w} (ip_withdrawals l)"
        using b l' RWithdrawal by auto
      have okm: "bm_ok (ip_withdrawals l)" using ok(1) by (simp add: interp_ok_def)
      show ?thesis
        unfolding j' b' l'' bm_get_extend_at [OF okm] bm_get_extend_at [OF j(10)] set_at_def j
        by (cases "bm_get (ip_withdrawals l) (wd_relation w)"; cases "bm_get (ip_withdrawals i) (wd_relation w)") auto
    qed (use b l' in \<open>auto simp: j j' absorb_relation_def absorb_thread_def absorb_view_def absorb_contention_def\<close>)
    show "bm_get (ip_commits b) k = bm_get (ip_commits (interp_join p l' i)) k" for k
    proof (cases r)
      case (RCommit w)
      have b': "ip_commits b = bm_extend_at (cm_unit w) {w} (ip_commits (interp_join p l i))"
        and l'': "ip_commits l' = bm_extend_at (cm_unit w) {w} (ip_commits l)"
        using b l' RCommit by auto
      have okm: "bm_ok (ip_commits l)" using ok(1) by (simp add: interp_ok_def)
      show ?thesis
        unfolding j' b' l'' bm_get_extend_at [OF okm] bm_get_extend_at [OF j(12)] set_at_def j
        by (cases "bm_get (ip_commits l) (cm_unit w)"; cases "bm_get (ip_commits i) (cm_unit w)") auto
    qed (use b l' in \<open>auto simp: j j' absorb_relation_def absorb_thread_def absorb_view_def absorb_contention_def\<close>)
    show "ip_resolutions b = ip_resolutions (interp_join p l' i)"
      using b l'
      by (cases r) (auto simp: interp_join_fields absorb_relation_def absorb_thread_def absorb_view_def absorb_contention_def)
    show "ip_contentions b = ip_contentions (interp_join p l' i)"
      unfolding interp_join_fields put_contention_fold [OF cs(2)] using b l'
      by (cases r) (auto simp: interp_join_fields put_contention_fold [OF cs(1)] put_contention_image
          absorb_relation_def absorb_thread_def absorb_view_def absorb_contention_def)
    show "bm_get (ip_threads b) k = bm_get (ip_threads (interp_join p l' i)) k" for k
    proof (cases r)
      case (RThread t)
      have b': "ip_threads b = put_thread p t (ip_threads (interp_join p l i))"
        and l'': "ip_threads l' = put_thread p t (ip_threads l)"
        using b l' RThread by (auto simp: absorb_thread_def)
      show ?thesis
        unfolding j' b' l'' put_thread_get [OF refl] j
        by (cases "bm_get (ip_threads l) (thread_key t)"; cases "bm_get (ip_threads i) (thread_key t)")
          (auto simp: later_thread_assoc simp flip: later_thread_def)
    qed (use b l' in \<open>auto simp: j j' absorb_relation_def absorb_view_def absorb_contention_def\<close>)
  qed
  then show ?thesis by (simp add: b)
qed

text \<open>
  The records of a list, absorbed one after the other as \<open>Store::absorb\<close> does (every one of them: which
  records a store keeps is decided before), and the layer they make on their own.
\<close>

definition absorb_each :: "platform \<Rightarrow> record_env list \<Rightarrow> interpretive \<Rightarrow> interpretive" where
  "absorb_each p rs i = fold (\<lambda>r i. case absorb_hot p r i of Some i' \<Rightarrow> i' | None \<Rightarrow> i) rs i"

definition interp_layer :: "platform \<Rightarrow> record_env list \<Rightarrow> interpretive" where
  "interp_layer p rs = absorb_each p rs interp_new"

lemma absorb_each_snoc:
  "absorb_each p (rs @ [r]) i = (case absorb_hot p r (absorb_each p rs i) of Some i' \<Rightarrow> i' | None \<Rightarrow> absorb_each p rs i)"
  by (simp add: absorb_each_def split: option.split)

lemma absorb_each_Nil [simp]: "absorb_each p [] i = i"
  by (simp add: absorb_each_def)

lemma absorb_each_ok: "interp_ok i \<Longrightarrow> interp_ok (absorb_each p rs i)"
proof (induction rs rule: rev_induct)
  case (snoc r rs)
  then show ?case by (auto simp: absorb_each_snoc intro: absorb_hot_ok split: option.split)
qed simp

lemma interp_layer_ok: "interp_ok (interp_layer p rs)"
  by (simp add: interp_layer_def absorb_each_ok)

lemma interp_join_new: "interp_join p interp_new i = i"
  by (rule interpretive.equality) (simp_all add: interp_join_fields, simp_all add: interp_new_def)

text \<open>
  C7. \<open>Interpretive::join\<close> does what its comment says: joining to a layer the layer that some records made
  leaves exactly what absorbing those records into it one after the other would, for every list of records
  and in every part (relations and their identities, thread registers, views, contentions, withdrawals,
  resolutions, commitments). The layer joined to is any well-formed one, with whatever attestations are
  attached to its relations. This is about the two ways to fill a layer; which records a store keeps (it
  drops repeats by hash before absorbing) and the attestations it attaches later are not part of it.
\<close>

theorem interp_join_is_absorb:
  assumes "interp_ok i"
  shows "interp_join p (absorb_each p ys interp_new) i = absorb_each p ys i"
proof (induction ys rule: rev_induct)
  case Nil
  show ?case by (simp add: interp_join_new)
next
  case (snoc y ys)
  show ?case
  proof (cases "absorb_hot p y (absorb_each p ys interp_new)")
    case None
    then have "absorb_hot p y j = None" for j by (cases y) auto
    then show ?thesis using snoc by (simp add: absorb_each_snoc)
  next
    case (Some l')
    then show ?thesis
      using absorb_into_join [OF absorb_each_ok assms Some] snoc by (simp add: absorb_each_snoc)
  qed
qed

definition sample_platform :: platform where
  "sample_platform = \<lparr>pf_hash = (\<lambda>b. take 32 (rev b @ replicate 32 0)), pf_is_nfc = (\<lambda>_. True), pf_nfc = (\<lambda>s. s)\<rparr>"

definition joined_sample :: interpretive where
  "joined_sample = interp_new\<lparr>ip_relations := [(rel_key_of (relation_new Causes (Uid [1]) (Uid [2])),
     with_attestations {attestation_new (Uid [3]) ''human:ada'' OpAuthored RungModel \<lparr>wall_ms = 5, counter = 0, hlc_agent = ''human:ada''\<rparr>}
       (relation_new Causes (Uid [1]) (Uid [2])))]\<rparr>"

lemma interp_join_is_absorb_witness:
  "interp_ok joined_sample \<and>
   interp_join sample_platform (absorb_each sample_platform [RRelation (relation_new Causes (Uid [1]) (Uid [2]))] interp_new) joined_sample =
     absorb_each sample_platform [RRelation (relation_new Causes (Uid [1]) (Uid [2]))] joined_sample"
proof -
  have "interp_ok joined_sample"
    by (simp add: interp_ok_def joined_sample_def interp_new_def keyed_def rel_key_of_def with_attestations_def)
  then show ?thesis using interp_join_is_absorb by blast
qed

end
