(* ===== verification/Store_Library.thy ===== *)
theory Store_Library
  imports Interp
begin

section \<open>The library layer (smysl-graph/src/store/library.rs)\<close>

text \<open>
  What a store derives from manifests, datings, redactions and the sources of its units: maps of sets,
  filled by one record at a time and joined between stores. A lookup by dating target is never
  enumerated, so that map is a function whose default is the empty set. Proved here: each map is the
  set comprehension over the records that its name promises, so it depends on which records arrived and
  not on their order.
\<close>

record store_library =
  sl_manifests :: "(digest, manifest) bmap"
  sl_by_alias :: "(string, digest set) bmap"
  sl_superseded :: "digest set"
  sl_by_tid :: "(digest, uid set) bmap"
  sl_redactions :: "(digest, redaction set) bmap"
  sl_datings :: "(digest, dating) bmap"
  sl_datings_by_target :: "dating_target \<Rightarrow> digest set"

definition library_new :: store_library where
  "library_new = \<lparr>sl_manifests = [], sl_by_alias = [], sl_superseded = {}, sl_by_tid = [], sl_redactions = [],
     sl_datings = [], sl_datings_by_target = (\<lambda>_. {})\<rparr>"

text \<open>\<open>entry(k).or_insert_with\<close>: what is there first stays.\<close>

definition bm_or_insert :: "'k::linorder \<Rightarrow> 'v \<Rightarrow> ('k, 'v) bmap \<Rightarrow> ('k, 'v) bmap" where
  "bm_or_insert k v m = (if bm_contains m k then m else bm_insert k v m)"

subsection \<open>Absorbing\<close>

definition mid_of :: "platform \<Rightarrow> manifest \<Rightarrow> digest" where
  "mid_of p m = manifest_mid (pf_hash p) (pf_is_nfc p) (pf_nfc p) m"

definition did_of :: "platform \<Rightarrow> dating \<Rightarrow> digest" where
  "did_of p d = dating_did (pf_hash p) (pf_is_nfc p) (pf_nfc p) d"

definition absorb_manifest :: "platform \<Rightarrow> manifest \<Rightarrow> store_library \<Rightarrow> store_library" where
  "absorb_manifest p m l =
     l\<lparr>sl_by_alias := bm_extend_at (mf_alias m) {mid_of p m} (sl_by_alias l),
       sl_superseded := sl_superseded l \<union> set_option (mf_supersedes m),
       sl_manifests := bm_or_insert (mid_of p m) m (sl_manifests l)\<rparr>"

definition absorb_redaction :: "redaction \<Rightarrow> store_library \<Rightarrow> store_library" where
  "absorb_redaction r l = l\<lparr>sl_redactions := bm_extend_at (rd_tid r) {r} (sl_redactions l)\<rparr>"

definition absorb_dating :: "platform \<Rightarrow> dating \<Rightarrow> store_library \<Rightarrow> store_library" where
  "absorb_dating p d l =
     l\<lparr>sl_datings_by_target := (sl_datings_by_target l)(dg_target d := insert (did_of p d) (sl_datings_by_target l (dg_target d))),
       sl_datings := bm_or_insert (did_of p d) d (sl_datings l)\<rparr>"

text \<open>A reference names a part in its canonical spelling, with or without a locator behind \<open>#\<close>.\<close>

definition part_of :: "string \<Rightarrow> digest option" where
  "part_of reference =
     (case strip_prefix (digest_prefix KTid) reference of
        None \<Rightarrow> None
      | Some rest \<Rightarrow>
          (case digest_parse KTid (digest_prefix KTid @ takeWhile (\<lambda>c. c \<noteq> CHR ''#'') rest) of
             Inr t \<Rightarrow> Some t | Inl _ \<Rightarrow> None))"

definition absorb_reference :: "uid \<Rightarrow> string \<Rightarrow> store_library \<Rightarrow> store_library" where
  "absorb_reference u reference l =
     (case part_of reference of
        Some t \<Rightarrow> l\<lparr>sl_by_tid := bm_extend_at t {u} (sl_by_tid l)\<rparr> | None \<Rightarrow> l)"

definition absorb_unit_source :: "uid \<Rightarrow> source_ref option \<Rightarrow> store_library \<Rightarrow> store_library" where
  "absorb_unit_source u source l =
     (case source of Some s \<Rightarrow> absorb_reference u (sr_reference s) l | None \<Rightarrow> l)"

definition library_join :: "store_library \<Rightarrow> store_library \<Rightarrow> store_library" where
  "library_join other l =
     \<lparr>sl_manifests = fold (\<lambda>(mid, m). bm_or_insert mid m) (sl_manifests other) (sl_manifests l),
      sl_by_alias = fold (\<lambda>(a, s). bm_extend_at a s) (sl_by_alias other) (sl_by_alias l),
      sl_superseded = sl_superseded l \<union> sl_superseded other,
      sl_by_tid = fold (\<lambda>(t, s). bm_extend_at t s) (sl_by_tid other) (sl_by_tid l),
      sl_redactions = fold (\<lambda>(t, s). bm_extend_at t s) (sl_redactions other) (sl_redactions l),
      sl_datings = fold (\<lambda>(d, x). bm_or_insert d x) (sl_datings other) (sl_datings l),
      sl_datings_by_target = (\<lambda>t. sl_datings_by_target l t \<union> sl_datings_by_target other t)\<rparr>"

subsection \<open>Asking\<close>

definition library_manifest :: "store_library \<Rightarrow> digest \<Rightarrow> manifest option" where
  "library_manifest l mid = bm_get (sl_manifests l) mid"

definition is_redacted :: "store_library \<Rightarrow> digest \<Rightarrow> bool" where
  "is_redacted l t \<longleftrightarrow> bm_contains (sl_redactions l) t"

definition library_dating :: "store_library \<Rightarrow> digest \<Rightarrow> dating option" where
  "library_dating l did = bm_get (sl_datings l) did"

definition datings_of :: "store_library \<Rightarrow> dating_target \<Rightarrow> digest list" where
  "datings_of l t = sorted_list_of_set (sl_datings_by_target l t)"

definition manifests_of :: "store_library \<Rightarrow> string \<Rightarrow> digest list" where
  "manifests_of l a = sorted_list_of_set (set_at (sl_by_alias l) a)"

definition is_superseded :: "store_library \<Rightarrow> digest \<Rightarrow> bool" where
  "is_superseded l mid \<longleftrightarrow> mid \<in> sl_superseded l"

definition heads :: "store_library \<Rightarrow> string \<Rightarrow> digest list" where
  "heads l a = filter (\<lambda>mid. \<not> is_superseded l mid) (manifests_of l a)"

definition units_with_tid :: "store_library \<Rightarrow> digest \<Rightarrow> uid list" where
  "units_with_tid l t = sorted_list_of_set (set_at (sl_by_tid l) t)"

definition library_parts :: "store_library \<Rightarrow> (digest, u64 set) bmap" where
  "library_parts l =
     fold (\<lambda>m acc. fold (\<lambda>e. bm_extend_at (pe_tid e) {pe_length e}) (mf_parts m) acc) (bm_values (sl_manifests l)) []"

subsection \<open>What the maps hold\<close>

text \<open>The entry of a map of sets: none for the empty set.\<close>

definition some_set :: "'a set \<Rightarrow> 'a set option" where
  "some_set s = (if s = {} then None else Some s)"

lemma set_at_some_set: "bm_get m k = some_set s \<Longrightarrow> set_at m k = s"
  by (auto simp: set_at_def some_set_def split: if_splits)

lemma extend_some_set:
  assumes "bm_ok m" "\<And>k. bm_get m k = some_set (f k)"
  shows "bm_get (bm_extend_at k' {x} m) k = some_set (if k = k' then insert x (f k) else f k)"
  using assms(1) set_at_some_set [OF assms(2)] assms(2) by (simp add: bm_get_extend_at some_set_def)

lemma or_insert_ok [simp, ok_intros]: "bm_ok m \<Longrightarrow> bm_ok (bm_or_insert k v m)"
  by (simp add: bm_or_insert_def)

lemma bm_get_or_insert:
  "bm_get (bm_or_insert k v m) k' = (case bm_get m k' of Some w \<Rightarrow> Some w | None \<Rightarrow> if k' = k then Some v else None)"
  by (auto simp: bm_or_insert_def bm_contains_def bm_get_insert_any split: option.splits)

definition manifests_in :: "record_env list \<Rightarrow> manifest list" where
  "manifests_in rs = List.map_filter (\<lambda>r. case r of RManifest m \<Rightarrow> Some m | _ \<Rightarrow> None) rs"

definition datings_in :: "record_env list \<Rightarrow> dating list" where
  "datings_in rs = List.map_filter (\<lambda>r. case r of RDating d \<Rightarrow> Some d | _ \<Rightarrow> None) rs"

definition redactions_in :: "record_env list \<Rightarrow> redaction list" where
  "redactions_in rs = List.map_filter (\<lambda>r. case r of RRedaction d \<Rightarrow> Some d | _ \<Rightarrow> None) rs"

definition units_in :: "record_env list \<Rightarrow> unit_core list" where
  "units_in rs = List.map_filter (\<lambda>r. case r of RUnit c \<Rightarrow> Some c | _ \<Rightarrow> None) rs"

lemma in_snoc [simp]:
  "manifests_in (rs @ [r]) = manifests_in rs @ (case r of RManifest m \<Rightarrow> [m] | _ \<Rightarrow> [])"
  "datings_in (rs @ [r]) = datings_in rs @ (case r of RDating m \<Rightarrow> [m] | _ \<Rightarrow> [])"
  "redactions_in (rs @ [r]) = redactions_in rs @ (case r of RRedaction m \<Rightarrow> [m] | _ \<Rightarrow> [])"
  "units_in (rs @ [r]) = units_in rs @ (case r of RUnit m \<Rightarrow> [m] | _ \<Rightarrow> [])"
  by (cases r; simp add: manifests_in_def datings_in_def redactions_in_def units_in_def List.map_filter_def)+

lemma in_Nil [simp]: "manifests_in [] = []" "datings_in [] = []" "redactions_in [] = []" "units_in [] = []"
  by (simp_all add: manifests_in_def datings_in_def redactions_in_def units_in_def List.map_filter_def)

lemma in_append:
  "manifests_in (rs @ rs') = manifests_in rs @ manifests_in rs'" "datings_in (rs @ rs') = datings_in rs @ datings_in rs'"
  "redactions_in (rs @ rs') = redactions_in rs @ redactions_in rs'" "units_in (rs @ rs') = units_in rs @ units_in rs'"
  by (simp_all add: manifests_in_def datings_in_def redactions_in_def units_in_def List.map_filter_def)

lemma set_in:
  "m \<in> set (manifests_in rs) \<longleftrightarrow> RManifest m \<in> set rs" "d \<in> set (datings_in rs) \<longleftrightarrow> RDating d \<in> set rs"
  "x \<in> set (redactions_in rs) \<longleftrightarrow> RRedaction x \<in> set rs" "c \<in> set (units_in rs) \<longleftrightarrow> RUnit c \<in> set rs"
  by (induction rs rule: rev_induct) (auto split: record_env.splits)

definition part_of_unit :: "unit_core \<Rightarrow> digest option" where
  "part_of_unit c = (case uc_source c of Some s \<Rightarrow> part_of (sr_reference s) | None \<Rightarrow> None)"

text \<open>What the library of the records \<open>rs\<close> and of the sources of the units \<open>us\<close> holds.\<close>

definition library_spec :: "platform \<Rightarrow> record_env list \<Rightarrow> unit_core list \<Rightarrow> store_library \<Rightarrow> bool" where
  "library_spec p rs us l \<longleftrightarrow>
     (bm_ok (sl_manifests l) \<and> bm_ok (sl_by_alias l) \<and> bm_ok (sl_by_tid l) \<and> bm_ok (sl_redactions l) \<and> bm_ok (sl_datings l)) \<and>
     (\<forall>k. bm_get (sl_manifests l) k = map_of (map (\<lambda>m. (mid_of p m, m)) (manifests_in rs)) k) \<and>
     (\<forall>a. bm_get (sl_by_alias l) a = some_set {mid_of p m | m. m \<in> set (manifests_in rs) \<and> mf_alias m = a}) \<and>
     sl_superseded l = {d. \<exists>m \<in> set (manifests_in rs). mf_supersedes m = Some d} \<and>
     (\<forall>t. bm_get (sl_by_tid l) t = some_set {unit_id p c | c. c \<in> set us \<and> part_of_unit c = Some t}) \<and>
     (\<forall>t. bm_get (sl_redactions l) t = some_set {r \<in> set (redactions_in rs). rd_tid r = t}) \<and>
     (\<forall>k. bm_get (sl_datings l) k = map_of (map (\<lambda>d. (did_of p d, d)) (datings_in rs)) k) \<and>
     (\<forall>t. sl_datings_by_target l t = {did_of p d | d. d \<in> set (datings_in rs) \<and> dg_target d = t})"

lemma library_new_spec: "library_spec p [] [] library_new"
  by (simp add: library_spec_def library_new_def some_set_def)

lemma map_of_snoc: "map_of (xs @ [(k, v)]) k' = (case map_of xs k' of Some w \<Rightarrow> Some w | None \<Rightarrow> if k' = k then Some v else None)"
  by (auto simp: map_add_def split: option.splits)

lemma library_spec_manifest:
  assumes "library_spec p rs us l"
  shows "library_spec p (rs @ [RManifest m]) us (absorb_manifest p m l)"
proof -
  have al: "bm_get (bm_extend_at (mf_alias m) {mid_of p m} (sl_by_alias l)) a =
      some_set (if a = mf_alias m then insert (mid_of p m) {mid_of p m | m. m \<in> set (manifests_in rs) \<and> mf_alias m = a}
        else {mid_of p m | m. m \<in> set (manifests_in rs) \<and> mf_alias m = a})" for a
    using assms by (intro extend_some_set) (auto simp: library_spec_def)
  have "(if a = mf_alias m then insert (mid_of p m) {mid_of p m | m. m \<in> set (manifests_in rs) \<and> mf_alias m = a}
      else {mid_of p m | m. m \<in> set (manifests_in rs) \<and> mf_alias m = a}) =
    {mid_of p m' | m'. m' \<in> set (manifests_in (rs @ [RManifest m])) \<and> mf_alias m' = a}" for a by auto
  then show ?thesis
    using assms al unfolding library_spec_def absorb_manifest_def
    by (auto simp: map_of_snoc bm_get_or_insert simp del: map_of_append split: option.split)
qed

lemma library_spec_redaction:
  assumes "library_spec p rs us l"
  shows "library_spec p (rs @ [RRedaction r]) us (absorb_redaction r l)"
proof -
  have "bm_get (bm_extend_at (rd_tid r) {r} (sl_redactions l)) t =
      some_set (if t = rd_tid r then insert r {r \<in> set (redactions_in rs). rd_tid r = t} else {r \<in> set (redactions_in rs). rd_tid r = t})"
    for t using assms by (intro extend_some_set) (auto simp: library_spec_def)
  moreover have "(if t = rd_tid r then insert r {r \<in> set (redactions_in rs). rd_tid r = t} else {r \<in> set (redactions_in rs). rd_tid r = t}) =
      {r' \<in> set (redactions_in (rs @ [RRedaction r])). rd_tid r' = t}" for t by auto
  ultimately show ?thesis using assms unfolding library_spec_def absorb_redaction_def by simp
qed

lemma library_spec_dating:
  assumes "library_spec p rs us l"
  shows "library_spec p (rs @ [RDating d]) us (absorb_dating p d l)"
proof -
  have "(if t = dg_target d then insert (did_of p d) {did_of p d | d. d \<in> set (datings_in rs) \<and> dg_target d = t}
      else {did_of p d | d. d \<in> set (datings_in rs) \<and> dg_target d = t}) =
    {did_of p d' | d'. d' \<in> set (datings_in (rs @ [RDating d])) \<and> dg_target d' = t}" for t by auto
  then show ?thesis using assms unfolding library_spec_def absorb_dating_def
    by (auto simp: map_of_snoc bm_get_or_insert simp del: map_of_append split: option.split)
qed

lemma library_spec_unit:
  assumes "library_spec p rs us l"
  shows "library_spec p rs (us @ [c]) (absorb_unit_source (unit_id p c) (uc_source c) l)"
proof (cases "part_of_unit c")
  case None
  then have "absorb_unit_source (unit_id p c) (uc_source c) l = l"
    by (auto simp: part_of_unit_def absorb_unit_source_def absorb_reference_def split: option.splits)
  moreover have "{unit_id p c' | c'. c' \<in> set (us @ [c]) \<and> part_of_unit c' = Some t} =
      {unit_id p c' | c'. c' \<in> set us \<and> part_of_unit c' = Some t}" for t using None by auto
  ultimately show ?thesis using assms unfolding library_spec_def by simp
next
  case (Some t0)
  then have l': "absorb_unit_source (unit_id p c) (uc_source c) l = l\<lparr>sl_by_tid := bm_extend_at t0 {unit_id p c} (sl_by_tid l)\<rparr>"
    by (auto simp: part_of_unit_def absorb_unit_source_def absorb_reference_def split: option.splits)
  have "bm_get (bm_extend_at t0 {unit_id p c} (sl_by_tid l)) t =
      some_set (if t = t0 then insert (unit_id p c) {unit_id p c | c. c \<in> set us \<and> part_of_unit c = Some t}
        else {unit_id p c | c. c \<in> set us \<and> part_of_unit c = Some t})" for t
    using assms by (intro extend_some_set) (auto simp: library_spec_def)
  moreover have "(if t = t0 then insert (unit_id p c) {unit_id p c | c. c \<in> set us \<and> part_of_unit c = Some t}
        else {unit_id p c | c. c \<in> set us \<and> part_of_unit c = Some t}) =
      {unit_id p c' | c'. c' \<in> set (us @ [c]) \<and> part_of_unit c' = Some t}" for t using Some by auto
  ultimately show ?thesis using assms unfolding library_spec_def l' by (simp only: store_library.simps bm_ok_extend_at) simp
qed

lemma library_spec_other:
  assumes "library_spec p rs us l" "case r of RManifest _ \<Rightarrow> False | RRedaction _ \<Rightarrow> False | RDating _ \<Rightarrow> False | _ \<Rightarrow> True"
  shows "library_spec p (rs @ [r]) us l"
proof -
  have "manifests_in (rs @ [r]) = manifests_in rs" "datings_in (rs @ [r]) = datings_in rs"
    "redactions_in (rs @ [r]) = redactions_in rs" using assms(2) by (cases r; simp)+
  then show ?thesis using assms(1) unfolding library_spec_def by simp
qed

text \<open>Two libraries of the same records are the same, where identities tell manifests and datings apart.\<close>

lemma map_of_same_set:
  assumes "set xs = set ys" "inj_on f (set xs)"
  shows "map_of (map (\<lambda>x. (f x, x)) xs) k = map_of (map (\<lambda>x. (f x, x)) ys) k"
proof -
  have get: "map_of (map (\<lambda>x. (f x, x)) zs) k = Some v \<longleftrightarrow> v \<in> set zs \<and> f v = k" if "set zs = set xs" for zs v
  proof
    assume "v \<in> set zs \<and> f v = k"
    then have "map_of (map (\<lambda>x. (f x, x)) zs) k \<noteq> None" by (auto simp: map_of_eq_None_iff image_image)
    then obtain w where w: "map_of (map (\<lambda>x. (f x, x)) zs) k = Some w" by blast
    then have "w \<in> set zs" "f w = k" by (auto dest: map_of_SomeD)
    then show "map_of (map (\<lambda>x. (f x, x)) zs) k = Some v"
      using w \<open>v \<in> set zs \<and> f v = k\<close> assms(2) that by (metis inj_onD)
  qed (auto dest: map_of_SomeD)
  show ?thesis
    using get [OF refl] get [OF assms(1) [symmetric]]
    by (cases "map_of (map (\<lambda>x. (f x, x)) xs) k"; cases "map_of (map (\<lambda>x. (f x, x)) ys) k") (auto simp: assms(1))
qed

lemma library_of_set:
  assumes "library_spec p rs (units_in rs) l" "library_spec p rs' (units_in rs') l'" "set rs = set rs'"
    and "inj_on (mid_of p) {m. RManifest m \<in> set rs}" "inj_on (did_of p) {d. RDating d \<in> set rs}"
  shows "l = l'"
proof (rule store_library.equality)
  have same: "set (manifests_in rs) = set (manifests_in rs')" "set (datings_in rs) = set (datings_in rs')"
    "set (redactions_in rs) = set (redactions_in rs')" "set (units_in rs) = set (units_in rs')"
    using assms(3) by (auto simp: set_in)
  have inj: "inj_on (mid_of p) (set (manifests_in rs))" "inj_on (did_of p) (set (datings_in rs))"
  proof -
    have "{m. RManifest m \<in> set rs} = set (manifests_in rs)" "{d. RDating d \<in> set rs} = set (datings_in rs)"
      by (auto simp: set_in)
    then show "inj_on (mid_of p) (set (manifests_in rs))" "inj_on (did_of p) (set (datings_in rs))"
      using assms(4,5) by simp_all
  qed
  note maps = map_of_same_set [OF same(1) inj(1)] map_of_same_set [OF same(2) inj(2)]
  show "sl_manifests l = sl_manifests l'" "sl_by_alias l = sl_by_alias l'" "sl_by_tid l = sl_by_tid l'"
    "sl_redactions l = sl_redactions l'" "sl_datings l = sl_datings l'"
    using assms(1,2) by (auto simp: library_spec_def same maps intro!: bm_ext)
  show "sl_superseded l = sl_superseded l'" "sl_datings_by_target l = sl_datings_by_target l'"
    using assms(1,2) by (auto simp: library_spec_def same)
qed simp

end
