(* ===== verification/Store.thy ===== *)
theory Store
  imports Store_Library Retraction
begin

section \<open>The in-memory store (smysl-graph/src/store/mod.rs, read.rs)\<close>

text \<open>
  The store as a record of its fields, the fold of a batch of records into it, \<open>append\<close>, the cache of
  derived state, and the reads. What is left out is the file: a store here has no path, so the writes to
  the log's file and the sidecar index are not modelled, and \<open>log_bytes\<close> is what the file would hold.
  BLAKE3's streaming state is the stream it has read. Lengths are natural numbers.
\<close>

datatype hot_kind = HkSchemaDecls | HkLabelBindings | HkPackInfos | HkUnknown

fun hot_kind_of :: "record_env \<Rightarrow> hot_kind option" where
  "hot_kind_of (RSchemaDecl _) = Some HkSchemaDecls"
| "hot_kind_of (RLabelBinding _) = Some HkLabelBindings"
| "hot_kind_of (RPackInfo _) = Some HkPackInfos"
| "hot_kind_of (RUnknown _ _) = Some HkUnknown"
| "hot_kind_of _ = None"

record derived =
  dv_adjacency :: adjacency
  dv_unfounded :: "uid set"

record store =
  so_records :: "record_env list"
  so_log_len :: nat
  so_log_hash :: bytes
  so_pending :: "attestation list"
  so_stream :: bytes
  so_units :: "(uid, smy_unit) bmap"
  so_interp :: interpretive
  so_hot :: "hot_kind \<Rightarrow> nat list"
  so_hashes :: "bytes set"
  so_derived :: "derived option"
  so_rebuilds :: nat
  so_library :: store_library

definition store_new :: "platform \<Rightarrow> store" where
  "store_new p =
     \<lparr>so_records = [], so_log_len = 0, so_log_hash = pf_hash p [], so_pending = [], so_stream = [], so_units = [],
      so_interp = interp_new, so_hot = (\<lambda>_. []), so_hashes = {}, so_derived = None, so_rebuilds = 0,
      so_library = library_new\<rparr>"

subsection \<open>Derived state\<close>

text \<open>What the store answers through \<open>StoreRead\<close>, given its derived state.\<close>

definition reads_with :: "platform \<Rightarrow> store \<Rightarrow> derived \<Rightarrow> store_read" where
  "reads_with p st d =
     \<lparr>sd_units = so_units st, sd_adjacency = dv_adjacency d, sd_relations = bm_values (ip_relations (so_interp st)),
      sd_by_key = (\<lambda>k a b. bm_get (ip_relations (so_interp st)) (rel_as_str k, a, b)),
      sd_withdrawn = interp_is_withdrawn p (so_interp st), sd_unfounded = (\<lambda>u. u \<in> dv_unfounded d),
      sd_contentions = ip_contentions (so_interp st), sd_resolutions = ip_resolutions (so_interp st),
      sd_commits = ip_commits (so_interp st)\<rparr>"

definition derive :: "platform \<Rightarrow> store \<Rightarrow> derived" where
  "derive p st =
     (let relations = filter (\<lambda>r. \<not> interp_is_withdrawn p (so_interp st) r) (bm_values (ip_relations (so_interp st)));
          adjacency = adjacency_build (so_units st) relations;
          s = reads_with p st \<lparr>dv_adjacency = adjacency, dv_unfounded = {}\<rparr>
      in \<lparr>dv_adjacency = adjacency,
          dv_unfounded =
            (if list_ex (\<lambda>k. fst k = rel_as_str Retracts) (bm_keys (ip_relations (so_interp st)))
             then {u \<in> set (bm_keys (so_units st)). es_get (effective_status_of s RpStrict) u = Some StUnfounded}
             else {})\<rparr>)"

text \<open>\<open>get_or_init\<close>: what the cache holds, or the derivation.\<close>

definition derived_of :: "platform \<Rightarrow> store \<Rightarrow> derived" where
  "derived_of p st = (case so_derived st of Some d \<Rightarrow> d | None \<Rightarrow> derive p st)"

definition prepare :: "platform \<Rightarrow> store \<Rightarrow> store" where
  "prepare p st = st\<lparr>so_derived := Some (derived_of p st)\<rparr>"

definition store_reads :: "platform \<Rightarrow> store \<Rightarrow> store_read" where
  "store_reads p st = reads_with p st (derived_of p st)"

subsection \<open>Absorbing a batch\<close>

definition attach :: "attestation \<Rightarrow> store \<Rightarrow> store option" where
  "attach a st =
     (case bm_get (so_units st) (at_uid a) of
        Some u \<Rightarrow> Some (st\<lparr>so_units := bm_insert (at_uid a) (u\<lparr>un_attestations := insert a (un_attestations u)\<rparr>) (so_units st)\<rparr>)
      | None \<Rightarrow> map_option (\<lambda>i. st\<lparr>so_interp := i\<rparr>) (attach_to_relation a (so_interp st)))"

definition attach_or_wait :: "attestation \<Rightarrow> store \<Rightarrow> store" where
  "attach_or_wait a st = (case attach a st of Some st' \<Rightarrow> st' | None \<Rightarrow> st\<lparr>so_pending := so_pending st @ [a]\<rparr>)"

definition absorb_unit :: "platform \<Rightarrow> unit_core \<Rightarrow> store \<Rightarrow> store" where
  "absorb_unit p c st = st\<lparr>so_units := bm_or_insert (unit_id p c) (unit_new c) (so_units st)\<rparr>"

definition absorb_record :: "platform \<Rightarrow> record_env \<Rightarrow> store \<Rightarrow> store" where
  "absorb_record p r st =
     (case r of
        RUnit c \<Rightarrow> absorb_unit p c st
      | RAttestation a \<Rightarrow> attach_or_wait a st
      | _ \<Rightarrow>
          (case absorb_hot p r (so_interp st) of
             Some i \<Rightarrow> st\<lparr>so_interp := i\<rparr>
           | None \<Rightarrow>
               (case r of
                  RManifest m \<Rightarrow> st\<lparr>so_library := absorb_manifest p m (so_library st)\<rparr>
                | RDating d \<Rightarrow> st\<lparr>so_library := absorb_dating p d (so_library st)\<rparr>
                | RRedaction d \<Rightarrow> st\<lparr>so_library := absorb_redaction d (so_library st)\<rparr>
                | _ \<Rightarrow> st)))"

definition absorb_source :: "platform \<Rightarrow> record_env \<Rightarrow> store \<Rightarrow> store" where
  "absorb_source p r st =
     (case r of RUnit c \<Rightarrow> st\<lparr>so_library := absorb_unit_source (unit_id p c) (uc_source c) (so_library st)\<rparr> | _ \<Rightarrow> st)"

text \<open>The records that cannot move an edge.\<close>

fun is_text :: "record_env \<Rightarrow> bool" where
  "is_text (RManifest _) = True"
| "is_text (RPartText _) = True"
| "is_text (RPartReading _) = True"
| "is_text (RRedaction _) = True"
| "is_text (RDating _) = True"
| "is_text _ = False"

definition moves_edges :: "record_env list \<Rightarrow> bool" where
  "moves_edges rs \<longleftrightarrow> \<not> list_all is_text rs"

definition rebuild_adjacency :: "store \<Rightarrow> store" where
  "rebuild_adjacency st =
     (fold attach_or_wait (so_pending st) (st\<lparr>so_rebuilds := so_rebuilds st + 1, so_pending := []\<rparr>))\<lparr>so_derived := None\<rparr>"

definition push_hot :: "nat \<Rightarrow> record_env list \<Rightarrow> (hot_kind \<Rightarrow> nat list) \<Rightarrow> hot_kind \<Rightarrow> nat list" where
  "push_hot base rs hot k = hot k @ map (\<lambda>i. base + i) (filter (\<lambda>i. hot_kind_of (rs ! i) = Some k) [0..<length rs])"

definition absorb_hashed :: "platform \<Rightarrow> record_env list \<Rightarrow> bytes list \<Rightarrow> store \<Rightarrow> store" where
  "absorb_hashed p rs hashes st0 =
     (let st1 = st0\<lparr>so_hashes := so_hashes st0 \<union> set hashes\<rparr>;
          st2 = fold (absorb_record p) rs st1;
          st3 = fold (absorb_source p) rs st2;
          st4 = st3\<lparr>so_hot := push_hot (length (so_records st3)) rs (so_hot st3), so_records := so_records st3 @ rs\<rparr>
      in if moves_edges rs then rebuild_adjacency st4 else st4)"

definition absorb :: "platform \<Rightarrow> record_env list \<Rightarrow> store \<Rightarrow> store" where
  "absorb p rs st = absorb_hashed p rs (map (record_hash p) rs) st"

subsection \<open>Appending\<close>

datatype store_error = TextInLog u8 | DerivedContention u8

fun refusal :: "record_env \<Rightarrow> store_error option" where
  "refusal (RPartText _) = Some (TextInLog 15)"
| "refusal (RPartReading _) = Some (TextInLog 18)"
| "refusal (RContention c) =
     (if is_derived_only (dt_kind (ct_detected c))
      then Some (DerivedContention (detection_kind_as_u8 (dt_kind (ct_detected c)))) else None)"
| "refusal _ = None"

fun refuse_unloggable :: "record_env list \<Rightarrow> store_error + unit" where
  "refuse_unloggable [] = Inr ()"
| "refuse_unloggable (r # rs) = (case refusal r of Some e \<Rightarrow> Inl e | None \<Rightarrow> refuse_unloggable rs)"

text \<open>A relation held again brings its attestations.\<close>

definition union_edge_attestations :: "record_env list \<Rightarrow> store \<Rightarrow> store" where
  "union_edge_attestations repeated st =
     fold (\<lambda>r st. case r of
         RRelation rel \<Rightarrow>
           (case bm_get (ip_relations (so_interp st)) (rel_key_of rel) of
              Some existing \<Rightarrow> st\<lparr>so_interp := (so_interp st)\<lparr>ip_relations :=
                bm_insert (rel_key_of rel) (with_attestations (rl_attestations rel) existing) (ip_relations (so_interp st))\<rparr>\<rparr>
            | None \<Rightarrow> st)
       | _ \<Rightarrow> st) repeated st"

text \<open>The records not held yet and the repeats, each in order, against the store and the batch itself.\<close>

fun fresh_of :: "platform \<Rightarrow> bytes set \<Rightarrow> record_env list \<Rightarrow> record_env list \<times> record_env list" where
  "fresh_of p seen [] = ([], [])"
| "fresh_of p seen (r # rs) =
     (if record_hash p r \<in> seen
      then let (f, d) = fresh_of p seen rs in (f, r # d)
      else let (f, d) = fresh_of p (insert (record_hash p r) seen) rs in (r # f, d))"

record append_report =
  ar_added :: nat
  ar_duplicates :: nat
  ar_bytes_written :: nat

definition batch_bytes :: "platform \<Rightarrow> record_env list \<Rightarrow> bytes" where
  "batch_bytes p rs = concat (map (rec_bytes p) rs)"

definition store_append :: "platform \<Rightarrow> record_env list \<Rightarrow> store \<Rightarrow> store_error + store \<times> append_report" where
  "store_append p rs st =
     and_then (refuse_unloggable rs) (\<lambda>_.
       let (fresh, repeated) = fresh_of p (so_hashes st) rs in
       if fresh = [] then Inr (union_edge_attestations repeated st, \<lparr>ar_added = 0, ar_duplicates = length repeated, ar_bytes_written = 0\<rparr>)
       else
         let bytes = batch_bytes p fresh;
             st1 = absorb_hashed p fresh (map (record_hash p) fresh) (st\<lparr>so_log_len := so_log_len st + length bytes\<rparr>);
             st2 = union_edge_attestations repeated st1;
             st3 = st2\<lparr>so_stream := so_stream st2 @ bytes\<rparr>
         in Inr (st3\<lparr>so_log_hash := pf_hash p (so_stream st3)\<rparr>,
              \<lparr>ar_added = length fresh, ar_duplicates = length repeated, ar_bytes_written = length bytes\<rparr>))"

definition from_records :: "platform \<Rightarrow> record_env list \<Rightarrow> store" where
  "from_records p rs =
     (let (kept, repeated) = fresh_of p {} rs;
          st = union_edge_attestations repeated (absorb_hashed p kept (map (record_hash p) kept)
                 ((store_new p)\<lparr>so_stream := batch_bytes p kept\<rparr>))
      in st\<lparr>so_log_len := length (batch_bytes p kept), so_log_hash := pf_hash p (so_stream st)\<rparr>)"

definition of_log :: "platform \<Rightarrow> record_env list \<Rightarrow> bytes \<Rightarrow> store" where
  "of_log p rs log =
     (absorb p rs (store_new p))\<lparr>so_log_len := length log, so_log_hash := pf_hash p log, so_stream := log\<rparr>"

text \<open>What \<open>open\<close> makes of the bytes of a log: the store, and how many bytes of a torn record were left.\<close>

definition open_log :: "platform \<Rightarrow> bytes \<Rightarrow> (codec_error + store \<times> nat) option" where
  "open_log p b =
     (case from_cbor_seq (pf_is_nfc p) (pf_nfc p) b of
        None \<Rightarrow> None
      | Some (Inl e) \<Rightarrow> Some (Inl e)
      | Some (Inr (rs, consumed)) \<Rightarrow> Some (Inr (of_log p rs (take consumed b), length b - consumed)))"

definition log_bytes :: "platform \<Rightarrow> store \<Rightarrow> bytes" where
  "log_bytes p st = batch_bytes p (so_records st)"

end
