(* ===== verification/Store_Spec.thy ===== *)
theory Store_Spec
  imports Store
begin

section \<open>The store is a function of its log\<close>

text \<open>
  What each part of a store holds, as functions of the records of its log, and that absorbing a batch keeps
  it so: which batches the records came in, and whether an attestation came before or after what it
  vouches for, does not show. Identities must not collide (\<open>apart\<close>): no unit has the identity of a
  relation, and relations of different keys have different identities. Relations are taken as they are
  on the wire, without attestations (\<open>wire\<close>): those travel as records of their own.
\<close>

subsection \<open>The specification\<close>

definition unit_log :: "platform \<Rightarrow> record_env list \<Rightarrow> (uid \<times> unit_core) list" where
  "unit_log p rs = map (\<lambda>c. (unit_id p c, c)) (units_in rs)"

definition attestations_in :: "record_env list \<Rightarrow> attestation set" where
  "attestations_in rs = {a. RAttestation a \<in> set rs}"

definition rels_in :: "record_env list \<Rightarrow> relation set" where
  "rels_in rs = {r. RRelation r \<in> set rs}"

definition apart :: "platform \<Rightarrow> record_env list \<Rightarrow> bool" where
  "apart p rs \<longleftrightarrow>
     (\<forall>c \<in> set (units_in rs). \<forall>r \<in> rels_in rs. unit_id p c \<noteq> rel_id p r) \<and>
     (\<forall>r \<in> rels_in rs. \<forall>r' \<in> rels_in rs. rel_id p r = rel_id p r' \<longrightarrow> rel_key_of r = rel_key_of r')"

definition wire :: "record_env list \<Rightarrow> bool" where
  "wire rs \<longleftrightarrow> (\<forall>r \<in> rels_in rs. rl_attestations r = {})"

text \<open>Something the log holds has the identity.\<close>

definition held :: "platform \<Rightarrow> record_env list \<Rightarrow> uid \<Rightarrow> bool" where
  "held p rs u \<longleftrightarrow> u \<in> unit_id p ` set (units_in rs) \<or> u \<in> rel_id p ` rels_in rs"

definition spec_unit :: "platform \<Rightarrow> record_env list \<Rightarrow> attestation set \<Rightarrow> uid \<Rightarrow> smy_unit option" where
  "spec_unit p rs A u =
     map_option (\<lambda>c. (unit_new c)\<lparr>un_attestations := {a \<in> A. at_uid a = u}\<rparr>) (map_of (unit_log p rs) u)"

definition rel_attested :: "platform \<Rightarrow> record_env list \<Rightarrow> attestation set \<Rightarrow> rel_key \<Rightarrow> attestation set" where
  "rel_attested p rs A k = {a \<in> A. \<exists>r \<in> rels_in rs. rel_key_of r = k \<and> at_uid a = rel_id p r}"

text \<open>The units and the layer of the records \<open>rs\<close>, of whose attestations \<open>A\<close> are attached.\<close>

definition graph_spec :: "platform \<Rightarrow> record_env list \<Rightarrow> attestation set \<Rightarrow> store \<Rightarrow> bool" where
  "graph_spec p rs A st \<longleftrightarrow>
     bm_ok (so_units st) \<and> (\<forall>u. bm_get (so_units st) u = spec_unit p rs A u) \<and>
     (\<exists>m. so_interp st = (interp_layer p rs)\<lparr>ip_relations := m\<rparr> \<and> bm_ok m \<and>
       (\<forall>k. bm_get m k = map_option (with_attestations (rel_attested p rs A k)) (bm_get (ip_relations (interp_layer p rs)) k))) \<and>
     (\<forall>a \<in> A. held p rs (at_uid a))"

subsection \<open>The layer of the records\<close>

lemma rels_in_snoc [simp]: "rels_in (rs @ [r]) = rels_in rs \<union> (case r of RRelation x \<Rightarrow> {x} | _ \<Rightarrow> {})"
  unfolding rels_in_def set_append list.set Un_iff singleton_iff empty_iff simp_thms
  by (cases r; simp only: record_env.inject record_env.distinct record_env.simps simp_thms; blast)

lemma attestations_in_snoc [simp]:
  "attestations_in (rs @ [r]) = attestations_in rs \<union> (case r of RAttestation x \<Rightarrow> {x} | _ \<Rightarrow> {})"
  unfolding attestations_in_def set_append list.set Un_iff singleton_iff empty_iff simp_thms
  by (cases r; simp only: record_env.inject record_env.distinct record_env.simps simp_thms; blast)

lemma rels_in_Nil [simp]: "rels_in [] = {}" "attestations_in [] = {}"
  by (simp_all add: rels_in_def attestations_in_def)

lemma units_in_set: "c \<in> set (units_in rs) \<longleftrightarrow> RUnit c \<in> set rs"
  by (rule set_in)

lemma rels_in_append: "rels_in (rs @ rs') = rels_in rs \<union> rels_in rs'"
  by (simp add: rels_in_def Collect_disj_eq)

lemma attestations_in_append: "attestations_in (rs @ rs') = attestations_in rs \<union> attestations_in rs'"
  by (simp add: attestations_in_def Collect_disj_eq)

lemma apart_prefix: "apart p (rs @ rs') \<Longrightarrow> apart p rs"
  unfolding apart_def rels_in_append in_append set_append by blast

lemma wire_append: "wire (rs @ rs') \<longleftrightarrow> wire rs \<and> wire rs'"
  unfolding wire_def rels_in_append by blast

lemma interp_layer_snoc:
  "interp_layer p (rs @ [r]) = (case absorb_hot p r (interp_layer p rs) of Some i \<Rightarrow> i | None \<Rightarrow> interp_layer p rs)"
  by (simp add: interp_layer_def absorb_each_snoc split: option.split)

lemma layer_rids_snoc:
  "ip_rids (interp_layer p (rs @ [r])) = (case r of RRelation x \<Rightarrow> bm_insert (rel_id p x) (rel_key_of x) (ip_rids (interp_layer p rs))
      | _ \<Rightarrow> ip_rids (interp_layer p rs))"
  by (cases r) (simp_all add: interp_layer_snoc absorb_relation_def absorb_thread_def absorb_view_def absorb_contention_def)

lemma layer_relations_snoc:
  "bm_get (ip_relations (interp_layer p (rs @ [r]))) k =
     (case r of RRelation x \<Rightarrow>
        if k = rel_key_of x then Some (case bm_get (ip_relations (interp_layer p rs)) k of
          Some e \<Rightarrow> with_attestations (rl_attestations x) e | None \<Rightarrow> x)
        else bm_get (ip_relations (interp_layer p rs)) k
      | _ \<Rightarrow> bm_get (ip_relations (interp_layer p rs)) k)"
  by (cases r)
    (simp_all add: interp_layer_snoc absorb_relation_def absorb_thread_def absorb_view_def absorb_contention_def bm_get_insert_any)

lemma layer_rids_none: "bm_get (ip_rids (interp_layer p rs)) u = None \<longleftrightarrow> u \<notin> rel_id p ` rels_in rs"
proof (induction rs rule: rev_induct)
  case Nil
  then show ?case by (simp add: interp_layer_def interp_new_def)
next
  case (snoc r rs)
  then show ?case by (cases r) (simp_all add: layer_rids_snoc bm_get_insert_any image_Un)
qed

lemma layer_rids_some:
  "bm_get (ip_rids (interp_layer p rs)) u = Some k \<Longrightarrow> \<exists>r \<in> rels_in rs. rel_id p r = u \<and> rel_key_of r = k"
proof (induction rs rule: rev_induct)
  case Nil
  then show ?case by (simp add: interp_layer_def interp_new_def)
next
  case (snoc r rs)
  then show ?case by (cases r) (auto simp: layer_rids_snoc bm_get_insert_any simp del: bex_simps split: if_splits)
qed

lemma layer_relations:
  "bm_get (ip_relations (interp_layer p rs)) k = None \<longleftrightarrow> k \<notin> rel_key_of ` rels_in rs"
proof (induction rs rule: rev_induct)
  case Nil
  then show ?case by (simp add: interp_layer_def interp_new_def)
next
  case (snoc r rs)
  then show ?case by (cases r) (simp_all add: layer_relations_snoc image_Un)
qed

lemma layer_wire:
  "wire rs \<Longrightarrow> bm_get (ip_relations (interp_layer p rs)) k = Some r \<Longrightarrow> rl_attestations r = {}"
proof (induction rs arbitrary: r rule: rev_induct)
  case Nil
  then show ?case by (simp add: interp_layer_def interp_new_def)
next
  case (snoc x rs)
  then show ?case
    by (cases x) (auto simp: layer_relations_snoc wire_def with_attestations_def split: if_splits option.splits)
qed

lemma with_no_attestations [simp]: "with_attestations {} r = r"
  by (simp add: with_attestations_def)

lemma with_attestations_twice: "with_attestations s (with_attestations s' r) = with_attestations (s' \<union> s) r"
  by (simp add: with_attestations_def Un_assoc)

subsection \<open>One attestation\<close>

lemma graph_spec_new: "graph_spec p [] {} (store_new p)"
  by (auto simp: graph_spec_def store_new_def spec_unit_def unit_log_def interp_layer_def interp_new_def)

lemma graph_spec_fields:
  "so_units st' = so_units st \<Longrightarrow> so_interp st' = so_interp st \<Longrightarrow> graph_spec p rs A st' = graph_spec p rs A st"
  by (simp add: graph_spec_def)

lemma graph_spec_updates [simp]:
  "graph_spec p rs A (st\<lparr>so_pending := x\<rparr>) = graph_spec p rs A st"
  "graph_spec p rs A (st\<lparr>so_library := l\<rparr>) = graph_spec p rs A st"
  "graph_spec p rs A (st\<lparr>so_derived := d\<rparr>) = graph_spec p rs A st"
  "graph_spec p rs A (st\<lparr>so_rebuilds := n\<rparr>) = graph_spec p rs A st"
  "graph_spec p rs A (st\<lparr>so_hashes := hs\<rparr>) = graph_spec p rs A st"
  by (simp_all add: graph_spec_def)

lemma graph_specE:
  assumes "graph_spec p rs A st"
  obtains m where "so_interp st = (interp_layer p rs)\<lparr>ip_relations := m\<rparr>" "bm_ok m"
    "\<And>k. bm_get m k = map_option (with_attestations (rel_attested p rs A k)) (bm_get (ip_relations (interp_layer p rs)) k)"
    "bm_ok (so_units st)" "\<And>u. bm_get (so_units st) u = spec_unit p rs A u" "\<And>a. a \<in> A \<Longrightarrow> held p rs (at_uid a)"
proof -
  obtain m where "so_interp st = (interp_layer p rs)\<lparr>ip_relations := m\<rparr> \<and> bm_ok m \<and>
      (\<forall>k. bm_get m k = map_option (with_attestations (rel_attested p rs A k)) (bm_get (ip_relations (interp_layer p rs)) k))"
    using assms unfolding graph_spec_def by blast
  then show thesis using assms unfolding graph_spec_def by (intro that [of m]) blast+
qed

lemma graph_specI:
  assumes "so_interp st = (interp_layer p rs)\<lparr>ip_relations := m\<rparr>" "bm_ok m"
    "\<And>k. bm_get m k = map_option (with_attestations (rel_attested p rs A k)) (bm_get (ip_relations (interp_layer p rs)) k)"
    "bm_ok (so_units st)" "\<And>u. bm_get (so_units st) u = spec_unit p rs A u" "\<And>a. a \<in> A \<Longrightarrow> held p rs (at_uid a)"
  shows "graph_spec p rs A st"
  using assms by (auto simp: graph_spec_def)

lemma unit_log_none: "map_of (unit_log p rs) u = None \<longleftrightarrow> u \<notin> unit_id p ` set (units_in rs)"
  by (simp add: unit_log_def map_of_eq_None_iff image_image)

lemma unit_log_snoc:
  "map_of (unit_log p (rs @ [r])) u =
     (case map_of (unit_log p rs) u of Some c \<Rightarrow> Some c
      | None \<Rightarrow> (case r of RUnit c \<Rightarrow> if u = unit_id p c then Some c else None | _ \<Rightarrow> None))"
  by (cases r) (auto simp: unit_log_def map_of_snoc simp del: map_of_append split: option.split)

lemma attach_fields:
  "attach a st = Some st' \<Longrightarrow> st' = st\<lparr>so_units := so_units st', so_interp := so_interp st'\<rparr>"
  by (auto simp: attach_def split: option.splits)

text \<open>An attestation lands exactly when something held has the identity it names.\<close>

lemma attach_spec:
  assumes spec: "graph_spec p rs A st" and apart: "apart p rs"
  shows "attach a st = None \<longleftrightarrow> \<not> held p rs (at_uid a)"
    and "attach a st = Some st' \<Longrightarrow> graph_spec p rs (insert a A) st'"
proof -
  obtain m where i: "so_interp st = (interp_layer p rs)\<lparr>ip_relations := m\<rparr>" and m: "bm_ok m"
    and rel: "\<And>k. bm_get m k = map_option (with_attestations (rel_attested p rs A k)) (bm_get (ip_relations (interp_layer p rs)) k)"
    and units: "bm_ok (so_units st)" "\<And>u. bm_get (so_units st) u = spec_unit p rs A u" and A: "\<And>a. a \<in> A \<Longrightarrow> held p rs (at_uid a)"
    by (rule graph_specE [OF spec], rule that)
  let ?u = "at_uid a"
  have unit_none: "bm_get (so_units st) ?u = None \<longleftrightarrow> ?u \<notin> unit_id p ` set (units_in rs)"
    by (simp add: units(2) spec_unit_def unit_log_none)
  have to_rel: "attach_to_relation a (so_interp st) = (case bm_get (ip_rids (interp_layer p rs)) ?u of None \<Rightarrow> None
      | Some k \<Rightarrow> Some ((interp_layer p rs)\<lparr>ip_relations := bm_insert k (with_attestations {a} (the (bm_get m k))) m\<rparr>))"
  proof (cases "bm_get (ip_rids (interp_layer p rs)) ?u")
    case (Some k)
    then obtain r where "r \<in> rels_in rs" "rel_key_of r = k" using layer_rids_some by blast
    then have "bm_get m k \<noteq> None" using rel [of k] layer_relations [of p rs k] by auto
    then show ?thesis using Some by (auto simp: attach_to_relation_def i)
  qed (simp add: attach_to_relation_def i)
  show "attach a st = None \<longleftrightarrow> \<not> held p rs ?u"
    using unit_none layer_rids_none [of p rs ?u] by (auto simp: attach_def to_rel held_def split: option.splits)
  assume st': "attach a st = Some st'"
  have held: "held p rs b_uid" if "b \<in> insert a A" "b_uid = at_uid b" for b b_uid
    using that A \<open>attach a st = None \<longleftrightarrow> \<not> held p rs ?u\<close> st' by auto
  show "graph_spec p rs (insert a A) st'"
  proof (cases "bm_get (so_units st) ?u")
    case (Some x)
    then have st'': "st' = st\<lparr>so_units := bm_insert ?u (x\<lparr>un_attestations := insert a (un_attestations x)\<rparr>) (so_units st)\<rparr>"
      using st' by (simp add: attach_def)
    have u: "?u \<in> unit_id p ` set (units_in rs)" using Some unit_none by simp
    have x: "spec_unit p rs A ?u = Some x" using Some units(2) by simp
    have set: "{b \<in> insert a A. at_uid b = v} = (if v = ?u then insert a {b \<in> A. at_uid b = v} else {b \<in> A. at_uid b = v})" for v
      by auto
    have "spec_unit p rs (insert a A) v = (if v = ?u
        then map_option (\<lambda>x. x\<lparr>un_attestations := insert a (un_attestations x)\<rparr>) (spec_unit p rs A v) else spec_unit p rs A v)" for v
      unfolding spec_unit_def set by (simp add: option.map_comp comp_def)
    then have get: "bm_get (so_units st') v = spec_unit p rs (insert a A) v" for v
      using x units(2) by (simp add: st'' bm_get_insert_any)
    have "?u \<noteq> rel_id p r" if "r \<in> rels_in rs" for r using apart u that unfolding apart_def by (metis imageE)
    then have att: "rel_attested p rs (insert a A) k = rel_attested p rs A k" for k by (auto simp: rel_attested_def)
    show ?thesis
      by (rule graph_specI [OF _ m]) (use i rel att get held units(1) in \<open>simp_all add: st''\<close>)
  next
    case None
    then obtain k where k: "bm_get (ip_rids (interp_layer p rs)) ?u = Some k"
      and st'': "st' = st\<lparr>so_interp := (interp_layer p rs)\<lparr>ip_relations := bm_insert k (with_attestations {a} (the (bm_get m k))) m\<rparr>\<rparr>"
      using st' by (auto simp: attach_def to_rel split: option.splits)
    obtain r where r: "r \<in> rels_in rs" "rel_id p r = ?u" "rel_key_of r = k" using layer_rids_some [OF k] by blast
    have u: "?u \<notin> unit_id p ` set (units_in rs)" using None unit_none by simp
    have get: "spec_unit p rs (insert a A) v = spec_unit p rs A v" for v
    proof (cases "map_of (unit_log p rs) v")
      case (Some c)
      then have "v \<noteq> ?u" using u unit_log_none [of p rs v] by (metis option.distinct(1))
      then have "{b \<in> insert a A. at_uid b = v} = {b \<in> A. at_uid b = v}" by auto
      then show ?thesis by (simp add: spec_unit_def)
    qed (simp add: spec_unit_def)
    have att: "rel_attested p rs (insert a A) j = (if j = k then insert a (rel_attested p rs A j) else rel_attested p rs A j)" for j
    proof -
      have "(\<exists>r' \<in> rels_in rs. rel_key_of r' = j \<and> ?u = rel_id p r') \<longleftrightarrow> j = k"
        using r apart by (metis apart_def)
      then show ?thesis by (auto simp: rel_attested_def)
    qed
    have rel': "bm_get (bm_insert k (with_attestations {a} (the (bm_get m k))) m) j =
        map_option (with_attestations (rel_attested p rs (insert a A) j)) (bm_get (ip_relations (interp_layer p rs)) j)" for j
      using layer_relations [of p rs k] r(1,3)
      by (cases "bm_get (ip_relations (interp_layer p rs)) j") (auto simp: bm_get_insert_any rel att with_attestations_twice)
    show ?thesis
      by (rule graph_specI [OF _ _ rel']) (use m units get held in \<open>simp_all add: st''\<close>)
  qed
qed

lemma attach_or_wait_spec:
  assumes "graph_spec p rs A st" "apart p rs"
  shows "graph_spec p rs (A \<union> {b. b = a \<and> held p rs (at_uid b)}) (attach_or_wait a st)"
    and "so_pending (attach_or_wait a st) = so_pending st @ (if held p rs (at_uid a) then [] else [a])"
proof -
  have "graph_spec p rs (A \<union> {b. b = a \<and> held p rs (at_uid b)}) (attach_or_wait a st) \<and>
      so_pending (attach_or_wait a st) = so_pending st @ (if held p rs (at_uid a) then [] else [a])"
  proof (cases "attach a st")
    case None
    then have none: "\<not> held p rs (at_uid a)" using attach_spec(1) [OF assms] by simp
    then have empty: "{b. b = a \<and> held p rs (at_uid b)} = {}" by auto
    show ?thesis using None none assms(1) by (simp add: attach_or_wait_def empty)
  next
    case (Some st')
    then have some: "held p rs (at_uid a)" using attach_spec(1) [OF assms, of a] by simp
    then have "A \<union> {b. b = a \<and> held p rs (at_uid b)} = insert a A" by auto
    moreover have "so_pending st' = so_pending st" by (subst attach_fields [OF Some]) simp
    ultimately show ?thesis using some Some attach_spec(2) [OF assms Some] by (simp add: attach_or_wait_def)
  qed
  then show "graph_spec p rs (A \<union> {b. b = a \<and> held p rs (at_uid b)}) (attach_or_wait a st)"
    and "so_pending (attach_or_wait a st) = so_pending st @ (if held p rs (at_uid a) then [] else [a])" by blast+
qed

lemma attach_all_spec:
  assumes "apart p rs" "graph_spec p rs A st"
  shows "graph_spec p rs (A \<union> {b \<in> set ws. held p rs (at_uid b)}) (fold attach_or_wait ws st) \<and>
    so_pending (fold attach_or_wait ws st) = so_pending st @ filter (\<lambda>b. \<not> held p rs (at_uid b)) ws"
  using assms(2)
proof (induction ws arbitrary: A st)
  case (Cons a ws)
  have sets: "A \<union> {b. b = a \<and> held p rs (at_uid b)} \<union> {b \<in> set ws. held p rs (at_uid b)} =
      A \<union> {b \<in> set (a # ws). held p rs (at_uid b)}" by auto
  show ?case
    using Cons.IH [OF attach_or_wait_spec(1) [OF Cons.prems assms(1), of a]]
    unfolding sets by (simp add: attach_or_wait_spec(2) [OF Cons.prems assms(1)])
qed simp

subsection \<open>One record\<close>

lemma graph_spec_records:
  assumes "units_in rs' = units_in rs" "rels_in rs' = rels_in rs" "interp_layer p rs' = interp_layer p rs"
  shows "graph_spec p rs' A st = graph_spec p rs A st"
proof -
  have "held p rs' = held p rs" "spec_unit p rs' A = spec_unit p rs A" "rel_attested p rs' A = rel_attested p rs A"
    using assms by (auto simp: held_def spec_unit_def unit_log_def rel_attested_def)
  then show ?thesis by (simp add: graph_spec_def assms(3))
qed

lemma held_snoc: "held p rs u \<Longrightarrow> held p (rs @ rs') u"
  by (auto simp: held_def rels_in_def units_in_set)

lemma graph_spec_unit:
  assumes spec: "graph_spec p rs A st" and apart: "apart p (rs @ [RUnit c])"
  shows "graph_spec p (rs @ [RUnit c]) A (absorb_unit p c st)"
proof -
  obtain m where i: "so_interp st = (interp_layer p rs)\<lparr>ip_relations := m\<rparr>" and m: "bm_ok m"
    and rel: "\<And>k. bm_get m k = map_option (with_attestations (rel_attested p rs A k)) (bm_get (ip_relations (interp_layer p rs)) k)"
    and units: "bm_ok (so_units st)" "\<And>u. bm_get (so_units st) u = spec_unit p rs A u" and A: "\<And>a. a \<in> A \<Longrightarrow> held p rs (at_uid a)"
    by (rule graph_specE [OF spec], rule that)
  have layer: "interp_layer p (rs @ [RUnit c]) = interp_layer p rs" by (simp add: interp_layer_snoc)
  have att: "rel_attested p (rs @ [RUnit c]) A k = rel_attested p rs A k" for k by (simp add: rel_attested_def)
  have none: "{a \<in> A. at_uid a = unit_id p c} = {}" if "unit_id p c \<notin> unit_id p ` set (units_in rs)"
  proof -
    have "unit_id p c \<noteq> rel_id p r" if "r \<in> rels_in rs" for r using apart that by (auto simp: apart_def)
    then have "\<not> held p rs (unit_id p c)" using that by (auto simp: held_def)
    then show ?thesis using A by (metis (mono_tags, lifting) empty_Collect_eq)
  qed
  have get: "bm_get (bm_or_insert (unit_id p c) (unit_new c) (so_units st)) u = spec_unit p (rs @ [RUnit c]) A u" for u
  proof (cases "map_of (unit_log p rs) u")
    case None
    then have "unit_id p c \<notin> unit_id p ` set (units_in rs)" if "u = unit_id p c" using that unit_log_none by blast
    then show ?thesis using None none
      by (simp add: bm_get_or_insert units(2) spec_unit_def unit_log_snoc) (simp add: unit_new_def)
  qed (simp add: bm_get_or_insert units(2) spec_unit_def unit_log_snoc)
  show ?thesis
    by (rule graph_specI [OF _ m]) (use i rel units(1) get A held_snoc in \<open>simp_all add: layer att absorb_unit_def\<close>)
qed

lemma graph_spec_relation:
  assumes spec: "graph_spec p rs A st" and apart: "apart p (rs @ [RRelation r])" and wire: "rl_attestations r = {}"
  shows "graph_spec p (rs @ [RRelation r]) A (st\<lparr>so_interp := absorb_relation p r (so_interp st)\<rparr>)"
proof -
  obtain m where i: "so_interp st = (interp_layer p rs)\<lparr>ip_relations := m\<rparr>" and m: "bm_ok m"
    and rel: "\<And>k. bm_get m k = map_option (with_attestations (rel_attested p rs A k)) (bm_get (ip_relations (interp_layer p rs)) k)"
    and units: "bm_ok (so_units st)" "\<And>u. bm_get (so_units st) u = spec_unit p rs A u" and A: "\<And>a. a \<in> A \<Longrightarrow> held p rs (at_uid a)"
    by (rule graph_specE [OF spec], rule that)
  let ?rs = "rs @ [RRelation r]" and ?k = "rel_key_of r"
  have rels: "rels_in ?rs = insert r (rels_in rs)" by simp
  have known: "\<exists>r' \<in> rels_in rs. rel_key_of r' = ?k \<and> at_uid a = rel_id p r'" if a: "a \<in> A" "at_uid a = rel_id p r" for a
  proof -
    have "\<forall>c \<in> set (units_in rs). unit_id p c \<noteq> rel_id p r"
      using apart unfolding apart_def rels in_append set_append by blast
    then have "at_uid a \<notin> unit_id p ` set (units_in rs)" using a(2) by (metis imageE)
    then obtain r' where r': "r' \<in> rels_in rs" "at_uid a = rel_id p r'" using A [OF a(1)] unfolding held_def by blast
    have "rel_key_of r' = ?k" using apart r' a(2) unfolding apart_def rels by (metis insertCI)
    then show ?thesis using r' by blast
  qed
  then have att: "rel_attested p ?rs A k = rel_attested p rs A k" for k
    unfolding rel_attested_def rels using known by blast
  have fresh: "rel_attested p rs A ?k = {}" if "bm_get (ip_relations (interp_layer p rs)) ?k = None"
  proof -
    have "?k \<notin> rel_key_of ` rels_in rs" using that layer_relations by blast
    then have "rel_key_of x \<noteq> ?k" if "x \<in> rels_in rs" for x using that by (metis imageI)
    then show ?thesis by (auto simp: rel_attested_def)
  qed
  have i': "absorb_relation p r (so_interp st) = (interp_layer p ?rs)\<lparr>ip_relations := ip_relations (absorb_relation p r (so_interp st))\<rparr>"
    by (simp add: i interp_layer_snoc absorb_relation_def)
  have get: "bm_get (ip_relations (absorb_relation p r (so_interp st))) k =
      map_option (with_attestations (rel_attested p ?rs A k)) (bm_get (ip_relations (interp_layer p ?rs)) k)" for k
    using fresh wire
    by (cases "bm_get (ip_relations (interp_layer p rs)) ?k")
      (auto simp: layer_relations_snoc absorb_relation_def i bm_get_insert_any rel att)
  show ?thesis
    by (rule graph_specI [OF _ _ get])
      (use i' m units A held_snoc in \<open>simp_all add: spec_unit_def unit_log_def absorb_relation_def i\<close>)
qed

lemma absorb_hot_relations:
  assumes "\<forall>x. r \<noteq> RRelation x"
  shows "absorb_hot p r (i\<lparr>ip_relations := m\<rparr>) = map_option (\<lambda>i. i\<lparr>ip_relations := m\<rparr>) (absorb_hot p r i)"
    and "absorb_hot p r i = Some i' \<Longrightarrow> ip_relations i' = ip_relations i"
  using assms by (cases r; auto simp: absorb_thread_def absorb_view_def absorb_contention_def)+

lemma graph_spec_hot:
  assumes spec: "graph_spec p rs A st" and "\<And>x. r \<noteq> RRelation x" and hot: "absorb_hot p r (so_interp st) = Some i'"
  shows "graph_spec p (rs @ [r]) A (st\<lparr>so_interp := i'\<rparr>)"
proof -
  obtain m where i: "so_interp st = (interp_layer p rs)\<lparr>ip_relations := m\<rparr>" and m: "bm_ok m"
    and rel: "\<And>k. bm_get m k = map_option (with_attestations (rel_attested p rs A k)) (bm_get (ip_relations (interp_layer p rs)) k)"
    and units: "bm_ok (so_units st)" "\<And>u. bm_get (so_units st) u = spec_unit p rs A u" and A: "\<And>a. a \<in> A \<Longrightarrow> held p rs (at_uid a)"
    by (rule graph_specE [OF spec], rule that)
  have no_rel: "\<forall>x. r \<noteq> RRelation x" using assms(2) by blast
  note commute = absorb_hot_relations(1) [OF no_rel, of p m "interp_layer p rs"] absorb_hot_relations(2) [OF no_rel]
  obtain j where j: "absorb_hot p r (interp_layer p rs) = Some j" "i' = j\<lparr>ip_relations := m\<rparr>"
    using hot commute by (auto simp: i)
  have layer: "interp_layer p (rs @ [r]) = j" "ip_relations j = ip_relations (interp_layer p rs)"
    using j(1) commute by (auto simp: interp_layer_snoc)
  have same: "units_in (rs @ [r]) = units_in rs" "rels_in (rs @ [r]) = rels_in rs"
    using j(1) assms(2) by (cases r; simp)+
  have "held p (rs @ [r]) = held p rs" "spec_unit p (rs @ [r]) A = spec_unit p rs A" "rel_attested p (rs @ [r]) A = rel_attested p rs A"
    using same by (auto simp: held_def spec_unit_def unit_log_def rel_attested_def)
  then show ?thesis
    by (intro graph_specI [OF _ m]) (use j(2) units rel A in \<open>simp_all add: layer\<close>)
qed

text \<open>What of an attestation waits, and what of it is attached.\<close>

definition landed :: "platform \<Rightarrow> record_env list \<Rightarrow> record_env \<Rightarrow> attestation set" where
  "landed p rs r = {a. r = RAttestation a \<and> held p rs (at_uid a)}"

definition waiting :: "platform \<Rightarrow> record_env list \<Rightarrow> record_env \<Rightarrow> attestation list" where
  "waiting p rs r = (case r of RAttestation a \<Rightarrow> if held p rs (at_uid a) then [] else [a] | _ \<Rightarrow> [])"

lemma absorb_record_spec:
  assumes spec: "graph_spec p rs A st" and apart: "apart p (rs @ [r])" and wire: "wire [r]"
  shows "graph_spec p (rs @ [r]) (A \<union> landed p rs r) (absorb_record p r st) \<and>
    so_pending (absorb_record p r st) = so_pending st @ waiting p rs r"
proof -
  have cold: "graph_spec p (rs @ [r]) A st" if "absorb_hot p r i = None" "\<And>c. r \<noteq> RUnit c" for i
  proof -
    have "units_in (rs @ [r]) = units_in rs" "rels_in (rs @ [r]) = rels_in rs" "interp_layer p (rs @ [r]) = interp_layer p rs"
      using that by (cases r; simp add: interp_layer_snoc)+
    then show ?thesis using spec graph_spec_records [of "rs @ [r]" rs p A st] by simp
  qed
  have hot: "graph_spec p (rs @ [r]) A (absorb_record p r st) \<and> so_pending (absorb_record p r st) = so_pending st"
    if "absorb_hot p r (so_interp st) = Some i'" "\<And>x. r \<noteq> RRelation x" for i'
  proof -
    have "absorb_record p r st = st\<lparr>so_interp := i'\<rparr>" using that by (cases r) (simp_all add: absorb_record_def)
    then show ?thesis using graph_spec_hot [OF spec that(2,1)] by simp
  qed
  show ?thesis
  proof (cases r)
    case (RUnit c)
    then show ?thesis
      using graph_spec_unit [OF spec] apart by (simp add: absorb_record_def landed_def waiting_def absorb_unit_def)
  next
    case (RAttestation a)
    have landed: "landed p rs r = {b. b = a \<and> held p rs (at_uid b)}" by (auto simp: landed_def RAttestation)
    have "units_in (rs @ [r]) = units_in rs" "rels_in (rs @ [r]) = rels_in rs" "interp_layer p (rs @ [r]) = interp_layer p rs"
      by (simp_all add: RAttestation interp_layer_snoc)
    moreover have "absorb_record p r st = attach_or_wait a st" by (simp add: absorb_record_def RAttestation)
    ultimately show ?thesis
      using attach_or_wait_spec [OF spec apart_prefix [OF apart], of a] graph_spec_records [of "rs @ [r]" rs p]
      by (simp add: landed) (simp add: waiting_def RAttestation)
  next
    case (RRelation x)
    have "rl_attestations x = {}" using wire by (simp add: wire_def rels_in_def RRelation)
    then show ?thesis
      using graph_spec_relation [OF spec] apart by (simp add: RRelation absorb_record_def landed_def waiting_def)
  qed (use hot cold in \<open>simp_all add: absorb_record_def landed_def waiting_def\<close>)
qed

subsection \<open>A batch\<close>

lemma absorb_batch:
  assumes "graph_spec p rs A st" "apart p (rs @ bs)" "wire bs" "attestations_in rs = A \<union> set (so_pending st)"
  shows "\<exists>A'. graph_spec p (rs @ bs) A' (fold (absorb_record p) bs st) \<and>
    attestations_in (rs @ bs) = A' \<union> set (so_pending (fold (absorb_record p) bs st))"
  using assms
proof (induction bs arbitrary: rs A st)
  case (Cons r bs)
  have apart: "apart p (rs @ [r])" using Cons.prems(2) apart_prefix [of p "rs @ [r]" bs] by simp
  have wire: "wire [r]" "wire bs" using Cons.prems(3) wire_append [of "[r]" bs] by simp_all
  note step = absorb_record_spec [OF Cons.prems(1) apart wire(1)]
  have "attestations_in (rs @ [r]) = attestations_in rs \<union> landed p rs r \<union> set (waiting p rs r)"
    by (cases r) (auto simp: landed_def waiting_def)
  then have "attestations_in (rs @ [r]) = A \<union> landed p rs r \<union> set (so_pending (absorb_record p r st))"
    using Cons.prems(4) step by auto
  then show ?case
    using Cons.IH [of "rs @ [r]" "A \<union> landed p rs r" "absorb_record p r st"] step Cons.prems(2) wire(2) by simp
qed auto

text \<open>The rest of the fields, which absorbing a record leaves alone.\<close>

definition so_frame :: "store \<Rightarrow> record_env list \<times> nat \<times> bytes \<times> bytes \<times> (hot_kind \<Rightarrow> nat list) \<times> bytes set \<times> derived option \<times> nat" where
  "so_frame st = (so_records st, so_log_len st, so_log_hash st, so_stream st, so_hot st, so_hashes st, so_derived st, so_rebuilds st)"

lemma frame_updates [simp]:
  "so_frame (st\<lparr>so_units := u\<rparr>) = so_frame st" "so_frame (st\<lparr>so_interp := i\<rparr>) = so_frame st"
  "so_frame (st\<lparr>so_pending := x\<rparr>) = so_frame st" "so_frame (st\<lparr>so_library := l\<rparr>) = so_frame st"
  by (simp_all add: so_frame_def)

lemma attach_or_wait_keeps [simp]:
  "so_frame (attach_or_wait a st) = so_frame st" "so_library (attach_or_wait a st) = so_library st"
  by (auto simp: attach_or_wait_def attach_def split: option.split)

lemma attach_all_keeps [simp]:
  "so_frame (fold attach_or_wait ws st) = so_frame st" "so_library (fold attach_or_wait ws st) = so_library st"
  by (induction ws arbitrary: st) simp_all

lemma absorb_record_keeps [simp]: "so_frame (absorb_record p r st) = so_frame st"
  by (cases r) (auto simp: absorb_record_def absorb_unit_def)

lemma absorb_records_keep [simp]: "so_frame (fold (absorb_record p) bs st) = so_frame st"
  by (induction bs arbitrary: st) simp_all

definition so_graph :: "store \<Rightarrow> (uid, smy_unit) bmap \<times> interpretive \<times> attestation list" where
  "so_graph st = (so_units st, so_interp st, so_pending st)"

lemma absorb_source_keeps [simp]: "so_frame (absorb_source p r st) = so_frame st" "so_graph (absorb_source p r st) = so_graph st"
  by (cases r; simp add: absorb_source_def so_graph_def)+

lemma absorb_sources_keep [simp]:
  "so_frame (fold (absorb_source p) bs st) = so_frame st" "so_graph (fold (absorb_source p) bs st) = so_graph st"
  by (induction bs arbitrary: st) simp_all

lemma absorb_record_library:
  "library_spec p rs us (so_library st) \<Longrightarrow> library_spec p (rs @ [r]) us (so_library (absorb_record p r st))"
  by (cases r)
    (simp_all add: absorb_record_def absorb_unit_def library_spec_manifest library_spec_redaction library_spec_dating library_spec_other)

lemma absorb_records_library:
  "library_spec p rs us (so_library st) \<Longrightarrow> library_spec p (rs @ bs) us (so_library (fold (absorb_record p) bs st))"
  using absorb_record_library by (induction bs arbitrary: rs st) (simp, fastforce)

lemma absorb_sources_library:
  "library_spec p rs us (so_library st) \<Longrightarrow> library_spec p rs (us @ units_in bs) (so_library (fold (absorb_source p) bs st))"
proof (induction bs arbitrary: us st)
  case (Cons r bs)
  show ?case
  proof (cases "\<exists>c. r = RUnit c")
    case True
    then obtain c where r: "r = RUnit c" by blast
    have "units_in (r # bs) = c # units_in bs" by (simp add: r units_in_def List.map_filter_simps)
    then show ?thesis
      using Cons.IH [of "us @ [c]" "absorb_source p r st"] library_spec_unit [OF Cons.prems]
      by (simp add: r absorb_source_def)
  next
    case False
    then have "units_in (r # bs) = units_in bs" "absorb_source p r st = st"
      by (cases r; simp add: units_in_def List.map_filter_simps absorb_source_def)+
    then show ?thesis using Cons by simp
  qed
qed simp

subsection \<open>A store and its log\<close>

text \<open>Every attestation whose subject is held is attached, and the others wait.\<close>

definition settled_graph :: "platform \<Rightarrow> record_env list \<Rightarrow> store \<Rightarrow> bool" where
  "settled_graph p rs st \<longleftrightarrow> graph_spec p rs {a \<in> attestations_in rs. held p rs (at_uid a)} st \<and>
     set (so_pending st) = {a \<in> attestations_in rs. \<not> held p rs (at_uid a)}"

text \<open>The cache holds what would be derived now.\<close>

definition cache_ok :: "platform \<Rightarrow> store \<Rightarrow> bool" where
  "cache_ok p st \<longleftrightarrow> (case so_derived st of Some d \<Rightarrow> d = derive p st | None \<Rightarrow> True)"

definition hot_at :: "record_env list \<Rightarrow> hot_kind \<Rightarrow> nat list" where
  "hot_at rs k = filter (\<lambda>i. hot_kind_of (rs ! i) = Some k) [0..<length rs]"

definition store_ok :: "platform \<Rightarrow> store \<Rightarrow> bool" where
  "store_ok p st \<longleftrightarrow>
     settled_graph p (so_records st) st \<and> library_spec p (so_records st) (units_in (so_records st)) (so_library st) \<and>
     so_hot st = hot_at (so_records st) \<and> so_hashes st = record_hash p ` set (so_records st) \<and> cache_ok p st"

definition log_ok :: "platform \<Rightarrow> store \<Rightarrow> bool" where
  "log_ok p st \<longleftrightarrow> so_stream st = log_bytes p st \<and> so_log_len st = length (so_stream st) \<and> so_log_hash st = pf_hash p (so_stream st)"

lemma store_new_ok: "store_ok p (store_new p)" "log_ok p (store_new p)"
proof -
  have "so_records (store_new p) = []" "so_pending (store_new p) = []" by (simp_all add: store_new_def)
  then have "settled_graph p (so_records (store_new p)) (store_new p)"
    using graph_spec_new [of p] by (simp add: settled_graph_def)
  then show "store_ok p (store_new p)"
    using library_new_spec [of p] by (simp add: store_ok_def store_new_def cache_ok_def hot_at_def fun_eq_iff)
qed (simp add: log_ok_def store_new_def log_bytes_def batch_bytes_def)

lemma derive_graph: "so_units st = so_units st' \<Longrightarrow> so_interp st = so_interp st' \<Longrightarrow> derive p st = derive p st'"
  unfolding derive_def reads_with_def Let_def by simp

lemma absorb_text:
  "list_all is_text bs \<Longrightarrow> so_graph (fold (absorb_record p) bs st) = so_graph st"
proof (induction bs arbitrary: st)
  case (Cons r bs)
  have "so_graph (absorb_record p r st) = so_graph st"
    using Cons.prems by (cases r) (simp_all add: absorb_record_def so_graph_def)
  then show ?case using Cons by simp
qed simp

lemma text_records:
  "list_all is_text bs \<Longrightarrow> units_in (rs @ bs) = units_in rs \<and> rels_in (rs @ bs) = rels_in rs \<and>
     attestations_in (rs @ bs) = attestations_in rs \<and> interp_layer p (rs @ bs) = interp_layer p rs"
proof (induction bs rule: rev_induct)
  case (snoc r bs)
  have "is_text r" using snoc.prems by simp
  then show ?case
    using snoc.IH snoc.prems unfolding append_assoc [symmetric]
    by (cases r) (simp_all only: in_snoc rels_in_snoc attestations_in_snoc interp_layer_snoc list_all_append, simp_all)
qed simp

lemma hot_at_append: "hot_at (rs @ bs) = push_hot (length rs) bs (hot_at rs)"
proof
  fix k
  have "filter (\<lambda>i. hot_kind_of ((rs @ bs) ! i) = Some k) [0..<length rs] = hot_at rs k"
    unfolding hot_at_def by (rule filter_cong) (simp_all add: nth_append)
  moreover have "filter (\<lambda>i. hot_kind_of ((rs @ bs) ! i) = Some k) [length rs..<length rs + length bs] =
      map (\<lambda>i. length rs + i) (filter (\<lambda>i. hot_kind_of (bs ! i) = Some k) [0..<length bs])"
  proof -
    have "[length rs..<length rs + length bs] = map (\<lambda>i. length rs + i) [0..<length bs]"
      by (simp add: map_add_upt add.commute)
    then show ?thesis by (simp add: filter_map comp_def)
  qed
  ultimately show "hot_at (rs @ bs) k = push_hot (length rs) bs (hot_at rs) k"
    by (simp add: hot_at_def push_hot_def upt_add_eq_append [of 0])
qed

text \<open>Folding in a batch keeps the store a function of its log, whatever the batch holds.\<close>

lemma absorb_ok:
  assumes ok: "store_ok p st" and apart: "apart p (so_records st @ bs)" and wire: "wire bs"
  shows "store_ok p (absorb p bs st)" and "so_records (absorb p bs st) = so_records st @ bs"
    and "so_stream (absorb p bs st) = so_stream st" and "so_log_len (absorb p bs st) = so_log_len st"
    and "so_log_hash (absorb p bs st) = so_log_hash st"
proof -
  let ?rs = "so_records st"
  define st2 where "st2 = fold (absorb_record p) bs (st\<lparr>so_hashes := so_hashes st \<union> set (map (record_hash p) bs)\<rparr>)"
  define st3 where "st3 = fold (absorb_source p) bs st2"
  define st4 where "st4 = st3\<lparr>so_hot := push_hot (length (so_records st3)) bs (so_hot st3), so_records := so_records st3 @ bs\<rparr>"
  have absorb: "absorb p bs st = (if moves_edges bs then rebuild_adjacency st4 else st4)"
    by (simp add: absorb_def absorb_hashed_def Let_def st2_def st3_def st4_def)
  have "so_frame st3 = so_frame (st\<lparr>so_hashes := so_hashes st \<union> set (map (record_hash p) bs)\<rparr>)"
    by (simp add: st3_def st2_def)
  then have frame: "so_records st3 = ?rs" "so_log_len st3 = so_log_len st" "so_log_hash st3 = so_log_hash st" "so_stream st3 = so_stream st"
      "so_hot st3 = so_hot st" "so_hashes st3 = so_hashes st \<union> record_hash p ` set bs" "so_derived st3 = so_derived st"
    by (simp_all add: so_frame_def)
  have graph: "so_graph st4 = so_graph st2" using absorb_sources_keep(2) [of p bs st2] by (simp add: st4_def st3_def so_graph_def)
  have library: "library_spec p (?rs @ bs) (units_in (?rs @ bs)) (so_library st4)"
    unfolding in_append st4_def st3_def
    using ok by (simp add: store_ok_def st2_def absorb_sources_library absorb_records_library)
  have fields: "so_records st4 = ?rs @ bs" "so_hot st4 = hot_at (?rs @ bs)" "so_hashes st4 = record_hash p ` set (?rs @ bs)"
      "so_stream st4 = so_stream st" "so_log_len st4 = so_log_len st" "so_log_hash st4 = so_log_hash st" "so_derived st4 = so_derived st"
    using ok by (auto simp: st4_def frame hot_at_append store_ok_def)
  have settled: "settled_graph p ?rs st" using ok by (simp add: store_ok_def)
  have frame5: "so_frame (rebuild_adjacency st4) = so_frame (st4\<lparr>so_rebuilds := so_rebuilds st4 + 1, so_derived := None\<rparr>)"
    using attach_all_keeps(1) [of "so_pending st4" "st4\<lparr>so_rebuilds := so_rebuilds st4 + 1, so_pending := []\<rparr>"]
    by (simp add: rebuild_adjacency_def so_frame_def)
  have "store_ok p (absorb p bs st) \<and> so_records (absorb p bs st) = ?rs @ bs \<and> so_stream (absorb p bs st) = so_stream st \<and>
    so_log_len (absorb p bs st) = so_log_len st \<and> so_log_hash (absorb p bs st) = so_log_hash st"
  proof (cases "moves_edges bs")
    case True
    have "\<exists>A'. graph_spec p (?rs @ bs) A' st2 \<and> attestations_in (?rs @ bs) = A' \<union> set (so_pending st2)"
    proof -
      let ?st1 = "st\<lparr>so_hashes := so_hashes st \<union> set (map (record_hash p) bs)\<rparr>"
      have "graph_spec p ?rs {a \<in> attestations_in ?rs. held p ?rs (at_uid a)} ?st1"
        using settled by (simp add: settled_graph_def)
      moreover have "attestations_in ?rs = {a \<in> attestations_in ?rs. held p ?rs (at_uid a)} \<union> set (so_pending ?st1)"
        using settled by (auto simp: settled_graph_def)
      ultimately show ?thesis unfolding st2_def using absorb_batch [OF _ apart wire] by blast
    qed
    then obtain A' where A': "graph_spec p (?rs @ bs) A' st4" "attestations_in (?rs @ bs) = A' \<union> set (so_pending st4)"
      using graph graph_spec_fields [of st4 st2] by (auto simp: so_graph_def)
    let ?st5 = "fold attach_or_wait (so_pending st4) (st4\<lparr>so_rebuilds := so_rebuilds st4 + 1, so_pending := []\<rparr>)"
    have "graph_spec p (?rs @ bs) (A' \<union> {b \<in> set (so_pending st4). held p (?rs @ bs) (at_uid b)}) ?st5 \<and>
        so_pending ?st5 = filter (\<lambda>b. \<not> held p (?rs @ bs) (at_uid b)) (so_pending st4)"
      using attach_all_spec [OF apart, of A' "st4\<lparr>so_rebuilds := so_rebuilds st4 + 1, so_pending := []\<rparr>" "so_pending st4"] A'(1) by simp
    moreover have "A' \<union> {b \<in> set (so_pending st4). held p (?rs @ bs) (at_uid b)} = {a \<in> attestations_in (?rs @ bs). held p (?rs @ bs) (at_uid a)}"
      "set (filter (\<lambda>b. \<not> held p (?rs @ bs) (at_uid b)) (so_pending st4)) = {a \<in> attestations_in (?rs @ bs). \<not> held p (?rs @ bs) (at_uid a)}"
    proof -
      have "held p (?rs @ bs) (at_uid a)" if "a \<in> A'" for a using A'(1) that unfolding graph_spec_def by blast
      then show "A' \<union> {b \<in> set (so_pending st4). held p (?rs @ bs) (at_uid b)} = {a \<in> attestations_in (?rs @ bs). held p (?rs @ bs) (at_uid a)}"
        "set (filter (\<lambda>b. \<not> held p (?rs @ bs) (at_uid b)) (so_pending st4)) = {a \<in> attestations_in (?rs @ bs). \<not> held p (?rs @ bs) (at_uid a)}"
        unfolding A'(2) by auto
    qed
    ultimately have "settled_graph p (?rs @ bs) (rebuild_adjacency st4)"
      by (simp add: settled_graph_def rebuild_adjacency_def)
    then show ?thesis
      using True frame5 fields library attach_all_keeps(2) [of "so_pending st4" "st4\<lparr>so_rebuilds := so_rebuilds st4 + 1, so_pending := []\<rparr>"]
      by (simp add: absorb store_ok_def so_frame_def cache_ok_def rebuild_adjacency_def)
  next
    case False
    then have quiet: "list_all is_text bs" by (simp add: moves_edges_def)
    have same: "so_graph st4 = so_graph st" using graph absorb_text [OF quiet] by (simp add: st2_def so_graph_def)
    have "held p (?rs @ bs) = held p ?rs" using text_records [OF quiet] by (auto simp: held_def)
    then have "settled_graph p (?rs @ bs) st4"
      using settled text_records [OF quiet, of ?rs p] same graph_spec_records [of "?rs @ bs" ?rs p] graph_spec_fields [of st4 st]
      by (simp add: settled_graph_def so_graph_def)
    moreover have "cache_ok p st4"
      using ok same derive_graph [of st4 st p] by (simp add: store_ok_def cache_ok_def fields so_graph_def split: option.splits)
    ultimately show ?thesis using False fields library by (simp add: absorb store_ok_def)
  qed
  then show "store_ok p (absorb p bs st)" and "so_records (absorb p bs st) = so_records st @ bs"
    and "so_stream (absorb p bs st) = so_stream st" and "so_log_len (absorb p bs st) = so_log_len st"
    and "so_log_hash (absorb p bs st) = so_log_hash st" by blast+
qed

subsection \<open>Appending\<close>

lemma fresh_of_spec:
  "fresh_of p seen rs = (f, d) \<Longrightarrow>
     set f \<union> set d = set rs \<and> distinct (map (record_hash p) f) \<and> record_hash p ` set f \<inter> seen = {} \<and>
     record_hash p ` set d \<subseteq> seen \<union> record_hash p ` set f \<and> length f + length d = length rs"
proof (induction rs arbitrary: seen f d)
  case (Cons r rs)
  show ?case
  proof (cases "record_hash p r \<in> seen")
    case True
    then obtain d' where "fresh_of p seen rs = (f, d')" "d = r # d'" using Cons.prems by (auto split: prod.splits)
    then show ?thesis using Cons.IH [of seen f d'] True by auto
  next
    case False
    then obtain f' where f': "fresh_of p (insert (record_hash p r) seen) rs = (f', d)" "f = r # f'"
      using Cons.prems by (auto split: prod.splits)
    show ?thesis using Cons.IH [OF f'(1)] False f'(2) by auto
  qed
qed simp

lemma fresh_of_held: "record_hash p ` set rs \<subseteq> seen \<Longrightarrow> fresh_of p seen rs = ([], rs)"
  by (induction rs) auto

lemma apart_mono: "apart p rs \<Longrightarrow> set rs' \<subseteq> set rs \<Longrightarrow> apart p rs'"
proof -
  assume "apart p rs" and sub: "set rs' \<subseteq> set rs"
  moreover have "rels_in rs' \<subseteq> rels_in rs" "set (units_in rs') \<subseteq> set (units_in rs)"
    using sub by (auto simp: rels_in_def set_in)
  ultimately show ?thesis unfolding apart_def by blast
qed

lemma wire_mono: "wire rs \<Longrightarrow> set rs' \<subseteq> set rs \<Longrightarrow> wire rs'"
  by (auto simp: wire_def rels_in_def)

lemma bm_insert_same: "bm_ok m \<Longrightarrow> bm_get m k = Some v \<Longrightarrow> bm_insert k v m = m"
  by (rule bm_ext) (auto simp: bm_get_insert)

lemma union_wire:
  assumes "bm_ok (ip_relations (so_interp st))"
  shows "wire rs \<Longrightarrow> union_edge_attestations rs st = st"
proof (induction rs)
  case (Cons r rs)
  have w: "wire [r]" "wire rs" using Cons.prems wire_append [of "[r]" rs] by simp_all
  have "union_edge_attestations [r] st = st"
  proof (cases "\<exists>x. r = RRelation x")
    case True
    then obtain x where r: "r = RRelation x" by blast
    have "rl_attestations x = {}" using w(1) by (simp add: wire_def rels_in_def r)
    then show ?thesis
      by (cases "bm_get (ip_relations (so_interp st)) (rel_key_of x)")
        (simp_all add: union_edge_attestations_def r bm_insert_same [OF assms])
  next
    case False
    then show ?thesis by (cases r; simp add: union_edge_attestations_def)
  qed
  moreover have "union_edge_attestations (r # rs) st = union_edge_attestations rs (union_edge_attestations [r] st)"
    by (simp only: union_edge_attestations_def fold.simps comp_def id_def)
  ultimately show ?case using Cons.IH [OF w(2)] by (simp only:)
qed (simp add: union_edge_attestations_def)

lemma store_ok_relations: "store_ok p st \<Longrightarrow> bm_ok (ip_relations (so_interp st))"
proof -
  assume "store_ok p st"
  then obtain m rs where "so_interp st = (interp_layer p rs)\<lparr>ip_relations := m\<rparr>" "bm_ok m"
    unfolding store_ok_def settled_graph_def graph_spec_def by blast
  then show ?thesis by simp
qed

lemma store_ok_updates [simp]:
  "store_ok p (st\<lparr>so_log_len := n\<rparr>) = store_ok p st" "store_ok p (st\<lparr>so_stream := b\<rparr>) = store_ok p st"
  "store_ok p (st\<lparr>so_log_hash := h\<rparr>) = store_ok p st"
proof -
  have "graph_spec p rs A (st\<lparr>so_log_len := n\<rparr>) = graph_spec p rs A st" "graph_spec p rs A (st\<lparr>so_stream := b\<rparr>) = graph_spec p rs A st"
    "graph_spec p rs A (st\<lparr>so_log_hash := h\<rparr>) = graph_spec p rs A st" for rs A
    by (simp_all add: graph_spec_def)
  moreover have "derive p (st\<lparr>so_log_len := n\<rparr>) = derive p st" "derive p (st\<lparr>so_stream := b\<rparr>) = derive p st"
    "derive p (st\<lparr>so_log_hash := h\<rparr>) = derive p st"
    by (rule derive_graph; simp)+
  then have "cache_ok p (st\<lparr>so_log_len := n\<rparr>) = cache_ok p st" "cache_ok p (st\<lparr>so_stream := b\<rparr>) = cache_ok p st"
    "cache_ok p (st\<lparr>so_log_hash := h\<rparr>) = cache_ok p st"
    by (cases "so_derived st"; simp add: cache_ok_def)+
  ultimately show "store_ok p (st\<lparr>so_log_len := n\<rparr>) = store_ok p st" "store_ok p (st\<lparr>so_stream := b\<rparr>) = store_ok p st"
    "store_ok p (st\<lparr>so_log_hash := h\<rparr>) = store_ok p st"
    by (simp_all add: store_ok_def settled_graph_def)
qed

text \<open>What an append returns.\<close>

lemma append_run:
  assumes ok: "store_ok p st" and apart: "apart p (so_records st @ f)" and wire: "wire rs"
    and run: "store_append p rs st = Inr (st', rep)" and fresh: "fresh_of p (so_hashes st) rs = (f, d)"
  shows "store_ok p st'" and "so_records st' = so_records st @ f" and "log_ok p st \<Longrightarrow> log_ok p st'"
    and "f = [] \<Longrightarrow> st' = st" and "rep = \<lparr>ar_added = length f, ar_duplicates = length d, ar_bytes_written = length (batch_bytes p f)\<rparr>"
proof -
  have sub: "set f \<subseteq> set rs" "set d \<subseteq> set rs" using fresh_of_spec [OF fresh] by auto
  have d: "wire d" and f: "wire f" using wire_mono wire sub by blast+
  have "refuse_unloggable rs = Inr ()" using run by (cases "refuse_unloggable rs") (simp_all add: store_append_def)
  then have run': "store_append p rs st =
     (if f = [] then Inr (union_edge_attestations d st, \<lparr>ar_added = 0, ar_duplicates = length d, ar_bytes_written = 0\<rparr>)
      else let st2 = union_edge_attestations d (absorb p f (st\<lparr>so_log_len := so_log_len st + length (batch_bytes p f)\<rparr>));
             st3 = st2\<lparr>so_stream := so_stream st2 @ batch_bytes p f\<rparr>
         in Inr (st3\<lparr>so_log_hash := pf_hash p (so_stream st3)\<rparr>,
              \<lparr>ar_added = length f, ar_duplicates = length d, ar_bytes_written = length (batch_bytes p f)\<rparr>))"
    by (simp add: store_append_def fresh absorb_def Let_def)
  have empty: "batch_bytes p [] = []" by (simp add: batch_bytes_def)
  let ?st0 = "st\<lparr>so_log_len := so_log_len st + length (batch_bytes p f)\<rparr>"
  have ok0: "store_ok p ?st0" "apart p (so_records ?st0 @ f)" using ok apart by simp_all
  define ab where "ab = absorb p f ?st0"
  have abs: "store_ok p ab" "so_records ab = so_records st @ f" "so_stream ab = so_stream st"
    "so_log_len ab = so_log_len st + length (batch_bytes p f)" "so_log_hash ab = so_log_hash st"
    using absorb_ok [OF ok0 f] by (simp_all add: ab_def)
  have union: "union_edge_attestations d ab = ab" "union_edge_attestations d st = st"
    using union_wire [OF store_ok_relations d] abs(1) ok by blast+
  have bytes: "batch_bytes p (so_records st @ f) = batch_bytes p (so_records st) @ batch_bytes p f"
    by (simp add: batch_bytes_def)
  have "store_ok p st' \<and> so_records st' = so_records st @ f \<and> (log_ok p st \<longrightarrow> log_ok p st') \<and> (f = [] \<longrightarrow> st' = st) \<and>
      rep = \<lparr>ar_added = length f, ar_duplicates = length d, ar_bytes_written = length (batch_bytes p f)\<rparr>"
  proof (cases "f = []")
    case True
    then show ?thesis using run run' union(2) ok empty by simp
  next
    case False
    then have st': "st' = ab\<lparr>so_stream := so_stream ab @ batch_bytes p f,
        so_log_hash := pf_hash p (so_stream ab @ batch_bytes p f)\<rparr>"
      and rep: "rep = \<lparr>ar_added = length f, ar_duplicates = length d, ar_bytes_written = length (batch_bytes p f)\<rparr>"
      using run run' union(1) unfolding ab_def by (simp_all add: Let_def)
    show ?thesis
      unfolding rep st' using False abs by (simp add: log_ok_def log_bytes_def bytes)
  qed
  then show "store_ok p st'" and "so_records st' = so_records st @ f" and "log_ok p st \<Longrightarrow> log_ok p st'"
    and "f = [] \<Longrightarrow> st' = st" and "rep = \<lparr>ar_added = length f, ar_duplicates = length d, ar_bytes_written = length (batch_bytes p f)\<rparr>"
    by blast+
qed

end
