(* ===== verification/Store_Union.thy ===== *)
theory Store_Union
  imports Store_Spec
begin

section \<open>Stores with the same records\<close>

text \<open>
  What each part of the interpretive layer holds, by lookup, as a function of the set of records, and
  that two stores of the same records hold the same whatever order the records came in, as long as no two
  records of one kind claim the same identity (\<open>compatible\<close>). Threads need no such hypothesis beyond
  encodings telling them apart: their register is settled by clock and bytes.
\<close>

definition threads_in :: "record_env list \<Rightarrow> thread set" where
  "threads_in rs = {t. RThread t \<in> set rs}"

definition views_in :: "record_env list \<Rightarrow> view set" where
  "views_in rs = {v. RView v \<in> set rs}"

definition contentions_in :: "record_env list \<Rightarrow> contention set" where
  "contentions_in rs = {c. RContention c \<in> set rs}"

definition withdrawals_in :: "record_env list \<Rightarrow> withdrawal set" where
  "withdrawals_in rs = {w. RWithdrawal w \<in> set rs}"

definition resolutions_in :: "record_env list \<Rightarrow> resolution set" where
  "resolutions_in rs = {r. RResolution r \<in> set rs}"

definition commits_in :: "record_env list \<Rightarrow> commit set" where
  "commits_in rs = {c. RCommit c \<in> set rs}"

definition compatible :: "platform \<Rightarrow> record_env list \<Rightarrow> bool" where
  "compatible p rs \<longleftrightarrow>
     inj_on (unit_id p) (set (units_in rs)) \<and> inj_on rel_key_of (rels_in rs) \<and> inj_on vw_id (views_in rs) \<and>
     inj_on ct_id (contentions_in rs) \<and> inj_on (\<lambda>t. rec_bytes p (RThread t)) (threads_in rs) \<and>
     inj_on (mid_of p) {m. RManifest m \<in> set rs} \<and> inj_on (did_of p) {d. RDating d \<in> set rs}"

lemmas records_in_defs = threads_in_def views_in_def contentions_in_def withdrawals_in_def resolutions_in_def commits_in_def

lemma records_in_Nil [simp]:
  "threads_in [] = {}" "views_in [] = {}" "contentions_in [] = {}" "withdrawals_in [] = {}" "resolutions_in [] = {}" "commits_in [] = {}"
  by (simp_all add: records_in_defs)

lemma records_in_snoc [simp]:
  "threads_in (rs @ [r]) = threads_in rs \<union> (case r of RThread x \<Rightarrow> {x} | _ \<Rightarrow> {})"
  "views_in (rs @ [r]) = views_in rs \<union> (case r of RView x \<Rightarrow> {x} | _ \<Rightarrow> {})"
  "contentions_in (rs @ [r]) = contentions_in rs \<union> (case r of RContention x \<Rightarrow> {x} | _ \<Rightarrow> {})"
  "withdrawals_in (rs @ [r]) = withdrawals_in rs \<union> (case r of RWithdrawal x \<Rightarrow> {x} | _ \<Rightarrow> {})"
  "resolutions_in (rs @ [r]) = resolutions_in rs \<union> (case r of RResolution x \<Rightarrow> {x} | _ \<Rightarrow> {})"
  "commits_in (rs @ [r]) = commits_in rs \<union> (case r of RCommit x \<Rightarrow> {x} | _ \<Rightarrow> {})"
  unfolding records_in_defs set_append list.set Un_iff singleton_iff empty_iff simp_thms
  by (cases r; simp only: record_env.inject record_env.distinct record_env.simps simp_thms; blast)+

lemma records_in_same:
  "set rs = set rs' \<Longrightarrow> threads_in rs = threads_in rs' \<and> views_in rs = views_in rs' \<and> contentions_in rs = contentions_in rs' \<and>
     withdrawals_in rs = withdrawals_in rs' \<and> resolutions_in rs = resolutions_in rs' \<and> commits_in rs = commits_in rs' \<and>
     rels_in rs = rels_in rs' \<and> attestations_in rs = attestations_in rs' \<and> set (units_in rs) = set (units_in rs')"
  by (auto simp: records_in_defs rels_in_def attestations_in_def set_in)

subsection \<open>The layer, by lookup\<close>

lemma layer_snoc:
  "ip_threads (interp_layer p (rs @ [r])) = (case r of RThread t \<Rightarrow> put_thread p t (ip_threads (interp_layer p rs)) | _ \<Rightarrow> ip_threads (interp_layer p rs))"
  "ip_views (interp_layer p (rs @ [r])) = (case r of RView v \<Rightarrow> bm_insert (vw_id v) v (ip_views (interp_layer p rs)) | _ \<Rightarrow> ip_views (interp_layer p rs))"
  "ip_contentions (interp_layer p (rs @ [r])) =
     (case r of RContention c \<Rightarrow> put_contention c (ip_contentions (interp_layer p rs)) | _ \<Rightarrow> ip_contentions (interp_layer p rs))"
  "ip_withdrawals (interp_layer p (rs @ [r])) =
     (case r of RWithdrawal w \<Rightarrow> bm_extend_at (wd_relation w) {w} (ip_withdrawals (interp_layer p rs)) | _ \<Rightarrow> ip_withdrawals (interp_layer p rs))"
  "ip_resolutions (interp_layer p (rs @ [r])) =
     (case r of RResolution x \<Rightarrow> insert x (ip_resolutions (interp_layer p rs)) | _ \<Rightarrow> ip_resolutions (interp_layer p rs))"
  "ip_commits (interp_layer p (rs @ [r])) =
     (case r of RCommit c \<Rightarrow> bm_extend_at (cm_unit c) {c} (ip_commits (interp_layer p rs)) | _ \<Rightarrow> ip_commits (interp_layer p rs))"
  by (cases r; simp add: interp_layer_snoc absorb_relation_def absorb_thread_def absorb_view_def absorb_contention_def)+

lemma layer_Nil: "interp_layer p [] = interp_new"
  by (simp add: interp_layer_def)

lemma layer_maps_ok:
  "bm_ok (ip_relations (interp_layer p rs))" "bm_ok (ip_rids (interp_layer p rs))" "bm_ok (ip_threads (interp_layer p rs))"
  "bm_ok (ip_views (interp_layer p rs))" "bm_ok (ip_withdrawals (interp_layer p rs))" "bm_ok (ip_commits (interp_layer p rs))"
  "distinct (map ct_id (ip_contentions (interp_layer p rs)))"
  using interp_layer_ok [of p rs] by (simp_all add: interp_ok_def)

lemma layer_sets:
  "ip_resolutions (interp_layer p rs) = resolutions_in rs"
  "bm_get (ip_withdrawals (interp_layer p rs)) k = some_set {w \<in> withdrawals_in rs. wd_relation w = k}"
  "bm_get (ip_commits (interp_layer p rs)) k = some_set {c \<in> commits_in rs. cm_unit c = k}"
proof -
  show "ip_resolutions (interp_layer p rs) = resolutions_in rs"
    by (induction rs rule: rev_induct) (simp_all add: layer_Nil interp_new_def layer_snoc split: record_env.split)
  show "bm_get (ip_withdrawals (interp_layer p rs)) k = some_set {w \<in> withdrawals_in rs. wd_relation w = k}"
  proof (induction rs arbitrary: k rule: rev_induct)
    case (snoc r rs)
    show ?case
    proof (cases "\<exists>w. r = RWithdrawal w")
      case True
      then obtain w where r: "r = RWithdrawal w" by blast
      have "{x \<in> withdrawals_in (rs @ [r]). wd_relation x = k} =
          (if k = wd_relation w then insert w {x \<in> withdrawals_in rs. wd_relation x = k} else {x \<in> withdrawals_in rs. wd_relation x = k})"
        by (auto simp: r)
      then show ?thesis using extend_some_set [OF layer_maps_ok(5) snoc.IH] by (simp add: r layer_snoc)
    qed (use snoc.IH in \<open>cases r; simp add: layer_snoc\<close>)
  qed (simp add: layer_Nil interp_new_def some_set_def)
  show "bm_get (ip_commits (interp_layer p rs)) k = some_set {c \<in> commits_in rs. cm_unit c = k}"
  proof (induction rs arbitrary: k rule: rev_induct)
    case (snoc r rs)
    show ?case
    proof (cases "\<exists>c. r = RCommit c")
      case True
      then obtain c where r: "r = RCommit c" by blast
      have "{x \<in> commits_in (rs @ [r]). cm_unit x = k} =
          (if k = cm_unit c then insert c {x \<in> commits_in rs. cm_unit x = k} else {x \<in> commits_in rs. cm_unit x = k})"
        by (auto simp: r)
      then show ?thesis using extend_some_set [OF layer_maps_ok(6) snoc.IH] by (simp add: r layer_snoc)
    qed (use snoc.IH in \<open>cases r; simp add: layer_snoc\<close>)
  qed (simp add: layer_Nil interp_new_def some_set_def)
qed

lemma layer_views:
  "bm_get (ip_views (interp_layer p rs)) k = Some v \<Longrightarrow> v \<in> views_in rs \<and> vw_id v = k"
  "bm_get (ip_views (interp_layer p rs)) k = None \<longleftrightarrow> k \<notin> vw_id ` views_in rs"
proof -
  show "bm_get (ip_views (interp_layer p rs)) k = Some v \<Longrightarrow> v \<in> views_in rs \<and> vw_id v = k"
    by (induction rs rule: rev_induct)
      (auto simp: layer_Nil interp_new_def layer_snoc bm_get_insert_any split: record_env.splits if_splits)
  show "bm_get (ip_views (interp_layer p rs)) k = None \<longleftrightarrow> k \<notin> vw_id ` views_in rs"
    by (induction rs rule: rev_induct)
      (simp_all add: layer_Nil interp_new_def layer_snoc bm_get_insert_any split: record_env.split)
qed

lemma layer_contentions:
  "ct_id ` set (ip_contentions (interp_layer p rs)) = ct_id ` contentions_in rs"
  "set (ip_contentions (interp_layer p rs)) \<subseteq> contentions_in rs"
proof -
  show "ct_id ` set (ip_contentions (interp_layer p rs)) = ct_id ` contentions_in rs"
    by (induction rs rule: rev_induct)
      (auto simp: layer_Nil interp_new_def layer_snoc put_contention_image split: record_env.split)
  show "set (ip_contentions (interp_layer p rs)) \<subseteq> contentions_in rs"
    by (induction rs rule: rev_induct)
      (auto simp: layer_Nil interp_new_def layer_snoc put_contention_image split: record_env.splits if_splits)
qed

lemma layer_thread_none: "bm_get (ip_threads (interp_layer p rs)) k = None \<longleftrightarrow> k \<notin> thread_key ` threads_in rs"
  by (induction rs rule: rev_induct)
    (auto simp: layer_Nil interp_new_def layer_snoc put_thread_get [OF refl] split: record_env.split)

text \<open>The register of a thread holds one of its versions, and none newer was appended.\<close>

definition newest :: "platform \<Rightarrow> record_env list \<Rightarrow> string \<times> string \<Rightarrow> thread \<Rightarrow> bool" where
  "newest p rs k t \<longleftrightarrow> t \<in> threads_in rs \<and> thread_key t = k \<and>
     (\<forall>t' \<in> threads_in rs. thread_key t' = k \<longrightarrow> \<not> thread_newer p t' t)"

lemma layer_thread_newest: "bm_get (ip_threads (interp_layer p rs)) k = Some t \<Longrightarrow> newest p rs k t"
proof (induction rs arbitrary: t rule: rev_induct)
  case (snoc r rs)
  show ?case
  proof (cases "\<exists>x. r = RThread x \<and> thread_key x = k")
    case False
    then have "bm_get (ip_threads (interp_layer p rs)) k = Some t"
      using snoc.prems by (cases r) (auto simp: layer_snoc put_thread_get [OF refl])
    moreover have "t' \<in> threads_in rs" if "t' \<in> threads_in (rs @ [r])" "thread_key t' = k" for t'
      using that False by (cases r) auto
    ultimately show ?thesis using snoc.IH by (auto simp: newest_def)
  next
    case True
    then obtain x where r: "r = RThread x" and x: "thread_key x = k" by blast
    have get: "Some t = Some (case bm_get (ip_threads (interp_layer p rs)) k of Some e \<Rightarrow> if thread_newer p x e then x else e | None \<Rightarrow> x)"
      using snoc.prems by (simp add: r layer_snoc put_thread_get [OF x])
    show ?thesis
    proof (cases "bm_get (ip_threads (interp_layer p rs)) k")
      case None
      then have "k \<notin> thread_key ` threads_in rs" using layer_thread_none by blast
      then have "thread_key t' \<noteq> k" if "t' \<in> threads_in rs" for t' using that by (metis imageI)
      then show ?thesis using get None x thread_newer_weak(3) [of p x] by (auto simp: newest_def r)
    next
      case (Some e)
      note e = snoc.IH [OF Some, unfolded newest_def]
      show ?thesis
      proof (cases "thread_newer p x e")
        case True
        then have "\<not> thread_newer p t' x" if "t' \<in> threads_in rs" "thread_key t' = k" for t'
          using e that thread_newer_weak by blast
        then show ?thesis using True get Some x thread_newer_weak(3) [of p x] by (auto simp: newest_def r)
      qed (use e get Some in \<open>auto simp: newest_def r\<close>)
    qed
  qed
qed (simp add: layer_Nil interp_new_def)

lemma newest_unique:
  assumes "newest p rs k t" "newest p rs k t'" "inj_on (\<lambda>t. rec_bytes p (RThread t)) (threads_in rs)"
  shows "t = t'"
proof -
  have "\<not> thread_newer p t t'" "\<not> thread_newer p t' t" using assms(1,2) by (auto simp: newest_def)
  then have "rec_bytes p (RThread t) = rec_bytes p (RThread t')" unfolding thread_newer_def by (metis linorder_neqE)
  then show ?thesis using assms by (auto simp: newest_def dest: inj_onD)
qed

lemma layer_wire_relation:
  "wire rs \<Longrightarrow> bm_get (ip_relations (interp_layer p rs)) k = Some r \<Longrightarrow> r \<in> rels_in rs \<and> rel_key_of r = k"
proof (induction rs arbitrary: r rule: rev_induct)
  case (snoc x rs)
  have w: "wire rs" "wire [x]" using snoc.prems(1) wire_append by blast+
  show ?case
  proof (cases "\<exists>y. x = RRelation y")
    case True
    then obtain y where x: "x = RRelation y" by blast
    have "rl_attestations y = {}" using w(2) by (simp add: wire_def rels_in_def x)
    then show ?thesis
      using snoc.prems(2) snoc.IH [OF w(1)] by (auto simp: x layer_relations_snoc split: if_splits option.splits)
  next
    case False
    then have "bm_get (ip_relations (interp_layer p rs)) k = Some r" "rels_in (rs @ [x]) = rels_in rs"
      using snoc.prems(2) by (cases x; simp add: layer_relations_snoc)+
    then show ?thesis using snoc.IH [OF w(1)] by simp
  qed
qed (simp add: layer_Nil interp_new_def)

lemma lookups_agree:
  assumes "\<And>v. f = Some v \<Longrightarrow> P v" "\<And>v. g = Some v \<Longrightarrow> P v" "f = None \<longleftrightarrow> g = None"
    and "\<And>v w. P v \<Longrightarrow> P w \<Longrightarrow> v = w"
  shows "f = g"
proof (cases f)
  case (Some v)
  then obtain w where "g = Some w" using assms(3) by (cases g) auto
  then show ?thesis using Some assms(1,2,4) by metis
qed (use assms(3) in simp)

text \<open>Two layers of the same records.\<close>

lemma layer_of_set:
  assumes same: "set rs = set rs'" and "apart p rs" "wire rs" "compatible p rs"
  shows "ip_relations (interp_layer p rs) = ip_relations (interp_layer p rs')"
    and "ip_rids (interp_layer p rs) = ip_rids (interp_layer p rs')"
    and "ip_threads (interp_layer p rs) = ip_threads (interp_layer p rs')"
    and "ip_views (interp_layer p rs) = ip_views (interp_layer p rs')"
    and "set (ip_contentions (interp_layer p rs)) = set (ip_contentions (interp_layer p rs'))"
    and "ip_withdrawals (interp_layer p rs) = ip_withdrawals (interp_layer p rs')"
    and "ip_resolutions (interp_layer p rs) = ip_resolutions (interp_layer p rs')"
    and "ip_commits (interp_layer p rs) = ip_commits (interp_layer p rs')"
proof -
  note [simp] = records_in_same [OF same]
  have wire': "wire rs'" using assms(3) wire_mono same by blast
  have rel_inj: "inj_on rel_key_of (rels_in rs)" and view_inj: "inj_on vw_id (views_in rs)" and cont_inj: "inj_on ct_id (contentions_in rs)"
    and thread_inj: "inj_on (\<lambda>t. rec_bytes p (RThread t)) (threads_in rs)"
    using assms(4) by (auto simp: compatible_def)
  show "ip_relations (interp_layer p rs) = ip_relations (interp_layer p rs')"
  proof (rule bm_ext [OF layer_maps_ok(1) layer_maps_ok(1)])
    fix k
    show "bm_get (ip_relations (interp_layer p rs)) k = bm_get (ip_relations (interp_layer p rs')) k"
    proof (rule lookups_agree [where P = "\<lambda>r. r \<in> rels_in rs \<and> rel_key_of r = k"])
      show "v \<in> rels_in rs \<and> rel_key_of v = k" if "bm_get (ip_relations (interp_layer p rs')) k = Some v" for v
        using layer_wire_relation [OF wire' that] by simp
      show "bm_get (ip_relations (interp_layer p rs)) k = None \<longleftrightarrow> bm_get (ip_relations (interp_layer p rs')) k = None"
        unfolding layer_relations by simp
      show "v = w" if "v \<in> rels_in rs \<and> rel_key_of v = k" "w \<in> rels_in rs \<and> rel_key_of w = k" for v w
        using that rel_inj by (metis inj_onD)
    qed (use layer_wire_relation [OF assms(3)] in blast)
  qed
  show "ip_rids (interp_layer p rs) = ip_rids (interp_layer p rs')"
  proof (rule bm_ext [OF layer_maps_ok(2) layer_maps_ok(2)])
    fix u
    show "bm_get (ip_rids (interp_layer p rs)) u = bm_get (ip_rids (interp_layer p rs')) u"
    proof (rule lookups_agree [where P = "\<lambda>k. \<exists>r \<in> rels_in rs. rel_id p r = u \<and> rel_key_of r = k"])
      show "v = w" if "\<exists>r \<in> rels_in rs. rel_id p r = u \<and> rel_key_of r = v" "\<exists>r \<in> rels_in rs. rel_id p r = u \<and> rel_key_of r = w" for v w
        using that assms(2) unfolding apart_def by metis
      show "bm_get (ip_rids (interp_layer p rs)) u = None \<longleftrightarrow> bm_get (ip_rids (interp_layer p rs')) u = None"
        unfolding layer_rids_none by simp
    qed (use layer_rids_some [of p rs u] layer_rids_some [of p rs' u] in auto)
  qed
  show "ip_threads (interp_layer p rs) = ip_threads (interp_layer p rs')"
  proof (rule bm_ext [OF layer_maps_ok(3) layer_maps_ok(3)])
    fix k
    show "bm_get (ip_threads (interp_layer p rs)) k = bm_get (ip_threads (interp_layer p rs')) k"
    proof (rule lookups_agree [where P = "newest p rs k"])
      show "newest p rs k t" if "bm_get (ip_threads (interp_layer p rs')) k = Some t" for t
        using layer_thread_newest [OF that] by (simp add: newest_def)
      show "bm_get (ip_threads (interp_layer p rs)) k = None \<longleftrightarrow> bm_get (ip_threads (interp_layer p rs')) k = None"
        unfolding layer_thread_none by simp
    qed (use layer_thread_newest newest_unique thread_inj in blast)+
  qed
  show "ip_views (interp_layer p rs) = ip_views (interp_layer p rs')"
  proof (rule bm_ext [OF layer_maps_ok(4) layer_maps_ok(4)])
    fix k
    show "bm_get (ip_views (interp_layer p rs)) k = bm_get (ip_views (interp_layer p rs')) k"
      by (rule lookups_agree [where P = "\<lambda>v. v \<in> views_in rs \<and> vw_id v = k"])
        (use layer_views(1) [of p rs k] layer_views(1) [of p rs' k] view_inj in \<open>auto simp: layer_views(2) dest: inj_onD\<close>)
  qed
  have all: "set (ip_contentions (interp_layer p zs)) = contentions_in rs" if "set zs = set rs" for zs
  proof
    have zs: "contentions_in zs = contentions_in rs" using records_in_same [OF that] by simp
    show "set (ip_contentions (interp_layer p zs)) \<subseteq> contentions_in rs" using layer_contentions(2) [of p zs] zs by simp
    show "contentions_in rs \<subseteq> set (ip_contentions (interp_layer p zs))"
    proof
      fix c assume c: "c \<in> contentions_in rs"
      then have "ct_id c \<in> ct_id ` set (ip_contentions (interp_layer p zs))" using zs by (simp add: layer_contentions(1))
      then obtain d where "d \<in> set (ip_contentions (interp_layer p zs))" "ct_id d = ct_id c" by (metis imageE)
      then show "c \<in> set (ip_contentions (interp_layer p zs))"
        using c cont_inj layer_contentions(2) [of p zs] zs by (metis inj_onD subsetD)
    qed
  qed
  show "set (ip_contentions (interp_layer p rs)) = set (ip_contentions (interp_layer p rs'))" using all same by simp
  show "ip_withdrawals (interp_layer p rs) = ip_withdrawals (interp_layer p rs')"
    by (rule bm_ext [OF layer_maps_ok(5) layer_maps_ok(5)]) (simp add: layer_sets)
  show "ip_resolutions (interp_layer p rs) = ip_resolutions (interp_layer p rs')" by (simp add: layer_sets)
  show "ip_commits (interp_layer p rs) = ip_commits (interp_layer p rs')"
    by (rule bm_ext [OF layer_maps_ok(6) layer_maps_ok(6)]) (simp add: layer_sets)
qed

end
