(* ===== verification/Store_Props.thy ===== *)
theory Store_Props
  imports Store_Union Envelope
begin

section \<open>What a store keeps\<close>

text \<open>
  The stores a program can reach, and what holds of all of them: the store is a function of its log, the
  cache is current, appending twice is appending once, a log opened again answers as the store that wrote
  it, and stores with the same records agree.
\<close>

inductive store_reached :: "platform \<Rightarrow> store \<Rightarrow> bool" for p where
  new: "store_reached p (store_new p)"
| records: "wire rs \<Longrightarrow> store_reached p (from_records p rs)"
| append: "store_reached p st \<Longrightarrow> wire rs \<Longrightarrow> store_append p rs st = Inr (st', rep) \<Longrightarrow> store_reached p st'"
| prepare: "store_reached p st \<Longrightarrow> store_reached p (prepare p st)"
| reopen: "store_reached p st \<Longrightarrow> store_reached p (of_log p (so_records st) (so_stream st))"

subsection \<open>The invariant\<close>

lemma union_keeps [simp]: "so_frame (union_edge_attestations rs st) = so_frame st"
proof (induction rs arbitrary: st)
  case (Cons r rs)
  have "union_edge_attestations (r # rs) st = union_edge_attestations rs (union_edge_attestations [r] st)"
    by (simp only: union_edge_attestations_def fold.simps comp_def id_def)
  moreover have "so_frame (union_edge_attestations [r] st) = so_frame st"
    by (cases r) (auto simp: union_edge_attestations_def split: option.split)
  ultimately show ?case using Cons.IH by (simp only:)
qed (simp add: union_edge_attestations_def)

lemma absorb_hashed_records: "so_records (absorb_hashed p rs hs st) = so_records st @ rs"
proof -
  define st3 where "st3 = fold (absorb_source p) rs (fold (absorb_record p) rs (st\<lparr>so_hashes := so_hashes st \<union> set hs\<rparr>))"
  have "so_frame st3 = so_frame (st\<lparr>so_hashes := so_hashes st \<union> set hs\<rparr>)" by (simp add: st3_def)
  then have 3: "so_records st3 = so_records st" by (simp add: so_frame_def)
  define st4 where "st4 = st3\<lparr>so_hot := push_hot (length (so_records st3)) rs (so_hot st3), so_records := so_records st3 @ rs\<rparr>"
  have "so_frame (fold attach_or_wait (so_pending st4) (st4\<lparr>so_rebuilds := so_rebuilds st4 + 1, so_pending := []\<rparr>)) =
      so_frame (st4\<lparr>so_rebuilds := so_rebuilds st4 + 1, so_pending := []\<rparr>)" by (rule attach_all_keeps)
  then have "so_records (rebuild_adjacency st4) = so_records st4" by (simp add: rebuild_adjacency_def so_frame_def)
  moreover have "so_records st4 = so_records st @ rs" by (simp add: st4_def 3)
  ultimately show ?thesis by (simp add: absorb_hashed_def Let_def st4_def st3_def)
qed

lemma append_records:
  assumes "store_append p rs st = Inr (st', rep)"
  shows "so_records st' = so_records st @ fst (fresh_of p (so_hashes st) rs)"
proof -
  obtain f d where fd: "fresh_of p (so_hashes st) rs = (f, d)" by fastforce
  have keeps: "so_records (union_edge_attestations d st0) = so_records st0" for st0
    using union_keeps [of d st0] by (simp add: so_frame_def)
  show ?thesis
    using assms by (cases "refuse_unloggable rs")
      (auto simp: store_append_def fd Let_def keeps absorb_hashed_records split: if_splits)
qed


lemma from_records_run:
  assumes kept: "fresh_of p {} rs = (f, d)" and "wire rs" "apart p f"
  shows "store_ok p (from_records p rs)" "log_ok p (from_records p rs)" "so_records (from_records p rs) = f"
proof -
  have sub: "set f \<subseteq> set rs" "set d \<subseteq> set rs" using fresh_of_spec [OF kept] by auto
  have w: "wire f" "wire d" using wire_mono [OF assms(2)] sub by blast+
  let ?st0 = "(store_new p)\<lparr>so_stream := batch_bytes p f\<rparr>"
  have "store_ok p ?st0" using store_new_ok(1) [of p] by simp
  moreover have "apart p (so_records ?st0 @ f)" using assms(3) by (simp add: store_new_def)
  ultimately have ok: "store_ok p ?st0" "apart p (so_records ?st0 @ f)" by blast+
  define ab where "ab = absorb p f ?st0"
  have abs: "store_ok p ab" "so_records ab = f" "so_stream ab = batch_bytes p f"
    using absorb_ok [OF ok w(1)] by (simp_all add: ab_def store_new_def)
  have "from_records p rs = ab\<lparr>so_log_len := length (batch_bytes p f), so_log_hash := pf_hash p (so_stream ab)\<rparr>"
    using union_wire [OF store_ok_relations [OF abs(1)] w(2)]
    by (simp add: from_records_def kept Let_def ab_def absorb_def)
  then show "store_ok p (from_records p rs)" "log_ok p (from_records p rs)" "so_records (from_records p rs) = f"
    using abs by (simp_all add: log_ok_def log_bytes_def)
qed

lemma from_records_records: "so_records (from_records p rs) = fst (fresh_of p {} rs)"
proof -
  obtain f d where fd: "fresh_of p {} rs = (f, d)" by fastforce
  have keeps: "so_records (union_edge_attestations d st0) = so_records st0" for st0
    using union_keeps [of d st0] by (simp add: so_frame_def)
  show ?thesis by (simp add: from_records_def fd Let_def keeps absorb_hashed_records) (simp add: store_new_def)
qed

lemma of_log_run:
  assumes "apart p rs" "wire rs"
  shows "store_ok p (of_log p rs b)" "so_records (of_log p rs b) = rs" "so_stream (of_log p rs b) = b"
    "so_log_len (of_log p rs b) = length b" "so_log_hash (of_log p rs b) = pf_hash p b"
proof -
  have ok: "store_ok p (store_new p)" "apart p (so_records (store_new p) @ rs)"
    using store_new_ok [of p] assms(1) by (simp_all add: store_new_def)
  show "store_ok p (of_log p rs b)" "so_records (of_log p rs b) = rs" "so_stream (of_log p rs b) = b"
    "so_log_len (of_log p rs b) = length b" "so_log_hash (of_log p rs b) = pf_hash p b"
    using absorb_ok [OF ok assms(2)] by (simp_all add: of_log_def store_new_def)
qed

lemma of_log_records: "so_records (of_log p rs b) = rs"
  by (simp add: of_log_def absorb_def absorb_hashed_records) (simp add: store_new_def)

lemma prepare_ok: "store_ok p st \<Longrightarrow> store_ok p (prepare p st)"
proof -
  assume ok: "store_ok p st"
  have "derive p (prepare p st) = derive p st" by (rule derive_graph) (simp_all add: prepare_def)
  then have "cache_ok p (prepare p st)"
    using ok by (cases "so_derived st") (simp_all add: store_ok_def cache_ok_def prepare_def derived_of_def)
  moreover have "graph_spec p rs A (prepare p st) = graph_spec p rs A st" for rs A by (simp add: prepare_def)
  moreover have "so_records (prepare p st) = so_records st" "so_pending (prepare p st) = so_pending st" "so_library (prepare p st) = so_library st"
    "so_hot (prepare p st) = so_hot st" "so_hashes (prepare p st) = so_hashes st" by (simp_all add: prepare_def)
  ultimately show ?thesis using ok unfolding store_ok_def settled_graph_def by simp
qed

lemma reached_ok:
  "store_reached p st \<Longrightarrow> apart p (so_records st) \<Longrightarrow> wire (so_records st) \<and> store_ok p st \<and> log_ok p st"
proof (induction rule: store_reached.induct)
  case new
  then show ?case using store_new_ok [of p] by (simp add: store_new_def wire_def)
next
  case (records rs)
  obtain f d where fd: "fresh_of p {} rs = (f, d)" by fastforce
  then have f: "so_records (from_records p rs) = f" by (simp add: from_records_records)
  have "set f \<subseteq> set rs" using fresh_of_spec [OF fd] by auto
  then have "wire f" by (rule wire_mono [OF records(1)])
  then show ?case using from_records_run [OF fd records(1)] records(2) f by simp
next
  case (append st rs st' rep)
  obtain f d where fd: "fresh_of p (so_hashes st) rs = (f, d)" by fastforce
  have recs: "so_records st' = so_records st @ f" using append_records [OF append.hyps(3)] fd by simp
  then have "apart p (so_records st)" using append.prems apart_prefix by metis
  then have st: "wire (so_records st)" "store_ok p st" "log_ok p st" using append.IH by blast+
  have "set f \<subseteq> set rs" using fresh_of_spec [OF fd] by auto
  then have "wire f" by (rule wire_mono [OF append.hyps(2)])
  then have "wire (so_records st')" using st(1) by (simp add: recs wire_append)
  moreover have "apart p (so_records st @ f)" using append.prems recs by simp
  ultimately show ?case using append_run [OF st(2) _ append.hyps(2,3) fd] st(3) by blast
next
  case (prepare st)
  have "so_records (prepare p st) = so_records st" by (simp add: prepare_def)
  then have "wire (so_records st)" "store_ok p st" "log_ok p st" using prepare by auto
  then show ?case using prepare_ok by (simp add: prepare_def log_ok_def log_bytes_def)
next
  case (reopen st)
  have "wire (so_records st)" "log_ok p st" "apart p (so_records st)"
    using reopen by (simp_all add: of_log_records)
  then show ?case using of_log_run [of p "so_records st" "so_stream st"] by (simp add: log_ok_def log_bytes_def)
qed

subsection \<open>Stores that agree\<close>

lemma graph_agrees:
  assumes st: "graph_spec p rs A st" "graph_spec p rs' A st'"
    and same: "\<And>u. map_of (unit_log p rs) u = map_of (unit_log p rs') u" "rels_in rs = rels_in rs'"
      "ip_relations (interp_layer p rs) = ip_relations (interp_layer p rs')"
  shows "so_units st = so_units st'" "ip_relations (so_interp st) = ip_relations (so_interp st')"
    "so_interp st = (interp_layer p rs)\<lparr>ip_relations := ip_relations (so_interp st)\<rparr>"
proof -
  obtain m where i: "so_interp st = (interp_layer p rs)\<lparr>ip_relations := m\<rparr>" and m: "bm_ok m"
    and rel: "\<And>k. bm_get m k = map_option (with_attestations (rel_attested p rs A k)) (bm_get (ip_relations (interp_layer p rs)) k)"
    and units: "bm_ok (so_units st)" "\<And>u. bm_get (so_units st) u = spec_unit p rs A u"
    by (rule graph_specE [OF st(1)], rule that)
  obtain m' where i': "so_interp st' = (interp_layer p rs')\<lparr>ip_relations := m'\<rparr>" and m': "bm_ok m'"
    and rel': "\<And>k. bm_get m' k = map_option (with_attestations (rel_attested p rs' A k)) (bm_get (ip_relations (interp_layer p rs')) k)"
    and units': "bm_ok (so_units st')" "\<And>u. bm_get (so_units st') u = spec_unit p rs' A u"
    by (rule graph_specE [OF st(2)], rule that)
  have "spec_unit p rs A u = spec_unit p rs' A u" for u by (simp add: spec_unit_def same(1))
  then show "so_units st = so_units st'" by (intro bm_ext units(1) units'(1)) (simp add: units(2) units'(2))
  have "m = m'" by (intro bm_ext m m') (simp add: rel rel' same rel_attested_def)
  then show "ip_relations (so_interp st) = ip_relations (so_interp st')" by (simp add: i i')
  show "so_interp st = (interp_layer p rs)\<lparr>ip_relations := ip_relations (so_interp st)\<rparr>" by (simp add: i)
qed

lemma library_agrees: "library_spec p rs us l \<Longrightarrow> library_spec p rs us l' \<Longrightarrow> l = l'"
proof (rule store_library.equality)
  assume "library_spec p rs us l" "library_spec p rs us l'"
  then show "sl_manifests l = sl_manifests l'" "sl_by_alias l = sl_by_alias l'" "sl_by_tid l = sl_by_tid l'"
    "sl_redactions l = sl_redactions l'" "sl_datings l = sl_datings l'"
    by (auto simp: library_spec_def intro!: bm_ext)
qed (auto simp: library_spec_def)

text \<open>Everything a store answers from, but for its counters and the order of its waiting list.\<close>

lemma store_agrees:
  assumes "store_ok p st" "store_ok p st'" "so_records st = so_records st'"
  shows "so_units st = so_units st'" "so_interp st = so_interp st'" "so_library st = so_library st'" "so_hot st = so_hot st'"
    "so_hashes st = so_hashes st'" "set (so_pending st) = set (so_pending st')" "store_reads p st = store_reads p st'"
proof -
  let ?rs = "so_records st'"
  let ?A = "{a \<in> attestations_in ?rs. held p ?rs (at_uid a)}"
  have g: "graph_spec p ?rs ?A st" "graph_spec p ?rs ?A st'" and pend: "set (so_pending st) = set (so_pending st')"
    and lib: "library_spec p ?rs (units_in ?rs) (so_library st)" "library_spec p ?rs (units_in ?rs) (so_library st')"
    and rest: "so_hot st = so_hot st'" "so_hashes st = so_hashes st'" and cache: "cache_ok p st" "cache_ok p st'"
    using assms by (simp_all add: store_ok_def settled_graph_def)
  note agree = graph_agrees [OF g refl refl refl]
  show units: "so_units st = so_units st'" by (rule agree)
  show interp: "so_interp st = so_interp st'"
    using agree(2,3) graph_agrees(3) [OF g(2,2) refl refl refl] by simp
  show "so_library st = so_library st'" by (rule library_agrees [OF lib])
  show "so_hot st = so_hot st'" "so_hashes st = so_hashes st'" "set (so_pending st) = set (so_pending st')" by (fact rest pend)+
  have "derived_of p x = derive p x" if "cache_ok p x" for x
    using that by (cases "so_derived x") (simp_all add: derived_of_def cache_ok_def)
  then have "derived_of p st = derived_of p st'" using cache derive_graph [OF units interp] by simp
  then show "store_reads p st = store_reads p st'" by (simp add: store_reads_def reads_with_def units interp)
qed

lemma union_agrees:
  assumes ok: "store_ok p st" "store_ok p st'" and same: "set (so_records st) = set (so_records st')"
    and "apart p (so_records st)" "wire (so_records st)" "compatible p (so_records st)"
  shows "so_units st = so_units st'" "so_library st = so_library st'" "so_hashes st = so_hashes st'"
    "set (so_pending st) = set (so_pending st')" "set (ip_contentions (so_interp st)) = set (ip_contentions (so_interp st'))"
    "(so_interp st)\<lparr>ip_contentions := cs\<rparr> = (so_interp st')\<lparr>ip_contentions := cs\<rparr>"
proof -
  let ?rs = "so_records st" and ?rs' = "so_records st'"
  note in_same = records_in_same [OF same]
  have held: "held p ?rs = held p ?rs'" using in_same by (auto simp: held_def)
  let ?A = "{a \<in> attestations_in ?rs. held p ?rs (at_uid a)}"
  have g: "graph_spec p ?rs ?A st" "graph_spec p ?rs' ?A st'" and pend: "set (so_pending st) = set (so_pending st')"
    and lib: "library_spec p ?rs (units_in ?rs) (so_library st)" "library_spec p ?rs' (units_in ?rs') (so_library st')"
    and hashes: "so_hashes st = so_hashes st'"
    using ok in_same held same by (simp_all add: store_ok_def settled_graph_def)
  have inj: "inj_on (unit_id p) (set (units_in ?rs))" "inj_on (mid_of p) {m. RManifest m \<in> set ?rs}" "inj_on (did_of p) {d. RDating d \<in> set ?rs}"
    using assms(6) by (auto simp: compatible_def)
  have log: "map_of (unit_log p ?rs) u = map_of (unit_log p ?rs') u" for u
    unfolding unit_log_def by (rule map_of_same_set [OF _ inj(1)]) (use in_same in simp)
  note layer = layer_of_set [OF same assms(4,5,6)]
  have rels: "rels_in ?rs = rels_in ?rs'" using in_same by simp
  note agree = graph_agrees [OF g log rels layer(1)]
  show "so_units st = so_units st'" by (rule agree)
  show "so_library st = so_library st'" by (rule library_of_set [OF lib same inj(2,3)])
  show "so_hashes st = so_hashes st'" "set (so_pending st) = set (so_pending st')" by (fact hashes pend)+
  have i: "so_interp st = (interp_layer p ?rs)\<lparr>ip_relations := ip_relations (so_interp st)\<rparr>" by (rule agree)
  have i': "so_interp st' = (interp_layer p ?rs')\<lparr>ip_relations := ip_relations (so_interp st)\<rparr>"
    using graph_agrees(3) [OF g(2,2) refl refl refl] agree(2) by simp
  show "set (ip_contentions (so_interp st)) = set (ip_contentions (so_interp st'))"
    by (subst i, subst i') (simp add: layer)
  show "(so_interp st)\<lparr>ip_contentions := cs\<rparr> = (so_interp st')\<lparr>ip_contentions := cs\<rparr>"
    by (subst i, subst i') (rule interpretive.equality; simp add: layer)
qed

subsection \<open>A retraction planned and applied\<close>







subsection \<open>Samples\<close>

definition sample_core :: unit_core where
  "sample_core = unit_builder_new (SchKernel KtClaim) ''a'' StSpeculative"

definition sample_attestation :: record_env where
  "sample_attestation = RAttestation (attestation_new (unit_id sample_platform sample_core) ''human:ada'' OpAuthored RungModel
     \<lparr>wall_ms = 5, counter = 0, hlc_agent = ''human:ada''\<rparr>)"

lemma apart_no_relations: "rels_in rs = {} \<Longrightarrow> apart p rs"
  by (simp add: apart_def)

lemma sample_reached:
  assumes "rels_in rs = {}"
  shows "store_reached p (from_records p rs)" "apart p (so_records (from_records p rs))"
proof -
  have "wire rs" using assms by (simp add: wire_def)
  then show "store_reached p (from_records p rs)" by (rule store_reached.records)
  obtain f d where fd: "fresh_of p {} rs = (f, d)" by fastforce
  have "set f \<subseteq> set rs" using fresh_of_spec [OF fd] by auto
  then have "rels_in f = {}" using assms by (auto simp: rels_in_def)
  then show "apart p (so_records (from_records p rs))" using fd by (simp add: from_records_records apart_no_relations)
qed

lemma sample_no_relations:
  "rels_in [sample_attestation, RUnit sample_core] = {}" "rels_in [RUnit sample_core, sample_attestation] = {}"
  "rels_in [sample_withdrawal] = {}" "rels_in [RUnit sample_core] = {}"
  by (simp_all add: rels_in_def sample_attestation_def sample_withdrawal_def)

subsection \<open>Properties\<close>

text \<open>
  C8. However a store was made (from records, by appends, reopened from its log, with its cache filled), it
  is a function of the records of its log: a unit carries exactly the attestations that name it and the
  attestations whose subject is missing wait; the layer, the library, the hot index and the record hashes are
  those of the records; a filled cache is what would be derived now, also after the batches that skip the
  rebuild; and the length and the hash of the log are those of the bytes the log should hold. The batches
  hold relations as they are on the wire, without attestations attached (those are records of their own),
  and identities do not collide: no unit has the identity of a relation, and relations of one identity have
  one key (\<open>apart\<close>).
\<close>

theorem store_is_its_log:
  assumes "store_reached p st" "apart p (so_records st)"
  shows "store_ok p st \<and> log_ok p st"
  using reached_ok [OF assms] by blast

lemma store_is_its_log_witness:
  "store_ok sample_platform (from_records sample_platform [sample_attestation, RUnit sample_core]) \<and>
   log_ok sample_platform (from_records sample_platform [sample_attestation, RUnit sample_core])"
  by (rule store_is_its_log [OF sample_reached(1) sample_reached(2)]) (fact sample_no_relations)+



text \<open>
  C10. Opening a log again gives back the store that wrote it: the bytes of the log are read as the records
  they were written from, to the last byte, and the store made of them holds the same units with the same
  attestations, the same layer, library, hot index and record hashes, the same waiting attestations, the
  same length and hash of the log, and answers every read the same. The records are well formed, the log is
  shorter than \<open>2 ^ 64\<close> bytes, identities do not collide, and ASCII text is normalised.
\<close>

theorem log_reopens_as_it_was:
  assumes "store_reached p st" "apart p (so_records st)" "ascii_is_nfc (pf_is_nfc p)"
    and "list_all (record_ok (pf_is_nfc p)) (so_records st)" "length (log_bytes p st) < 2 ^ 64"
  shows "\<exists>st'. open_log p (log_bytes p st) = Some (Inr (st', 0)) \<and> so_records st' = so_records st \<and>
    so_units st' = so_units st \<and> so_interp st' = so_interp st \<and> so_library st' = so_library st \<and> so_hot st' = so_hot st \<and>
    so_hashes st' = so_hashes st \<and> set (so_pending st') = set (so_pending st) \<and> so_log_len st' = so_log_len st \<and>
    so_log_hash st' = so_log_hash st \<and> store_reads p st' = store_reads p st"
proof -
  let ?b = "log_bytes p st" and ?rs = "so_records st"
  have st: "wire ?rs" "store_ok p st" "log_ok p st" using reached_ok [OF assms(1,2)] by blast+
  have b: "?b = to_cbor_seq (pf_is_nfc p) (pf_nfc p) ?rs"
    by (simp add: log_bytes_def batch_bytes_def to_cbor_seq_def rec_bytes_def [abs_def])
  have "from_cbor_seq (pf_is_nfc p) (pf_nfc p) ?b = seq_loop (pf_is_nfc p) (pf_nfc p) ?b (length ?b) ?rs"
    using seq_loop_records [OF assms(3,4), of "[]" "pf_nfc p" "[]" "[]"] assms(5) by (simp add: from_cbor_seq_def b)
  also have "\<dots> = Some (Inr (?rs, length ?b))" by (subst seq_loop.simps) simp
  finally have "open_log p ?b = Some (Inr (of_log p ?rs ?b, 0))" by (simp add: open_log_def)
  moreover note opened = of_log_run [OF assms(2) st(1), of ?b]
  moreover have "so_log_len st = length ?b" "so_log_hash st = pf_hash p ?b" using st(3) by (simp_all add: log_ok_def)
  ultimately show ?thesis using store_agrees [OF opened(1) st(2) opened(2)] by auto
qed

lemma log_reopens_as_it_was_witness:
  "\<exists>st'. open_log sample_platform (log_bytes sample_platform (from_records sample_platform [sample_withdrawal])) = Some (Inr (st', 0)) \<and>
     so_records st' = [sample_withdrawal]"
proof -
  let ?st = "from_records sample_platform [sample_withdrawal]"
  have recs: "so_records ?st = [sample_withdrawal]" by (simp add: from_records_records)
  have "length (log_bytes sample_platform ?st) < 2 ^ 64"
  proof -
    have "log_bytes sample_platform ?st = to_cbor (\<lambda>_. True) (\<lambda>s. s) sample_withdrawal"
      by (simp add: log_bytes_def recs batch_bytes_def) (simp add: rec_bytes_def sample_platform_def)
    then show ?thesis by (simp add: sample_length)
  qed
  then show ?thesis
    using log_reopens_as_it_was [of sample_platform ?st] sample_reached [OF sample_no_relations(3), of sample_platform] sample_ok sample_nfc recs
    by (auto simp: sample_platform_def)
qed

text \<open>
  C9. Two stores, each made in any of those ways, that hold the same set of records hold the same state, in
  whatever order and whatever batches the records arrived (rule U): the same units and attestations, the same
  layer (contentions up to their order), the same library, hashes and waiting attestations. Identities must
  not collide (\<open>apart\<close>), and no two records of the stores may claim one key with different content
  (\<open>compatible\<close>: units, relations, views, contentions, manifests, datings, encodings of threads); versions of
  a thread may, and its register converges. Where two relations claim one key the order does show, which is
  recorded as a finding.
\<close>

theorem same_records_same_state:
  assumes "store_reached p st" "store_reached p st'" "set (so_records st) = set (so_records st')"
    and "apart p (so_records st)" "compatible p (so_records st)"
  shows "so_units st = so_units st' \<and> so_library st = so_library st' \<and> so_hashes st = so_hashes st' \<and>
    set (so_pending st) = set (so_pending st') \<and> set (ip_contentions (so_interp st)) = set (ip_contentions (so_interp st')) \<and>
    (so_interp st)\<lparr>ip_contentions := []\<rparr> = (so_interp st')\<lparr>ip_contentions := []\<rparr>"
proof -
  have "apart p (so_records st')" by (rule apart_mono [OF assms(4)]) (simp add: assms(3))
  then have st: "wire (so_records st)" "store_ok p st" "store_ok p st'" using reached_ok assms(1,2,4) by blast+
  show ?thesis using union_agrees [OF st(2,3) assms(3,4) st(1) assms(5)] by blast
qed

lemma same_records_same_state_witness:
  "so_units (from_records sample_platform [sample_attestation, RUnit sample_core]) =
   so_units (from_records sample_platform [RUnit sample_core, sample_attestation]) \<and>
   set (so_pending (from_records sample_platform [sample_attestation, RUnit sample_core])) =
   set (so_pending (from_records sample_platform [RUnit sample_core, sample_attestation]))"
proof -
  let ?a = "[sample_attestation, RUnit sample_core]" and ?b = "[RUnit sample_core, sample_attestation]"
  have ne: "record_hash sample_platform sample_attestation \<noteq> record_hash sample_platform (RUnit sample_core)" by code_simp
  have recs: "so_records (from_records sample_platform ?a) = ?a" "so_records (from_records sample_platform ?b) = ?b"
    using ne by (simp_all add: from_records_records)
  have compat: "compatible sample_platform (so_records (from_records sample_platform ?a))"
    unfolding recs by (simp add: compatible_def units_in_def List.map_filter_simps sample_attestation_def rels_in_def records_in_defs)
  have "set (so_records (from_records sample_platform ?a)) = set (so_records (from_records sample_platform ?b))"
    unfolding recs by auto
  then show ?thesis
    using same_records_same_state [OF sample_reached(1) [OF sample_no_relations(1)] sample_reached(1) [OF sample_no_relations(2)] _
        sample_reached(2) [OF sample_no_relations(1)] compat] by blast
qed







subsection \<open>Where order shows\<close>

text \<open>
  The hypothesis that no two records claim one key is needed: of two relations of one key the first to
  arrive keeps its note, so stores of the same records differ. And a store drops a record it holds where a
  union of shards absorbs it again, so of two views of one identity the union can answer with the one a
  store of the shards' records, in shard order, has replaced.
\<close>

definition noted_relation :: "uid option \<Rightarrow> record_env" where
  "noted_relation note = RRelation ((relation_new Causes (Uid [1]) (Uid [2]))\<lparr>rl_note := note\<rparr>)"

lemma same_key_order_shows:
  "so_hashes (from_records sample_platform [noted_relation None, noted_relation (Some (Uid [9]))]) =
   so_hashes (from_records sample_platform [noted_relation (Some (Uid [9])), noted_relation None]) \<and>
   map (rl_note \<circ> snd) (ip_relations (so_interp (from_records sample_platform [noted_relation None, noted_relation (Some (Uid [9]))]))) = [None] \<and>
   map (rl_note \<circ> snd) (ip_relations (so_interp (from_records sample_platform [noted_relation (Some (Uid [9])), noted_relation None]))) = [Some (Uid [9])]"
  by code_simp

definition sample_view :: "string \<Rightarrow> record_env" where
  "sample_view lang = RView \<lparr>vw_id = ''v'', vw_roots = [], vw_threads = [], vw_requires = [], vw_granularity = granularity_standard,
     vw_intent = ''i'', vw_lang = lang, vw_extra = []\<rparr>"

lemma union_of_shards_repeats:
  "map (vw_lang \<circ> snd) (ip_views (so_interp (from_records sample_platform [sample_view ''en'', sample_view ''fr'', sample_view ''en'']))) = [''fr''] \<and>
   map (vw_lang \<circ> snd) (ip_views (interp_join sample_platform (so_interp (from_records sample_platform [sample_view ''en'']))
     (interp_join sample_platform (so_interp (from_records sample_platform [sample_view ''en'', sample_view ''fr''])) interp_new))) = [''en'']"
  by code_simp

end
