(* ===== verification/Spec2Isabelle.thy ===== *)
theory Spec2Isabelle
  imports
    Smysl_Prelude Identifiers Text_Numbers Vocabulary Dates Uids Quantise Cbor Cbor_Items Cbor_Canon Cbor_Maps Records Adjacency Traverse
    Discourse Manifests Record_Parts Graph_Codecs Discourse_Codecs Library_Parts Library_Codecs Envelope Identity Store_Read Pack_Closure Pack_Cost Pack_Solve Pack_Selections Pack_Greedy Pack_Props Retraction Interp Store_Library Store Store_Spec Store_Union Store_Props
begin

text \<open>
  A verification library for smysl, a format and a store for knowledge that several agents build together:
  claims are content-addressed units, what agents say about them are relations, attestations and other
  records, records are written as canonical CBOR in an append-only log, a store folds a log into a graph,
  and a packer chooses what of a graph fits a token budget. The core crates are modelled: \<open>smysl-core\<close>
  (types, identities, wire format), and of \<open>smysl-graph\<close> and \<open>smysl-pack\<close> the parts listed below. Paths are
  under \<open>src/crates\<close>.

  \<^bold>\<open>How the parts fit.\<close> A record is validated text and numbers (Identifiers, Vocabulary, Dates, Quantise) put
  together as units, relations, attestations, threads, views, manifests and so on (Records, Discourse,
  Manifests). \<open>to_cbor\<close> and \<open>from_cbor\<close> write and read it (Cbor to Envelope). Hashes of those bytes are its
  identity (Uids, Identity). A store (Store) appends records, folds them into units, an interpretive layer
  (Interp) and a library index (Store_Library), and derives an adjacency (Adjacency) and the set of unfounded
  units (Retraction). Everything that reads a store does so through one interface (Store_Read): traversal
  (Traverse works on the adjacency), effective status and retraction plans (Retraction), and the packer
  (Pack_Closure to Pack_Greedy).

  \<^bold>\<open>Theories, in the order of import, and the code they model.\<close>
  \<^item> Smysl_Prelude: sorted lists and maps kept sorted by key, which stand for the BTreeSet and BTreeMap of the
    code, errors in a sum type, and the locale \<open>ordered_map\<close> with its interpretation on those maps.
  \<^item> Identifiers, Text_Numbers, Vocabulary, Dates, Uids, Quantise: \<open>smysl-core/src/ids.rs\<close>,
    \<open>types/epistemics.rs\<close>, \<open>types/provenance.rs\<close>, \<open>types/relation.rs\<close>, \<open>types/annex.rs\<close>, \<open>types/lifecycle.rs\<close>,
    \<open>types/mod.rs\<close>. Labels, agents, kernel types, schema ids; statuses, kinds, rungs and their codes; the hybrid
    clock on 64-bit and 32-bit words; calendar dates; identities with their base 32 and prefixes, bit by bit;
    binary32 quantisation on the bit patterns.
  \<^item> Cbor, Cbor_Items, Cbor_Canon, Cbor_Maps: \<open>cbor/writer.rs\<close>, \<open>cbor/reader.rs\<close>. The encoder's heads and scalars;
    the decoder with its cursor and error positions; the skipping of items, checked against a grammar of
    canonical items; the locales \<open>reader\<close>, \<open>readable\<close>, \<open>writable\<close> and \<open>record_map\<close> that every record codec is an
    interpretation of.
  \<^item> Records, Discourse, Manifests: \<open>types/unit.rs\<close>, \<open>relation.rs\<close>, \<open>provenance.rs\<close>, \<open>thread.rs\<close>, \<open>view.rs\<close>,
    \<open>annex.rs\<close>, \<open>estimate.rs\<close>, \<open>library.rs\<close>: the record types with their constructors and checks.
  \<^item> Record_Parts, Graph_Codecs, Discourse_Codecs, Library_Parts, Library_Codecs, Envelope: \<open>cbor/envelope.rs\<close>
    and \<open>types/record.rs\<close>: one codec per record type, the envelope around them and sequences of records.
  \<^item> Identity: \<open>hash.rs\<close>, \<open>types/library.rs\<close>: the six content identities and the spelling of digests.
  \<^item> Adjacency, Traverse: \<open>smysl-graph/src/adjacency.rs\<close>, \<open>traverse.rs\<close>.
  \<^item> Store_Read: \<open>smysl-graph/src/store/read.rs\<close>. The trait StoreRead as a record of its required answers, and
    its provided methods as functions of it.
  \<^item> Pack_Closure, Pack_Cost, Pack_Solve, Pack_Selections, Pack_Greedy, Pack_Props: \<open>smysl-pack/src/closure.rs\<close>,
    \<open>constraints.rs\<close>, \<open>cost.rs\<close>, \<open>solve.rs\<close>, \<open>bound.rs\<close>. What selecting a unit requires, the checker of the eight
    constraints, costs on 64-bit words, the floor, the lazy greedy and the reported manifest.
  \<^item> Retraction: \<open>smysl-graph/src/merge/policy.rs\<close>, \<open>merge/retraction.rs\<close>. Policies, effective status, plans.
  \<^item> Interp, Store_Library, Store: \<open>smysl-graph/src/store/interp.rs\<close>, \<open>store/library.rs\<close>, \<open>store/mod.rs\<close>. The
    fields of a store as a record; absorbing a batch, appending, reopening, the cache of derived state.
  \<^item> Store_Spec, Store_Union, Store_Props: what a store holds as functions of the records of its log, and the
    stores a program can reach (\<open>store_reached\<close>), with the invariant by induction over how they are reached.

  \<^bold>\<open>What the lemmas show.\<close>
  \<^item> Wire format: heads, integers, texts and sets are read exactly when they are what the writer writes;
    skipping an item accepts exactly the canonical items; every well-formed record reads back, whatever is
    read is well formed and is written as bytes that read the same; a sequence is read up to its first error
    and reading ends on every input.
  \<^item> Identity: different things of any kind have different identities unless the hash collides; spellings
    parse back; an identity has exactly sixteen spellings the parser takes.
  \<^item> Graph: the adjacency has exactly the edges and identities of the units and relations; closures are
    reachability; the topological order is the greedy one and complete; cycles are characterised.
  \<^item> Packing: the result passes the independent checker, the lazy greedy takes what a full rescan would, the
    reported cost is the cost of the selection, the reported minimum is exact, and required sets are least.
  \<^item> Store: a reached store is a function of its log; stores of the same records agree; a log opened again
    answers as before; appending twice is appending once; joining layers is absorbing; effective status
    is a least fixpoint, and a planned retraction shows what the applied one does.
  Where the code differs from its documentation the findings of the manifest name a lemma here
  (\<open>date_parse_plus\<close>, \<open>hlc_advance_wraps\<close>, \<open>cycles_reports_a_lead_in\<close>, \<open>capped_focus_breaks_pin\<close>,
  \<open>scoped_pack_under_reports\<close>, \<open>same_key_order_shows\<close>, \<open>union_of_shards_repeats\<close> and others).

  \<^bold>\<open>Parameters and hypotheses.\<close> BLAKE3 is an argument (\<open>hash\<close>, \<open>pf_hash\<close>): identities are proved apart up to a
  collision on the two inputs at hand, and the store's theorems assume that identities do not collide
  (\<open>apart\<close>). Unicode normalisation is an argument (\<open>is_nfc\<close>, \<open>nfc\<close>) with its documented behaviour as hypotheses
  where needed: normalising gives normal text, and ASCII is normal. The operations of binary64 that the
  packer ranks with are a parameter record. Buffers are shorter than \<open>2 ^ 64\<close> bytes where lengths are read.

  \<^bold>\<open>Bounds, loops and order.\<close> Integers keep their width where overflow can matter (clocks, costs, CBOR
  arguments, hops, codes); lengths, positions, node ids of the adjacency and the log's length are natural
  numbers, so the graph theorems are about fewer than \<open>2 ^ 32\<close> identities. Skipping nested items has the
  code's depth limit. Loops whose end is not structural are functions with a measure (\<open>walk_loop\<close>,
  \<open>topo_loop\<close>, \<open>required_loop\<close>, \<open>take_winner\<close>), or \<open>partial_function (option)\<close> with a theorem that they return
  (\<open>cycles_loop\<close>, \<open>seq_loop\<close>, \<open>greedy_loop\<close>); the fixpoint of effective status ends because each pass that changes anything
  shrinks the set of founded units. Sets the code keeps in a BTreeSet only to iterate in order are
  ascending lists where the order shows and sets where it does not.

  \<^bold>\<open>Not modelled.\<close> The log's file, the sidecar index, locks and the redb backend (input and output around the
  modelled append and reopen); bundles and state digests; unions of shards and overlays beyond the join of
  their layers; contention detection and review, so of merge only its append; salience and lineage, which
  are binary64 iteration and heuristics; the exact search of the packer, an optional feature; the surface
  syntax and payload schemas; queries, retrieval, text readers, ingestion, providers, rendering, the terminal
  interface, measurement and the command line, which are built on the core and are mostly input and output,
  text heuristics or calls of models. The per-script weights of the content estimator are left out, and so
  are caches and buffers the code keeps only for speed, except the packer's memo and the store's
  derived cache, whose validity is proved.
\<close>

end
